(* ===== verification/Kcp_Prelude.thy ===== *)
theory Kcp_Prelude
  imports Main "HOL-Library.Word" "HOL-Library.Signed_Division" "HOL-Library.Monad_Syntax"
begin

text \<open>
  Shared vocabulary of the development: the machine integers of \<^verbatim>\<open>ikcp.h\<close>
  (\<^verbatim>\<open>IUINT8/16/32\<close> as words, the signed \<^verbatim>\<open>IINT32\<close> as an \<^typ>\<open>int\<close> that every assignment
  re-normalises with \<open>s32\<close>), the small arithmetic helpers of \<^verbatim>\<open>ikcp.cc\<close>
  (\<^verbatim>\<open>_imin_\<close>, \<^verbatim>\<open>_imax_\<close>, \<^verbatim>\<open>_ibound_\<close>, \<^verbatim>\<open>_itimediff\<close>), and the theory of
  sequence numbers modulo \<open>2 ^ 32\<close> that every component proof uses.
\<close>

unbundle bit_operations_syntax

section \<open>Machine integers\<close>

type_synonym u8 = "8 word"
type_synonym u16 = "16 word"
type_synonym u32 = "32 word"
type_synonym bytes = "u8 list"

named_theorems kcp_defs "constants and one-line helpers that proofs unfold"

text \<open>Words are read as natural numbers throughout.\<close>

lemma of_nat_of_unat [simp]: "of_nat (unat w) = w" for w :: "'a::len word"
  by (rule word_unat_eq_iff [THEN iffD2]) (simp add: unat_of_nat unsigned_of_nat)

declare of_nat_unat [simp del]
declare uint_nat [simp]

text \<open>The conversion of a wider integer to \<^verbatim>\<open>IINT32\<close> (two's complement wrap).\<close>

definition s32 :: "int \<Rightarrow> int" where
  "s32 x = sint (word_of_int x :: u32)"

text \<open>The conversion of a signed integer to \<^verbatim>\<open>IUINT32\<close>.\<close>

definition to_u32 :: "int \<Rightarrow> u32" where
  "to_u32 x = word_of_int x"

lemma s32_bounds: "- 2147483648 \<le> s32 x \<and> s32 x < 2147483648"
  using sint_ge [of "word_of_int x :: u32"] sint_lt [of "word_of_int x :: u32"]
  by (simp add: s32_def)

lemma s32_id: "- 2147483648 \<le> x \<Longrightarrow> x < 2147483648 \<Longrightarrow> s32 x = x"
  by (simp add: s32_def sint_sbintrunc' signed_take_bit_int_eq_self)

lemma sint_of_int_small:
  "- 2147483648 \<le> x \<Longrightarrow> x < 2147483648 \<Longrightarrow> sint (word_of_int x :: u32) = x"
  using s32_id by (simp add: s32_def)

lemma sint_eq_unat_if:
  "sint (w :: u32) = (if unat w < 2147483648 then int (unat w) else int (unat w) - 4294967296)"
  (is "_ = ?r")
proof -
  have "unat w < 4294967296"
    using unsigned_less [of w, where ?'a = nat] by simp
  then have "sint (word_of_int ?r :: u32) = ?r"
    by (intro sint_of_int_small) (simp_all del: of_nat_unat)
  moreover have "w = word_of_int ?r"
    by (cases "unat w < 2147483648") (simp_all add: word_of_int_minus)
  ultimately show ?thesis by simp
qed

section \<open>The arithmetic helpers of ikcp.cc\<close>

definition imin :: "u32 \<Rightarrow> u32 \<Rightarrow> u32" where
  "imin a b = (if a \<le> b then a else b)"

definition imax :: "u32 \<Rightarrow> u32 \<Rightarrow> u32" where
  "imax a b = (if a \<ge> b then a else b)"

definition ibound :: "u32 \<Rightarrow> u32 \<Rightarrow> u32 \<Rightarrow> u32" where
  "ibound lower middle upper = imin (imax lower middle) upper"

definition itimediff :: "u32 \<Rightarrow> u32 \<Rightarrow> int" where
  "itimediff later earlier = sint (later - earlier)"

text \<open>\<^verbatim>\<open>memcpy(dst + off, src, n)\<close>, on the byte lists of the two blocks.\<close>

definition memcpy_at :: "bytes \<Rightarrow> nat \<Rightarrow> bytes \<Rightarrow> nat \<Rightarrow> bytes" where
  "memcpy_at dst off src n = take off dst @ take n src @ drop (off + n) dst"

lemma length_memcpy_at:
  "off + n \<le> length dst \<Longrightarrow> n \<le> length src \<Longrightarrow> length (memcpy_at dst off src n) = length dst"
  by (simp add: memcpy_at_def)

lemma memcpy_at_whole [simp]:
  "length dst = n \<Longrightarrow> memcpy_at dst 0 src n = take n src"
  by (simp add: memcpy_at_def)

section \<open>Sequence numbers modulo 2^32\<close>

text \<open>The distance of a sequence number from a base, going upwards.\<close>

definition seqoff :: "u32 \<Rightarrow> u32 \<Rightarrow> nat" where
  "seqoff base sn = unat (sn - base)"

lemma seqoff_lt: "seqoff r a < 4294967296"
  using unsigned_less [of "a - r"] by (simp add: seqoff_def)

lemma seqoff_self [simp]: "seqoff r r = 0"
  by (simp add: seqoff_def)

lemma seqoff_add [simp]: "seqoff r (r + n) = unat n"
  by (simp add: seqoff_def)

lemma seqoff_inject: "seqoff r a = seqoff r b \<longleftrightarrow> a = b"
  by (metis seqoff_def diff_eq_eq diff_add_cancel word_unat_eq_iff)

lemma seqoff_eq_0 [simp]: "seqoff r a = 0 \<longleftrightarrow> a = r"
  by (simp add: seqoff_def unat_eq_0)

lemma itimediff_seqoff:
  "itimediff a r =
     (if seqoff r a < 2147483648 then int (seqoff r a) else int (seqoff r a) - 4294967296)"
  by (simp add: itimediff_def seqoff_def sint_eq_unat_if)

lemma itimediff_self [simp]: "itimediff a a = 0"
  by (simp add: itimediff_def)

lemma itimediff_nonneg: "0 \<le> itimediff a r \<longleftrightarrow> seqoff r a < 2147483648"
  using seqoff_lt [of r a] by (simp add: itimediff_seqoff)

text \<open>
  Two sequence numbers less than half the number space above a common base compare by
  \<open>itimediff\<close> as their distances from it do.
\<close>

lemma sint_diff_small:
  fixes x y :: u32
  assumes "unat x < 2147483648" and "unat y < 2147483648"
  shows "sint (x - y) = int (unat x) - int (unat y)"
proof -
  have "x - y = word_of_int (int (unat x) - int (unat y))"
    by (simp add: word_of_int_minus)
  then show ?thesis
    using assms by (simp only:) (intro sint_of_int_small; linarith)
qed

lemma diff_rebase: "a - b = (a - r) - (b - r)" for a b r :: u32
  by simp

lemma itimediff_window:
  assumes "seqoff r a < 2147483648" and "seqoff r b < 2147483648"
  shows "itimediff a b = int (seqoff r a) - int (seqoff r b)"
  using assms sint_diff_small [of "a - r" "b - r"]
  by (metis diff_rebase itimediff_def seqoff_def)

lemma seqoff_Suc_base:
  assumes "a \<noteq> r"
  shows "seqoff (r + 1) a = seqoff r a - 1"
proof -
  have "unat (x - 1) = unat x - 1" if "x \<noteq> 0" for x :: u32
    using that by (rule unat_minus_one)
  from this [of "a - r"] assms show ?thesis
    by (metis diff_diff_add eq_iff_diff_eq_0 seqoff_def)
qed

lemma seqoff_shift_base:
  assumes "seqoff r b \<le> seqoff r a"
  shows "seqoff b a = seqoff r a - seqoff r b"
proof -
  have "unat (x - y) = unat x - unat y" if "unat y \<le> unat x" for x y :: u32
    using that by (simp add: unat_sub word_le_nat_alt)
  from this [of "b - r" "a - r"] assms show ?thesis
    by (metis diff_rebase seqoff_def)
qed

lemma seqoff_plus:
  assumes "seqoff r b + unat n < 4294967296"
  shows "seqoff r (b + n) = seqoff r b + unat n"
proof -
  have "unat (x + n) = unat x + unat n" if "unat x + unat n < 4294967296" for x
    using that by (simp add: unat_word_ariths)
  from this [of "b - r"] assms show ?thesis
    by (metis add_diff_eq diff_add_eq seqoff_def)
qed

section \<open>Words and their bytes, as natural numbers\<close>

lemma unat_drop: "unat (drop_bit n (l::'a::len word)) = unat l div 2 ^ n"
  by (metis drop_bit_eq_div take_bit_nat_eq_self unsigned_drop_bit_eq unsigned_less)
lemma unat_byte0: "unat (ucast (l::'a::len word) :: u8) = unat l mod 256"
  by (simp add: unsigned_ucast_eq take_bit_eq_mod)
lemma ucast_and_255: "(ucast (x AND 255) :: u8) = ucast (x :: 'a::len word)"
proof -
  have "x AND 255 = take_bit 8 x" by (simp add: take_bit_eq_mask mask_eq_exp_minus_1)
  then show ?thesis
    by (simp only: word_unat_eq_iff unat_byte0 unsigned_take_bit_eq) (simp add: take_bit_eq_mod)
qed
lemma unat_byte_up:
  "unat (ucast (b :: u8) :: u32) = unat b" "unat (ucast (b :: u8) :: u16) = unat b"
  using unsigned_less [of b, where ?'a = nat]
  by (simp_all add: unsigned_ucast_eq take_bit_nat_eq_self)
lemma unat_shift8: "unat (push_bit 8 (x :: u32)) = unat x * 256 mod 4294967296"
   "unat (push_bit 8 (y :: u16)) = unat y * 256 mod 65536"
  by (simp_all add: push_bit_eq_mult unat_word_ariths)
lemma unat_add32: "unat (x + y :: u32) = (unat x + unat y) mod 4294967296"
   "unat (a + b :: u16) = (unat a + unat b) mod 65536"
  by (simp_all add: unat_word_ariths)
lemma digit_step: "(a :: nat) < 256 \<Longrightarrow> (a + 256 * y) mod 256 = a \<and> (a + 256 * y) div 256 = y"
  by simp

lemma digits32:
  fixes x :: nat
  shows "x mod 256 + (x div 256 mod 256 * 256 +
    (65536 * (x div 65536 mod 256) + 16777216 * (x div 16777216))) = x"
proof -
  have d: "x div 65536 = x div 256 div 256" "x div 16777216 = x div 256 div 256 div 256"
    by (simp_all flip: div_mult2_eq)
  have "r + (s * 256 + (65536 * t + 16777216 * u)) = x"
    if "x = r + 256 * y" "y = s + 256 * z" "z = t + 256 * u" for r s t u y z :: nat
    using that by simp
  then show ?thesis
    unfolding d by (simp only: mod_mult_div_eq)
qed

lemma digits32_of:
  fixes a b c d :: nat
  assumes "a < 256" "b < 256" "c < 256" "d < 256"
  defines "x \<equiv> a + (b * 256 + (65536 * c + 16777216 * d))"
  shows "x mod 256 = a" "x div 256 mod 256 = b" "x div 65536 mod 256 = c" "x div 16777216 = d"
proof -
  have x: "x div 65536 = x div 256 div 256" "x div 16777216 = x div 256 div 256 div 256"
    by (simp_all flip: div_mult2_eq)
  have x_eq: "x = a + 256 * (b + 256 * (c + 256 * d))" by (simp add: x_def)
  have m: "x mod 256 = a" and d1: "x div 256 = b + 256 * (c + 256 * d)"
    unfolding x_eq using digit_step [OF assms(1)] by blast+
  have d2: "x div 256 div 256 = c + 256 * d"
    unfolding d1 using digit_step [OF assms(2)] by blast
  show "x mod 256 = a" by (rule m)
  show "x div 256 mod 256 = b" unfolding d1 using digit_step [OF assms(2)] by blast
  show "x div 65536 mod 256 = c" unfolding x(1) d2 using digit_step [OF assms(3)] by blast
  show "x div 16777216 = d" unfolding x(2) d2 using digit_step [OF assms(3)] by blast
qed

lemma digits32_bound: "a < 256 \<Longrightarrow> b < 256 \<Longrightarrow> c < 256 \<Longrightarrow> d < 256 \<Longrightarrow>
  a + (b * 256 + (65536 * c + 16777216 * d)) < (4294967296 :: nat)"
  by simp

lemmas word_to_nat = ucast_and_255 unat_drop unat_byte0 unat_byte_up unat_shift8 unat_add32
  word_unat_eq_iff

lemma unat_u8_less: "unat (b :: u8) < 256"
  using unsigned_less [of b, where ?'a = nat] by simp

lemma unat_u16_less: "unat (w :: u16) < 65536"
  using unsigned_less [of w, where ?'a = nat] by simp

lemma unat_u32_less: "unat (w :: u32) < 4294967296"
  using unsigned_less [of w, where ?'a = nat] by simp

section \<open>Conversions between lengths and words\<close>

lemma to_u32_of_nat [simp]: "to_u32 (int n) = of_nat n"
  by (simp add: to_u32_def)

lemma unat_of_nat_u32: "n < 4294967296 \<Longrightarrow> unat (of_nat n :: u32) = n"
  by (simp add: unat_of_nat take_bit_nat_eq_self)

lemma unat_to_u32: "0 \<le> x \<Longrightarrow> x < 4294967296 \<Longrightarrow> unat (to_u32 x) = nat x"
  using unat_of_nat_u32 [of "nat x"] by (simp add: to_u32_def nat_less_iff)

lemma sint_of_nat_u32: "n < 2147483648 \<Longrightarrow> sint (of_nat n :: u32) = int n"
  by (simp add: sint_eq_unat_if unat_of_nat_u32)

lemma sint_small: "unat (w :: u32) < 2147483648 \<Longrightarrow> sint w = int (unat w)"
  by (simp add: sint_eq_unat_if)

lemma unat_Suc_less: "a < b \<Longrightarrow> unat (a + 1) = Suc (unat a)" for a b :: u32
  using unat_u32_less [of b] by (simp add: word_less_nat_alt unat_word_ariths)

section \<open>Runs of a transition system\<close>

text \<open>
  A component with state is a step function that may fail; a run is a list of its actions. The
  locale states what makes a property of the states an invariant of all runs.
\<close>

fun run_steps :: "('a \<Rightarrow> 's \<Rightarrow> 's option) \<Rightarrow> 'a list \<Rightarrow> 's \<Rightarrow> 's option" where
  "run_steps step [] s = Some s"
| "run_steps step (a # acts) s =
     (case step a s of None \<Rightarrow> None | Some s' \<Rightarrow> run_steps step acts s')"

locale safe_steps =
  fixes step :: "'a \<Rightarrow> 's \<Rightarrow> 's option"
    and act_ok :: "'a \<Rightarrow> bool"
    and safe :: "'s \<Rightarrow> bool"
  assumes step_safe: "safe s \<Longrightarrow> act_ok a \<Longrightarrow> step a s = Some s' \<Longrightarrow> safe s'"
begin

lemma run_safe:
  "safe s \<Longrightarrow> list_all act_ok acts \<Longrightarrow> run_steps step acts s = Some s' \<Longrightarrow> safe s'"
  by (induction acts arbitrary: s) (auto split: option.splits intro: step_safe)

lemma run_split:
  "run_steps step (xs @ ys) s =
     (case run_steps step xs s of None \<Rightarrow> None | Some s' \<Rightarrow> run_steps step ys s')"
  by (induction xs arbitrary: s) (auto split: option.splits)

text \<open>The states passed on the way are safe too.\<close>

lemma prefix_safe:
  assumes "safe s" and "list_all act_ok (xs @ ys)" and "run_steps step (xs @ ys) s = Some s'"
  obtains s1 where "run_steps step xs s = Some s1" and "safe s1" and "run_steps step ys s1 = Some s'"
  using assms run_safe [of s xs] by (auto simp: run_split split: option.splits)

end

end
