(* ===== verification/Kcp_Wire.thy ===== *)
theory Kcp_Wire
  imports Kcp_Prelude
begin

text \<open>
  The wire format of \<^verbatim>\<open>ikcp.cc\<close>: the segment structure \<^verbatim>\<open>IKCPSEG\<close>, the little-endian
  encoders and decoders, \<^verbatim>\<open>ikcp_encode_seg\<close>, the header decoding of \<^verbatim>\<open>ikcp_input\<close> and
  \<^verbatim>\<open>ikcp_getconv\<close>. An encoder's output pointer is modelled by the bytes written so far; a
  decoder returns the value and the rest of the input, or \<^const>\<open>None\<close> where the C code would
  read past the end of its buffer. The locale \<open>wire_field\<close> states what the segment encoder
  needs of one field; it is interpreted on the three field codecs.
\<close>

section \<open>Segments\<close>

record ikcpseg =
  seg_conv :: u32
  seg_cmd :: u32
  seg_frg :: u32
  seg_wnd :: u32
  seg_ts :: u32
  seg_sn :: u32
  seg_una :: u32
  seg_len :: u32
  seg_resendts :: u32
  seg_rto :: u32
  seg_fastack :: u32
  seg_xmit :: u32
  seg_data :: bytes

definition IKCP_CMD_PUSH :: u32 where [kcp_defs]: "IKCP_CMD_PUSH = 81"
definition IKCP_CMD_ACK :: u32 where [kcp_defs]: "IKCP_CMD_ACK = 82"
definition IKCP_CMD_WASK :: u32 where [kcp_defs]: "IKCP_CMD_WASK = 83"
definition IKCP_CMD_WINS :: u32 where [kcp_defs]: "IKCP_CMD_WINS = 84"
definition IKCP_OVERHEAD :: u32 where [kcp_defs]: "IKCP_OVERHEAD = 24"

section \<open>Field codecs\<close>

definition ikcp_encode8u :: "bytes \<Rightarrow> u8 \<Rightarrow> bytes" where
  "ikcp_encode8u p c = p @ [c]"

fun ikcp_decode8u :: "bytes \<Rightarrow> (u8 \<times> bytes) option" where
  "ikcp_decode8u (c # p) = Some (c, p)"
| "ikcp_decode8u [] = None"

definition ikcp_encode16u :: "bytes \<Rightarrow> u16 \<Rightarrow> bytes" where
  "ikcp_encode16u p w = p @ [ucast (w AND 255), ucast (drop_bit 8 w)]"

fun ikcp_decode16u :: "bytes \<Rightarrow> (u16 \<times> bytes) option" where
  "ikcp_decode16u (p0 # p1 # p) =
     (let w = ucast p1; w = ucast p0 + push_bit 8 w in Some (w, p))"
| "ikcp_decode16u _ = None"

definition ikcp_encode32u :: "bytes \<Rightarrow> u32 \<Rightarrow> bytes" where
  "ikcp_encode32u p l = p @ [ucast (drop_bit 0 l AND 255), ucast (drop_bit 8 l AND 255),
     ucast (drop_bit 16 l AND 255), ucast (drop_bit 24 l AND 255)]"

fun ikcp_decode32u :: "bytes \<Rightarrow> (u32 \<times> bytes) option" where
  "ikcp_decode32u (p0 # p1 # p2 # p3 # p) =
     (let l = ucast p3;
          l = ucast p2 + push_bit 8 l;
          l = ucast p1 + push_bit 8 l;
          l = ucast p0 + push_bit 8 l
      in Some (l, p))"
| "ikcp_decode32u _ = None"

text \<open>
  On targets that are little-endian and need no alignment the code copies the object
  representation instead (\<^verbatim>\<open>memcpy(p, &l, 4)\<close>): byte \<open>i\<close> is the \<open>i\<close>-th base-256 digit.
\<close>

definition le_bytes :: "nat \<Rightarrow> nat \<Rightarrow> bytes" where
  "le_bytes n x = map (\<lambda>i. of_nat (x div 256 ^ i)) [0..<n]"

definition ikcp_encode16u_memcpy :: "bytes \<Rightarrow> u16 \<Rightarrow> bytes" where
  "ikcp_encode16u_memcpy p w = p @ le_bytes 2 (unat w)"

definition ikcp_encode32u_memcpy :: "bytes \<Rightarrow> u32 \<Rightarrow> bytes" where
  "ikcp_encode32u_memcpy p l = p @ le_bytes 4 (unat l)"

section \<open>What one field of the header promises\<close>

locale wire_field =
  fixes enc :: "bytes \<Rightarrow> 'a \<Rightarrow> bytes"
    and dec :: "bytes \<Rightarrow> ('a \<times> bytes) option"
    and width :: nat
  assumes enc_append: "enc p x = p @ enc [] x"
    and enc_length: "length (enc [] x) = width"
    and dec_enc_nil: "dec (enc [] x @ rest) = Some (x, rest)"
    and enc_dec: "dec bs = Some (x, rest) \<Longrightarrow> bs = enc [] x @ rest"
    and dec_total: "width \<le> length bs \<Longrightarrow> dec bs \<noteq> None"
begin

lemma length_enc: "length (enc p x) = length p + width"
  by (metis enc_append enc_length length_append)

lemma dec_enc_at: "dec (drop (length p) (enc p x @ rest)) = Some (x, rest)"
  by (subst enc_append) (simp add: dec_enc_nil)

lemma dec_short: "length bs < width \<Longrightarrow> dec bs = None"
  by (cases "dec bs") (auto dest!: enc_dec simp: enc_length)

lemma dec_rest: "dec bs = Some (x, rest) \<Longrightarrow> rest = drop width bs"
  by (drule enc_dec) (simp add: enc_length)

lemma dec_Some: "width \<le> length bs \<Longrightarrow> \<exists>x. dec bs = Some (x, drop width bs)"
  using dec_total dec_rest by (metis not_None_eq surj_pair)

lemma dec_at: "n + width \<le> length bs \<Longrightarrow> \<exists>x. dec (drop n bs) = Some (x, drop (n + width) bs)"
  using dec_Some [of "drop n bs"] by (simp add: add.commute)

lemma enc_inject: "enc p x = enc p y \<Longrightarrow> x = y"
  by (metis dec_enc_at option.inject prod.inject append_Nil2)

end

section \<open>The three codecs provide it\<close>

text \<open>
  Each law is a computation on base-256 digits: the encoder writes the digits of the word,
  the decoder's Horner scheme puts them together again.
\<close>

lemma decode16_encode16: "ikcp_decode16u (ikcp_encode16u [] w @ rest) = Some (w, rest)"
  using unat_u16_less [of w] by (simp add: ikcp_encode16u_def Let_def word_to_nat)

lemma decode32_encode32: "ikcp_decode32u (ikcp_encode32u [] w @ rest) = Some (w, rest)"
  using unat_u32_less [of w]
  by (simp add: ikcp_encode32u_def Let_def word_to_nat mod_add_right_eq digits32)

lemma encode16_value: "ikcp_encode16u [] (ucast p0 + push_bit 8 (ucast p1)) = [p0, p1]"
  using unat_u8_less [of p0] unat_u8_less [of p1]
  by (simp add: ikcp_encode16u_def word_to_nat)

lemma encode32_value:
  "ikcp_encode32u [] (ucast p0 + push_bit 8 (ucast p1 + push_bit 8 (ucast p2 + push_bit 8 (ucast p3))))
   = [p0, p1, p2, p3]"
  using unat_u8_less [of p0] unat_u8_less [of p1] unat_u8_less [of p2] unat_u8_less [of p3]
  by (simp add: ikcp_encode32u_def word_to_nat mod_add_right_eq digits32_of digits32_bound)

lemma encode16_decode16:
  "ikcp_decode16u bs = Some (w, rest) \<Longrightarrow> bs = ikcp_encode16u [] w @ rest"
  by (cases bs rule: ikcp_decode16u.cases) (auto simp: encode16_value Let_def)

lemma encode32_decode32:
  "ikcp_decode32u bs = Some (w, rest) \<Longrightarrow> bs = ikcp_encode32u [] w @ rest"
  by (cases bs rule: ikcp_decode32u.cases) (auto simp: encode32_value Let_def)

interpretation f8: wire_field ikcp_encode8u ikcp_decode8u 1
proof (unfold_locales, goal_cases)
  case (4 bs x rest)
  then show ?case by (cases bs rule: ikcp_decode8u.cases) (auto simp: ikcp_encode8u_def)
next
  case (5 bs)
  then show ?case by (cases bs rule: ikcp_decode8u.cases) auto
qed (simp_all add: ikcp_encode8u_def)

interpretation f16: wire_field ikcp_encode16u ikcp_decode16u 2
proof (unfold_locales, goal_cases)
  case (3 x rest)
  show ?case by (rule decode16_encode16)
next
  case (4 bs x rest)
  then show ?case by (rule encode16_decode16)
next
  case (5 bs)
  then show ?case by (cases bs rule: ikcp_decode16u.cases) (auto simp: Let_def)
qed (simp_all add: ikcp_encode16u_def)

interpretation f32: wire_field ikcp_encode32u ikcp_decode32u 4
proof (unfold_locales, goal_cases)
  case (3 x rest)
  show ?case by (rule decode32_encode32)
next
  case (4 bs x rest)
  then show ?case by (rule encode32_decode32)
next
  case (5 bs)
  then show ?case by (cases bs rule: ikcp_decode32u.cases) (auto simp: Let_def)
qed (simp_all add: ikcp_encode32u_def)

section \<open>Segments on the wire\<close>

definition ikcp_encode_seg :: "bytes \<Rightarrow> ikcpseg \<Rightarrow> bytes" where
  "ikcp_encode_seg ptr seg =
     (let ptr = ikcp_encode32u ptr (seg_conv seg);
          ptr = ikcp_encode8u ptr (ucast (seg_cmd seg));
          ptr = ikcp_encode8u ptr (ucast (seg_frg seg));
          ptr = ikcp_encode16u ptr (ucast (seg_wnd seg));
          ptr = ikcp_encode32u ptr (seg_ts seg);
          ptr = ikcp_encode32u ptr (seg_sn seg);
          ptr = ikcp_encode32u ptr (seg_una seg);
          ptr = ikcp_encode32u ptr (seg_len seg)
      in ptr)"

text \<open>The local variables that one iteration of \<^verbatim>\<open>ikcp_input\<close> fills from the 24 header bytes.\<close>

record ikcphdr =
  hdr_conv :: u32
  hdr_cmd :: u8
  hdr_frg :: u8
  hdr_wnd :: u16
  hdr_ts :: u32
  hdr_sn :: u32
  hdr_una :: u32
  hdr_len :: u32

definition ikcp_decode_hdr :: "bytes \<Rightarrow> (ikcphdr \<times> bytes) option" where
  "ikcp_decode_hdr data = do {
     (conv, data) \<leftarrow> ikcp_decode32u data;
     (cmd, data) \<leftarrow> ikcp_decode8u data;
     (frg, data) \<leftarrow> ikcp_decode8u data;
     (wnd, data) \<leftarrow> ikcp_decode16u data;
     (ts, data) \<leftarrow> ikcp_decode32u data;
     (sn, data) \<leftarrow> ikcp_decode32u data;
     (una, data) \<leftarrow> ikcp_decode32u data;
     (len, data) \<leftarrow> ikcp_decode32u data;
     Some (\<lparr>hdr_conv = conv, hdr_cmd = cmd, hdr_frg = frg, hdr_wnd = wnd, hdr_ts = ts,
            hdr_sn = sn, hdr_una = una, hdr_len = len\<rparr>, data)
   }"

definition ikcp_getconv :: "bytes \<Rightarrow> u32 option" where
  "ikcp_getconv ptr = map_option fst (ikcp_decode32u ptr)"

text \<open>The header a segment has on the wire: three fields are cut to their width.\<close>

definition wire_hdr :: "ikcpseg \<Rightarrow> ikcphdr" where
  "wire_hdr seg = \<lparr>hdr_conv = seg_conv seg, hdr_cmd = ucast (seg_cmd seg),
     hdr_frg = ucast (seg_frg seg), hdr_wnd = ucast (seg_wnd seg), hdr_ts = seg_ts seg,
     hdr_sn = seg_sn seg, hdr_una = seg_una seg, hdr_len = seg_len seg\<rparr>"

lemma encode_seg_append: "ikcp_encode_seg p seg = p @ ikcp_encode_seg [] seg"
  by (simp add: ikcp_encode_seg_def Let_def ikcp_encode32u_def ikcp_encode16u_def ikcp_encode8u_def)

lemma length_encode_seg [simp]: "length (ikcp_encode_seg p seg) = length p + 24"
  by (simp add: ikcp_encode_seg_def Let_def f32.length_enc f16.length_enc f8.length_enc)

lemma encode_seg_fields:
  "ikcp_encode_seg [] seg =
     ikcp_encode32u [] (seg_conv seg) @ ikcp_encode8u [] (ucast (seg_cmd seg)) @
     ikcp_encode8u [] (ucast (seg_frg seg)) @ ikcp_encode16u [] (ucast (seg_wnd seg)) @
     ikcp_encode32u [] (seg_ts seg) @ ikcp_encode32u [] (seg_sn seg) @
     ikcp_encode32u [] (seg_una seg) @ ikcp_encode32u [] (seg_len seg)"
  by (simp add: ikcp_encode_seg_def Let_def ikcp_encode32u_def ikcp_encode16u_def ikcp_encode8u_def)

lemma decode_hdr_encode_seg:
  "ikcp_decode_hdr (ikcp_encode_seg [] seg @ rest) = Some (wire_hdr seg, rest)"
  by (simp add: encode_seg_fields ikcp_decode_hdr_def wire_hdr_def
      f32.dec_enc_nil f16.dec_enc_nil f8.dec_enc_nil)

text \<open>Twenty-four bytes are enough for the decoder: it never reads past them.\<close>

lemma decode_hdr_total:
  assumes "24 \<le> length bs"
  shows "\<exists>h. ikcp_decode_hdr bs = Some (h, drop 24 bs)"
proof -
  obtain b1 where 1: "ikcp_decode32u bs = Some (b1, drop 4 bs)"
    using f32.dec_at [of 0 bs] assms by auto
  obtain b2 where 2: "ikcp_decode8u (drop 4 bs) = Some (b2, drop 5 bs)"
    using f8.dec_at [of 4 bs] assms by auto
  obtain b3 where 3: "ikcp_decode8u (drop 5 bs) = Some (b3, drop 6 bs)"
    using f8.dec_at [of 5 bs] assms by auto
  obtain b4 where 4: "ikcp_decode16u (drop 6 bs) = Some (b4, drop 8 bs)"
    using f16.dec_at [of 6 bs] assms by auto
  obtain b5 where 5: "ikcp_decode32u (drop 8 bs) = Some (b5, drop 12 bs)"
    using f32.dec_at [of 8 bs] assms by auto
  obtain b6 where 6: "ikcp_decode32u (drop 12 bs) = Some (b6, drop 16 bs)"
    using f32.dec_at [of 12 bs] assms by auto
  obtain b7 where 7: "ikcp_decode32u (drop 16 bs) = Some (b7, drop 20 bs)"
    using f32.dec_at [of 16 bs] assms by auto
  obtain b8 where 8: "ikcp_decode32u (drop 20 bs) = Some (b8, drop 24 bs)"
    using f32.dec_at [of 20 bs] assms by auto
  show ?thesis
    by (simp add: ikcp_decode_hdr_def 1 2 3 4 5 6 7 8)
qed

text \<open>
  C29: The header encoding of a segment is read back exactly. Decoding the 24 bytes that
  \<^verbatim>\<open>ikcp_encode_seg\<close> appends, whatever precedes and follows them in the buffer, yields the
  segment's fields (command and fragment number cut to 8 bits, window to 16 bits, as the
  wire format has them) and leaves exactly the bytes that follow.
\<close>

theorem segment_header_roundtrip:
  "ikcp_decode_hdr (drop (length p) (ikcp_encode_seg p seg @ rest)) = Some (wire_hdr seg, rest)"
  by (subst encode_seg_append) (simp add: decode_hdr_encode_seg)

text \<open>
  The two preprocessor branches of the encoders write the same bytes: the shift-and-mask
  code for big-endian or strictly aligned targets and the \<^verbatim>\<open>memcpy\<close> of the little-endian
  representation agree on every 16-bit and 32-bit value.
\<close>

theorem encoder_branches_agree:
  "ikcp_encode16u_memcpy p w = ikcp_encode16u p w \<and> ikcp_encode32u_memcpy p l = ikcp_encode32u p l"
proof -
  have two: "[0..<2] = [0, 1]" and four: "[0..<4] = [0, 1, 2, 3]"
    by (simp_all add: upt_rec)
  show ?thesis
    using unat_u16_less [of w]
    by (simp add: ikcp_encode16u_memcpy_def ikcp_encode32u_memcpy_def ikcp_encode16u_def
        ikcp_encode32u_def le_bytes_def two four word_to_nat unat_of_nat)
qed

text \<open>
  \<^verbatim>\<open>ikcp_getconv\<close> reads the conversation number that \<^verbatim>\<open>ikcp_encode_seg\<close> wrote at the start
  of a packet, without parsing the rest.
\<close>

theorem getconv_of_packet: "ikcp_getconv (ikcp_encode_seg [] seg @ rest) = Some (seg_conv seg)"
  by (simp add: ikcp_getconv_def encode_seg_fields f32.dec_enc_nil)

end
