(* ===== verification/Kcp_State.thy ===== *)
theory Kcp_State
  imports Kcp_Wire
begin

text \<open>
  The control block \<^verbatim>\<open>IKCPCB\<close> of \<^verbatim>\<open>ikcp.h\<close>, its creation and release, the configuration calls
  at the end of \<^verbatim>\<open>ikcp.cc\<close>, and the well-formedness invariant \<open>kcp_wf\<close> that the components of
  the protocol keep. The four intrusive queues are lists of segments here (the pointer macros
  are modelled in \<^verbatim>\<open>Kcp_Queue\<close>); the \<^verbatim>\<open>acklist\<close> array is a list of cells, \<^const>\<open>None\<close> for a cell
  of fresh memory that was not written yet. \<^verbatim>\<open>buffer\<close> is its capacity in bytes, the callback
  pointers are whether they are set.
\<close>

section \<open>Constants\<close>

definition IKCP_RTO_NDL :: int where [kcp_defs]: "IKCP_RTO_NDL = 30"
definition IKCP_RTO_MIN :: int where [kcp_defs]: "IKCP_RTO_MIN = 100"
definition IKCP_RTO_DEF :: int where [kcp_defs]: "IKCP_RTO_DEF = 200"
definition IKCP_RTO_MAX :: u32 where [kcp_defs]: "IKCP_RTO_MAX = 60000"
definition IKCP_ASK_SEND :: u32 where [kcp_defs]: "IKCP_ASK_SEND = 1"
definition IKCP_ASK_TELL :: u32 where [kcp_defs]: "IKCP_ASK_TELL = 2"
definition IKCP_WND_SND :: u32 where [kcp_defs]: "IKCP_WND_SND = 32"
definition IKCP_WND_RCV :: u32 where [kcp_defs]: "IKCP_WND_RCV = 128"
definition IKCP_MTU_DEF :: u32 where [kcp_defs]: "IKCP_MTU_DEF = 1400"
definition IKCP_INTERVAL :: u32 where [kcp_defs]: "IKCP_INTERVAL = 100"
definition IKCP_DEADLINK :: u32 where [kcp_defs]: "IKCP_DEADLINK = 20"
definition IKCP_THRESH_INIT :: u32 where [kcp_defs]: "IKCP_THRESH_INIT = 2"
definition IKCP_THRESH_MIN :: u32 where [kcp_defs]: "IKCP_THRESH_MIN = 2"
definition IKCP_PROBE_INIT :: u32 where [kcp_defs]: "IKCP_PROBE_INIT = 7000"
definition IKCP_PROBE_LIMIT :: u32 where [kcp_defs]: "IKCP_PROBE_LIMIT = 120000"
definition IKCP_FASTACK_LIMIT :: int where [kcp_defs]: "IKCP_FASTACK_LIMIT = 5"

section \<open>The control block\<close>

record kcpcb =
  conv :: u32
  mtu :: u32
  mss :: u32
  state :: u32
  snd_una :: u32
  snd_nxt :: u32
  rcv_nxt :: u32
  ts_recent :: u32
  ts_lastack :: u32
  ssthresh :: u32
  rx_rttval :: int
  rx_srtt :: int
  rx_rto :: int
  rx_minrto :: int
  snd_wnd :: u32
  rcv_wnd :: u32
  rmt_wnd :: u32
  cwnd :: u32
  probe :: u32
  current :: u32
  interval :: u32
  ts_flush :: u32
  xmit :: u32
  nrcv_buf :: u32
  nsnd_buf :: u32
  nrcv_que :: u32
  nsnd_que :: u32
  nodelay :: u32
  updated :: u32
  ts_probe :: u32
  probe_wait :: u32
  dead_link :: u32
  incr :: u32
  snd_queue :: "ikcpseg list"
  rcv_queue :: "ikcpseg list"
  snd_buf :: "ikcpseg list"
  rcv_buf :: "ikcpseg list"
  acklist :: "u32 option list"
  ackcount :: u32
  ackblock :: u32
  buffer :: u32
  fastresend :: int
  fastlimit :: int
  nocwnd :: int
  stream :: int
  logmask :: int
  output_set :: bool
  writelog_set :: bool

text \<open>The two calls of \<^verbatim>\<open>ikcp_malloc\<close> succeed or not; \<^const>\<open>None\<close> is the \<^verbatim>\<open>NULL\<close> result.\<close>

definition ikcp_create :: "bool \<Rightarrow> bool \<Rightarrow> u32 \<Rightarrow> kcpcb option" where
  "ikcp_create malloc_kcp malloc_buffer conv_id =
     (if \<not> malloc_kcp then None
      else let mtu_v = IKCP_MTU_DEF; mss_v = mtu_v - IKCP_OVERHEAD in
        if \<not> malloc_buffer then None
        else Some
         \<lparr>conv = conv_id, mtu = mtu_v, mss = mss_v, state = 0,
          snd_una = 0, snd_nxt = 0, rcv_nxt = 0,
          ts_recent = 0, ts_lastack = 0, ssthresh = IKCP_THRESH_INIT,
          rx_rttval = 0, rx_srtt = 0, rx_rto = IKCP_RTO_DEF, rx_minrto = IKCP_RTO_MIN,
          snd_wnd = IKCP_WND_SND, rcv_wnd = IKCP_WND_RCV, rmt_wnd = IKCP_WND_RCV,
          cwnd = 0, probe = 0,
          current = 0, interval = IKCP_INTERVAL, ts_flush = IKCP_INTERVAL, xmit = 0,
          nrcv_buf = 0, nsnd_buf = 0, nrcv_que = 0, nsnd_que = 0,
          nodelay = 0, updated = 0, ts_probe = 0, probe_wait = 0,
          dead_link = IKCP_DEADLINK, incr = 0,
          snd_queue = [], rcv_queue = [], snd_buf = [], rcv_buf = [],
          acklist = [], ackcount = 0, ackblock = 0,
          buffer = (mtu_v + IKCP_OVERHEAD) * 3,
          fastresend = 0, fastlimit = IKCP_FASTACK_LIMIT, nocwnd = 0, stream = 0,
          logmask = 0, output_set = False, writelog_set = False\<rparr>)"

text \<open>
  \<^verbatim>\<open>ikcp_release\<close> empties the four queues in turn, freeing every segment, and drops the two
  arrays. The result is the list of the freed segments, in the order they are freed, and the
  final contents of the block before it is freed itself.
\<close>

fun release_queue :: "ikcpseg list \<Rightarrow> ikcpseg list \<Rightarrow> ikcpseg list" where
  "release_queue freed [] = freed"
| "release_queue freed (seg # q) = release_queue (freed @ [seg]) q"

definition ikcp_release :: "kcpcb \<Rightarrow> ikcpseg list \<times> kcpcb" where
  "ikcp_release k =
     (let freed = release_queue [] (snd_buf k);
          freed = release_queue freed (rcv_buf k);
          freed = release_queue freed (snd_queue k);
          freed = release_queue freed (rcv_queue k)
      in (freed, k\<lparr>snd_buf := [], rcv_buf := [], snd_queue := [], rcv_queue := [],
            nrcv_buf := 0, nsnd_buf := 0, nrcv_que := 0, nsnd_que := 0,
            ackcount := 0, buffer := 0, acklist := []\<rparr>))"

section \<open>Configuration\<close>

definition ikcp_setoutput :: "kcpcb \<Rightarrow> bool \<Rightarrow> kcpcb" where
  "ikcp_setoutput k cb = k\<lparr>output_set := cb\<rparr>"

definition ikcp_setmtu :: "bool \<Rightarrow> kcpcb \<Rightarrow> int \<Rightarrow> int \<times> kcpcb" where
  "ikcp_setmtu malloc_buffer k m =
     (if m < 50 \<or> m < sint IKCP_OVERHEAD then (-1, k)
      else if \<not> malloc_buffer then (-2, k)
      else let k = k\<lparr>mtu := to_u32 m\<rparr>;
               k = k\<lparr>mss := mtu k - IKCP_OVERHEAD\<rparr>
           in (0, k\<lparr>buffer := (to_u32 m + IKCP_OVERHEAD) * 3\<rparr>))"

definition ikcp_interval :: "kcpcb \<Rightarrow> int \<Rightarrow> int \<times> kcpcb" where
  "ikcp_interval k iv =
     (let iv = (if iv > 5000 then 5000 else if iv < 10 then 10 else iv)
      in (0, k\<lparr>interval := to_u32 iv\<rparr>))"

definition ikcp_nodelay :: "kcpcb \<Rightarrow> int \<Rightarrow> int \<Rightarrow> int \<Rightarrow> int \<Rightarrow> int \<times> kcpcb" where
  "ikcp_nodelay k nd iv resend nc =
     (let k = (if nd \<ge> 0
               then let k = k\<lparr>nodelay := to_u32 nd\<rparr>
                    in if nd \<noteq> 0 then k\<lparr>rx_minrto := IKCP_RTO_NDL\<rparr>
                       else k\<lparr>rx_minrto := IKCP_RTO_MIN\<rparr>
               else k);
          k = (if iv \<ge> 0
               then let iv = (if iv > 5000 then 5000 else if iv < 10 then 10 else iv)
                    in k\<lparr>interval := to_u32 iv\<rparr>
               else k);
          k = (if resend \<ge> 0 then k\<lparr>fastresend := resend\<rparr> else k);
          k = (if nc \<ge> 0 then k\<lparr>nocwnd := nc\<rparr> else k)
      in (0, k))"

definition ikcp_wndsize :: "kcpcb \<Rightarrow> int \<Rightarrow> int \<Rightarrow> int \<times> kcpcb" where
  "ikcp_wndsize k sndwnd rcvwnd =
     (let k = (if sndwnd > 0 then k\<lparr>snd_wnd := to_u32 sndwnd\<rparr> else k);
          k = (if rcvwnd > 0 then k\<lparr>rcv_wnd := imax (to_u32 rcvwnd) IKCP_WND_RCV\<rparr> else k)
      in (0, k))"

definition ikcp_waitsnd :: "kcpcb \<Rightarrow> int" where
  "ikcp_waitsnd k = sint (nsnd_buf k + nsnd_que k)"

definition ikcp_canlog :: "kcpcb \<Rightarrow> int \<Rightarrow> bool" where
  "ikcp_canlog k msk = (\<not> (and msk (logmask k) = 0 \<or> \<not> writelog_set k))"

definition ikcp_wnd_unused :: "kcpcb \<Rightarrow> int" where
  "ikcp_wnd_unused k =
     (if nrcv_que k < rcv_wnd k then sint (rcv_wnd k - nrcv_que k) else 0)"

section \<open>Well-formed control blocks\<close>

text \<open>
  A buffer is sorted in a window when its sequence numbers strictly increase in distance from
  the base and stay less than half the number space away from it: then \<open>itimediff\<close> orders them.
\<close>

definition window_sorted :: "u32 \<Rightarrow> ikcpseg list \<Rightarrow> bool" where
  "window_sorted r segs \<longleftrightarrow>
     sorted_wrt (<) (map (\<lambda>s. seqoff r (seg_sn s)) segs) \<and>
     (\<forall>s \<in> set segs. seqoff r (seg_sn s) < 2147483648)"

definition seg_ok :: "ikcpseg \<Rightarrow> bool" where
  "seg_ok s \<longleftrightarrow> unat (seg_len s) = length (seg_data s)"

text \<open>The sending side: what is in flight lies between \<open>snd_una\<close> and \<open>snd_nxt\<close>.\<close>

definition snd_core :: "kcpcb \<Rightarrow> bool" where
  "snd_core k \<longleftrightarrow>
     window_sorted (snd_una k) (snd_buf k) \<and>
     (\<forall>s \<in> set (snd_buf k). seqoff (snd_una k) (seg_sn s) < seqoff (snd_una k) (snd_nxt k)) \<and>
     seqoff (snd_una k) (snd_nxt k) \<le> 65535 \<and>
     nsnd_buf k = of_nat (length (snd_buf k)) \<and>
     nsnd_que k = of_nat (length (snd_queue k)) \<and>
     unat (rmt_wnd k) \<le> 65535"

definition first_sn :: "u32 \<Rightarrow> ikcpseg list \<Rightarrow> u32" where
  "first_sn nxt buf = (if buf = [] then nxt else seg_sn (hd buf))"

definition una_ok :: "u32 \<Rightarrow> u32 \<Rightarrow> ikcpseg list \<Rightarrow> bool" where
  "una_ok una nxt buf \<longleftrightarrow> una = first_sn nxt buf"

definition una_exact :: "kcpcb \<Rightarrow> bool" where
  "una_exact k \<longleftrightarrow> una_ok (snd_una k) (snd_nxt k) (snd_buf k)"

text \<open>The receiving side: the reordering buffer lies at or above \<open>rcv_nxt\<close>.\<close>

definition rcv_core :: "kcpcb \<Rightarrow> bool" where
  "rcv_core k \<longleftrightarrow>
     window_sorted (rcv_nxt k) (rcv_buf k) \<and>
     unat (nrcv_que k) = length (rcv_queue k) \<and>
     length (rcv_queue k) < 2147483648 \<and>
     nrcv_buf k = of_nat (length (rcv_buf k)) \<and>
     0 < unat (rcv_wnd k) \<and> unat (rcv_wnd k) < 2147483648"

definition ack_wf :: "kcpcb \<Rightarrow> bool" where
  "ack_wf k \<longleftrightarrow>
     length (acklist k) = 2 * unat (ackblock k) \<and>
     ackcount k \<le> ackblock k \<and> unat (ackblock k) \<le> 2147483648 \<and>
     (\<forall>i < 2 * unat (ackcount k). acklist k ! i \<noteq> None)"

definition cfg_wf :: "kcpcb \<Rightarrow> bool" where
  "cfg_wf k \<longleftrightarrow>
     50 \<le> unat (mtu k) \<and> unat (mtu k) < 2147483648 \<and> mss k = mtu k - 24 \<and>
     buffer k = (mtu k + 24) * 3 \<and>
     10 \<le> unat (interval k) \<and> unat (interval k) \<le> 5000 \<and>
     rx_minrto k \<in> {30, 100} \<and> 30 \<le> rx_rto k \<and> rx_rto k \<le> 60000 \<and>
     0 < unat (snd_wnd k) \<and> unat (snd_wnd k) < 2147483648"

definition segs_wf :: "kcpcb \<Rightarrow> bool" where
  "segs_wf k \<longleftrightarrow>
     (\<forall>s \<in> set (snd_queue k) \<union> set (snd_buf k) \<union> set (rcv_queue k) \<union> set (rcv_buf k). seg_ok s)"

definition kcp_wf :: "kcpcb \<Rightarrow> bool" where
  "kcp_wf k \<longleftrightarrow> snd_core k \<and> una_exact k \<and> rcv_core k \<and> ack_wf k \<and> cfg_wf k \<and> segs_wf k"

lemmas kcp_wf_defs = kcp_wf_def snd_core_def una_exact_def rcv_core_def ack_wf_def cfg_wf_def
  segs_wf_def

lemma kcp_wfI [intro]:
  "snd_core k \<Longrightarrow> una_exact k \<Longrightarrow> rcv_core k \<Longrightarrow> ack_wf k \<Longrightarrow> cfg_wf k \<Longrightarrow> segs_wf k \<Longrightarrow> kcp_wf k"
  by (simp add: kcp_wf_def)

lemma kcp_wfD:
  assumes "kcp_wf k"
  shows "snd_core k" and "una_exact k" and "rcv_core k" and "ack_wf k" and "cfg_wf k" and "segs_wf k"
  using assms by (simp_all add: kcp_wf_def)

section \<open>Sorted windows\<close>

lemma window_sorted_Nil [simp]: "window_sorted r []"
  by (simp add: window_sorted_def)

lemma window_sorted_Cons:
  "window_sorted r (s # segs) \<longleftrightarrow>
     seqoff r (seg_sn s) < 2147483648 \<and>
     (\<forall>t \<in> set segs. seqoff r (seg_sn s) < seqoff r (seg_sn t)) \<and> window_sorted r segs"
  by (auto simp: window_sorted_def)

lemma window_sorted_append:
  "window_sorted r (xs @ ys) \<longleftrightarrow>
     window_sorted r xs \<and> window_sorted r ys \<and>
     (\<forall>x \<in> set xs. \<forall>y \<in> set ys. seqoff r (seg_sn x) < seqoff r (seg_sn y))"
  by (auto simp: window_sorted_def sorted_wrt_append)

text \<open>Only the sequence numbers count.\<close>

lemma window_sorted_map:
  assumes "\<And>s. seg_sn (f s) = seg_sn s"
  shows "window_sorted r (map f segs) = window_sorted r segs"
  by (simp add: window_sorted_def assms comp_def)

lemma window_sorted_sns:
  "window_sorted r zs \<longleftrightarrow>
     sorted_wrt (<) (map (seqoff r) (map seg_sn zs)) \<and>
     (\<forall>n \<in> set (map seg_sn zs). seqoff r n < 2147483648)"
  by (simp add: window_sorted_def comp_def)

lemma window_sorted_same_sn:
  "map seg_sn xs = map seg_sn ys \<Longrightarrow> window_sorted r xs = window_sorted r ys"
  by (simp only: window_sorted_sns)

text \<open>Advancing the base past a prefix keeps the rest sorted.\<close>

lemma window_sorted_advance:
  assumes "window_sorted r segs" and "\<forall>s \<in> set segs. seqoff r b \<le> seqoff r (seg_sn s)"
  shows "window_sorted b segs"
  using assms
proof (induction segs)
  case Nil
  then show ?case by simp
next
  case (Cons s segs)
  have "seqoff b (seg_sn t) = seqoff r (seg_sn t) - seqoff r b" if "t \<in> set (s # segs)" for t
    using seqoff_shift_base [of r b "seg_sn t"] Cons.prems(2) that by auto
  moreover have "seqoff r b \<le> seqoff r (seg_sn s)" using Cons.prems(2) by simp
  ultimately show ?case
    using Cons by (auto simp: window_sorted_Cons intro: diff_less_mono)
qed

lemma window_sorted_distinct: "window_sorted r segs \<Longrightarrow> distinct (map seg_sn segs)"
  by (induction segs) (auto simp: window_sorted_Cons)

text \<open>Within a sorted window the comparison of the code is the order of the buffer.\<close>

lemma itimediff_in_window:
  "window_sorted r segs \<Longrightarrow> s \<in> set segs \<Longrightarrow> seqoff r a < 2147483648 \<Longrightarrow>
     itimediff a (seg_sn s) = int (seqoff r a) - int (seqoff r (seg_sn s))"
  by (rule itimediff_window) (auto simp: window_sorted_def)

section \<open>The initial state and the configuration calls\<close>

lemma create_fields:
  assumes "ikcp_create a b c = Some k"
  shows "snd_queue k = []" "rcv_queue k = []" "snd_buf k = []" "rcv_buf k = []" "acklist k = []"
    "conv k = c" "snd_nxt k = 0" "rcv_nxt k = 0" "mss k = 1376" "stream k = 0"
  using assms by (auto simp: ikcp_create_def Let_def kcp_defs split: if_splits)

lemma create_wf: "ikcp_create a b c = Some k \<Longrightarrow> kcp_wf k"
  by (auto simp: ikcp_create_def Let_def kcp_defs kcp_wf_defs una_ok_def first_sn_def split: if_splits)

text \<open>A concrete control block and segment for the examples that instantiate the properties.\<close>

definition kcp0 :: kcpcb where
  "kcp0 = the (ikcp_create True True 7)"

definition seg0 :: ikcpseg where
  "seg0 = \<lparr>seg_conv = 0, seg_cmd = 0, seg_frg = 0, seg_wnd = 0, seg_ts = 0, seg_sn = 0,
     seg_una = 0, seg_len = 0, seg_resendts = 0, seg_rto = 0, seg_fastack = 0, seg_xmit = 0,
     seg_data = []\<rparr>"

lemma kcp0_create: "ikcp_create True True 7 = Some kcp0"
  by (simp add: kcp0_def ikcp_create_def Let_def)

lemma kcp0_wf [simp]: "kcp_wf kcp0"
  by (rule create_wf [OF kcp0_create])

lemmas kcp0_fields [simp] = create_fields [OF kcp0_create]

lemma kcp0_values [simp]:
  "conv kcp0 = 7" "mtu kcp0 = 1400" "state kcp0 = 0" "snd_una kcp0 = 0"
  "ts_recent kcp0 = 0" "ts_lastack kcp0 = 0" "ssthresh kcp0 = 2" "rx_rttval kcp0 = 0"
  "rx_srtt kcp0 = 0" "rx_rto kcp0 = 200" "rx_minrto kcp0 = 100" "snd_wnd kcp0 = 32"
  "rcv_wnd kcp0 = 128" "rmt_wnd kcp0 = 128" "cwnd kcp0 = 0" "probe kcp0 = 0" "current kcp0 = 0"
  "interval kcp0 = 100" "ts_flush kcp0 = 100" "xmit kcp0 = 0" "nrcv_buf kcp0 = 0"
  "nsnd_buf kcp0 = 0" "nrcv_que kcp0 = 0" "nsnd_que kcp0 = 0" "nodelay kcp0 = 0"
  "updated kcp0 = 0" "ts_probe kcp0 = 0" "probe_wait kcp0 = 0" "dead_link kcp0 = 20"
  "incr kcp0 = 0" "ackcount kcp0 = 0" "ackblock kcp0 = 0" "buffer kcp0 = 4272"
  "fastresend kcp0 = 0" "fastlimit kcp0 = 5" "nocwnd kcp0 = 0" "logmask kcp0 = 0"
  "\<not> output_set kcp0" "\<not> writelog_set kcp0"
  by (simp_all add: kcp0_def ikcp_create_def kcp_defs)

lemmas kcp0_eval = kcp0_def ikcp_create_def kcp_defs

lemma wndsize_wf:
  assumes "kcp_wf k" and "sndwnd < 2147483648" and "rcvwnd < 2147483648"
  shows "kcp_wf (snd (ikcp_wndsize k sndwnd rcvwnd))"
proof -
  have "unat (imax (to_u32 rcvwnd) 128) < 2147483648" "0 < unat (imax (to_u32 rcvwnd) 128)" if "0 < rcvwnd"
    using that assms(3) by (auto simp: imax_def unat_to_u32 word_le_nat_alt)
  then show ?thesis
    using assms by (auto simp: ikcp_wndsize_def Let_def kcp_defs kcp_wf_defs unat_to_u32)
qed

lemma interval_bounds:
  assumes "w = to_u32 (if iv > 5000 then 5000 else if iv < 10 then 10 else iv)"
  shows "10 \<le> unat w" "unat w \<le> 5000"
  using assms by (auto simp: unat_to_u32)

text \<open>Fields the invariant does not mention.\<close>

lemma kcp_wf_frame [simp]:
  "kcp_wf (k\<lparr>nodelay := x0\<rparr>) = kcp_wf k"
  "kcp_wf (k\<lparr>fastresend := x1\<rparr>) = kcp_wf k"
  "kcp_wf (k\<lparr>nocwnd := x2\<rparr>) = kcp_wf k"
  "kcp_wf (k\<lparr>output_set := x3\<rparr>) = kcp_wf k"
  "kcp_wf (k\<lparr>updated := x4\<rparr>) = kcp_wf k"
  "kcp_wf (k\<lparr>current := x5\<rparr>) = kcp_wf k"
  "kcp_wf (k\<lparr>probe := x6\<rparr>) = kcp_wf k"
  "kcp_wf (k\<lparr>ts_flush := x7\<rparr>) = kcp_wf k"
  "kcp_wf (k\<lparr>ts_probe := x8\<rparr>) = kcp_wf k"
  "kcp_wf (k\<lparr>probe_wait := x9\<rparr>) = kcp_wf k"
  "kcp_wf (k\<lparr>state := x10\<rparr>) = kcp_wf k"
  "kcp_wf (k\<lparr>xmit := x11\<rparr>) = kcp_wf k"
  "kcp_wf (k\<lparr>cwnd := x12\<rparr>) = kcp_wf k"
  "kcp_wf (k\<lparr>incr := x13\<rparr>) = kcp_wf k"
  "kcp_wf (k\<lparr>ssthresh := x14\<rparr>) = kcp_wf k"
  "kcp_wf (k\<lparr>rx_srtt := x15\<rparr>) = kcp_wf k"
  "kcp_wf (k\<lparr>rx_rttval := x16\<rparr>) = kcp_wf k"
  "kcp_wf (k\<lparr>stream := x17\<rparr>) = kcp_wf k"
  "kcp_wf (k\<lparr>fastlimit := x18\<rparr>) = kcp_wf k"
  "kcp_wf (k\<lparr>dead_link := x19\<rparr>) = kcp_wf k"
  by (simp_all add: kcp_wf_defs)

lemma kcp_wf_interval:
  "kcp_wf k \<Longrightarrow> 10 \<le> unat w \<Longrightarrow> unat w \<le> 5000 \<Longrightarrow> kcp_wf (k\<lparr>interval := w\<rparr>)"
  by (simp add: kcp_wf_defs)

lemma kcp_wf_minrto: "kcp_wf k \<Longrightarrow> m \<in> {30, 100} \<Longrightarrow> kcp_wf (k\<lparr>rx_minrto := m\<rparr>)"
  by (simp add: kcp_wf_defs)

lemma interval_wf: "kcp_wf k \<Longrightarrow> kcp_wf (snd (ikcp_interval k iv))"
  using interval_bounds [OF refl, of iv] by (simp add: ikcp_interval_def Let_def kcp_wf_interval)

lemma nodelay_wf: "kcp_wf k \<Longrightarrow> kcp_wf (snd (ikcp_nodelay k nd iv resend nc))"
  using interval_bounds [OF refl, of iv]
  by (simp add: ikcp_nodelay_def Let_def kcp_defs kcp_wf_interval kcp_wf_minrto)

lemma setoutput_wf: "kcp_wf k \<Longrightarrow> kcp_wf (ikcp_setoutput k cb)"
  by (simp add: ikcp_setoutput_def)

lemma setmtu_wf:
  assumes "kcp_wf k" and "m < 2147483648"
  shows "kcp_wf (snd (ikcp_setmtu ok k m))"
  using assms by (auto simp: ikcp_setmtu_def Let_def kcp_defs kcp_wf_defs unat_to_u32 algebra_simps)

lemma release_queue_append: "release_queue freed q = freed @ q"
  by (induction q arbitrary: freed) auto

text \<open>
  \<^verbatim>\<open>ikcp_release\<close> frees every segment the control block owns exactly once: the freed list is
  the four queues one after the other, and the block it leaves owns nothing.
\<close>

theorem release_frees_all:
  "fst (ikcp_release k) = snd_buf k @ rcv_buf k @ snd_queue k @ rcv_queue k \<and>
   snd_buf (snd (ikcp_release k)) = [] \<and> rcv_buf (snd (ikcp_release k)) = [] \<and>
   snd_queue (snd (ikcp_release k)) = [] \<and> rcv_queue (snd (ikcp_release k)) = [] \<and>
   acklist (snd (ikcp_release k)) = [] \<and> ikcp_waitsnd (snd (ikcp_release k)) = 0"
  by (simp add: ikcp_release_def Let_def release_queue_append ikcp_waitsnd_def)

end
