(* ===== verification/Kcp_Send.thy ===== *)
theory Kcp_Send
  imports Kcp_State
begin

text \<open>
  \<^verbatim>\<open>ikcp_send\<close>: the upper level hands over a message (or, in stream mode, some bytes), which is
  cut into segments of at most \<^verbatim>\<open>mss\<close> bytes on the send queue. \<open>junk i\<close> stands for the old
  contents of the \<open>i\<close>-th block that the call allocates: the fields the code does not write keep
  it, and so do the data bytes when the buffer is \<^verbatim>\<open>NULL\<close>. A failing assertion is the result
  \<^const>\<open>None\<close>; allocation is assumed to succeed (the build keeps \<^verbatim>\<open>assert(seg)\<close>, which aborts).
\<close>

section \<open>The model\<close>

definition ikcp_segment_new :: "ikcpseg \<Rightarrow> nat \<Rightarrow> ikcpseg" where
  "ikcp_segment_new old sz = old\<lparr>seg_data := take sz (seg_data old @ replicate sz 0)\<rparr>"

text \<open>The segment that replaces \<open>old\<close> when \<open>ext\<close> more bytes are appended to it.\<close>

definition ikcp_append_seg :: "ikcpseg \<Rightarrow> ikcpseg \<Rightarrow> bytes option \<Rightarrow> int \<Rightarrow> ikcpseg" where
  "ikcp_append_seg junk old buf ext =
     (let seg = ikcp_segment_new junk (nat (sint (seg_len old + to_u32 ext)));
          dat = memcpy_at (seg_data seg) 0 (seg_data old) (unat (seg_len old));
          dat = (case buf of None \<Rightarrow> dat
                 | Some b \<Rightarrow> memcpy_at dat (unat (seg_len old)) b (nat ext))
      in seg\<lparr>seg_data := dat, seg_len := seg_len old + to_u32 ext, seg_frg := 0\<rparr>)"

text \<open>
  Streaming mode: fill up the last segment of the queue. The result is the new state with the
  advanced buffer pointer, the remaining length and the number of bytes taken.
\<close>

definition ikcp_send_append ::
  "ikcpseg \<Rightarrow> kcpcb \<Rightarrow> bytes option \<Rightarrow> int \<Rightarrow> kcpcb \<times> bytes option \<times> int \<times> int" where
  "ikcp_send_append junk k buf len =
     (if snd_queue k = [] then (k, buf, len, 0)
      else let old = last (snd_queue k) in
        if seg_len old < mss k then
          let capacity = sint (mss k - seg_len old);
              ext = (if len < capacity then len else capacity)
          in (k\<lparr>snd_queue := butlast (snd_queue k) @ [ikcp_append_seg junk old buf ext]\<rparr>,
              map_option (drop (nat ext)) buf, len - ext, ext)
        else (k, buf, len, 0))"

text \<open>The \<open>i\<close>-th of \<open>count\<close> fragments, holding the next \<open>sz\<close> bytes of the \<open>len\<close> that are left.\<close>

definition ikcp_frag_seg ::
  "ikcpseg \<Rightarrow> kcpcb \<Rightarrow> int \<Rightarrow> int \<Rightarrow> bytes option \<Rightarrow> int \<Rightarrow> int \<Rightarrow> ikcpseg" where
  "ikcp_frag_seg junk k count i buf len sz =
     (let seg = ikcp_segment_new junk (nat sz);
          seg = (case buf of None \<Rightarrow> seg
                 | Some b \<Rightarrow> if len > 0
                     then seg\<lparr>seg_data := memcpy_at (seg_data seg) 0 b (nat sz)\<rparr> else seg)
      in seg\<lparr>seg_len := to_u32 sz,
             seg_frg := (if stream k = 0 then to_u32 (count - i - 1) else 0)\<rparr>)"

fun ikcp_send_frags ::
  "(nat \<Rightarrow> ikcpseg) \<Rightarrow> int \<Rightarrow> nat \<Rightarrow> kcpcb \<Rightarrow> bytes option \<Rightarrow> int \<Rightarrow> int \<Rightarrow> int \<times> kcpcb" where
  "ikcp_send_frags junk count 0 k buf len sent = (sent, k)"
| "ikcp_send_frags junk count (Suc n) k buf len sent =
     (let i = count - int (Suc n);
          sz = (if len > sint (mss k) then sint (mss k) else len);
          seg = ikcp_frag_seg (junk (nat i)) k count i buf len sz
      in ikcp_send_frags junk count n
           (k\<lparr>snd_queue := snd_queue k @ [seg], nsnd_que := nsnd_que k + 1\<rparr>)
           (map_option (drop (nat sz)) buf) (len - sz) (sent + sz))"

definition ikcp_send_count :: "kcpcb \<Rightarrow> int \<Rightarrow> int" where
  "ikcp_send_count k len =
     (if len \<le> sint (mss k) then 1 else sint ((to_u32 len + mss k - 1) div mss k))"

definition ikcp_send ::
  "(nat \<Rightarrow> ikcpseg) \<Rightarrow> kcpcb \<Rightarrow> bytes option \<Rightarrow> int \<Rightarrow> (int \<times> kcpcb) option" where
  "ikcp_send junk k buf len =
     (if \<not> (mss k > 0) then None
      else if len < 0 then Some (-1, k)
      else
        let (k, buf, len, sent) =
              (if stream k \<noteq> 0 then ikcp_send_append (junk 0) k buf len else (k, buf, len, 0))
        in if stream k \<noteq> 0 \<and> len \<le> 0 then Some (sent, k)
           else
             let count = ikcp_send_count k len in
             if count \<ge> sint IKCP_WND_RCV then
               (if stream k \<noteq> 0 \<and> sent > 0 then Some (sent, k) else Some (-2, k))
             else
               let count = (if count = 0 then 1 else count)
               in Some (ikcp_send_frags (\<lambda>i. junk (Suc i)) count (nat count) k buf len sent))"

section \<open>Fragmentation\<close>

text \<open>The reference: cut a byte string into \<open>n\<close> pieces of at most \<open>m\<close> bytes.\<close>

fun chunks :: "nat \<Rightarrow> nat \<Rightarrow> bytes \<Rightarrow> bytes list" where
  "chunks m 0 b = []"
| "chunks m (Suc n) b = take m b # chunks m n (drop m b)"

lemma concat_chunks: "concat (chunks m n b) = take (n * m) b"
  by (induction n arbitrary: b) (auto simp: take_add)

lemma length_chunks [simp]: "length (chunks m n b) = n"
  by (induction n arbitrary: b) auto

lemma chunk_length: "c \<in> set (chunks m n b) \<Longrightarrow> length c \<le> m"
  by (induction n arbitrary: b) auto

lemma length_segment_new [simp]: "length (seg_data (ikcp_segment_new m n)) = n"
  by (simp add: ikcp_segment_new_def)

lemma send_frags_spec:
  assumes m: "unat (mss k) < 2147483648" 
    and b: "length b < 2147483648"
  shows "\<exists>segs. ikcp_send_frags junk count n k (Some b) (int (length b)) sent =
       (sent + int (min (n * unat (mss k)) (length b)),
        k\<lparr>snd_queue := snd_queue k @ segs, nsnd_que := nsnd_que k + of_nat n\<rparr>) \<and>
     map seg_data segs = chunks (unat (mss k)) n b \<and>
     map seg_frg segs = (if stream k = 0 then rev (map of_nat [0..<n]) else replicate n 0) \<and>
     (\<forall>s \<in> set segs. seg_ok s)"
  using assms
proof (induction n arbitrary: k b sent)
  case 0
  then show ?case by simp
next
  case (Suc n)
  let ?m = "unat (mss k)" and ?b = "drop (unat (mss k)) b"
  define sz where "sz = (if int (length b) > sint (mss k) then sint (mss k) else int (length b))"
  have sz: "sz = int (min ?m (length b))" using Suc.prems by (simp add: sz_def sint_small)
  define seg where
    "seg = ikcp_frag_seg (junk (nat (count - int (Suc n)))) k count (count - int (Suc n)) (Some b)
       (int (length b)) sz"
  note seg_defs = seg_def ikcp_frag_seg_def Let_def
  have dat: "seg_data seg = take ?m b"
    by (auto simp: seg_defs sz min_def ikcp_segment_new_def)
  have ok: "seg_ok seg"
    using Suc.prems by (simp add: seg_ok_def dat) (simp add: seg_defs sz unat_of_nat_u32)
  have frg: "seg_frg seg = (if stream k = 0 then of_nat n else 0)"
    by (simp add: seg_defs)
  let ?k = "k\<lparr>snd_queue := snd_queue k @ [seg], nsnd_que := nsnd_que k + 1\<rparr>"
  have pre: "unat (mss ?k) < 2147483648" "length ?b < 2147483648"
    using Suc.prems by simp_all
  obtain segs where IH: "ikcp_send_frags junk count n ?k (Some ?b) (int (length ?b)) (sent + sz) =
       (sent + sz + int (min (n * ?m) (length ?b)),
        ?k\<lparr>snd_queue := snd_queue ?k @ segs, nsnd_que := nsnd_que ?k + of_nat n\<rparr>)"
     and segs: "map seg_data segs = chunks ?m n ?b"
       "map seg_frg segs = (if stream k = 0 then rev (map of_nat [0..<n]) else replicate n 0)"
       "\<forall>s \<in> set segs. seg_ok s"
    using Suc.IH [of ?k ?b "sent + sz", OF pre] by auto
  have len: "int (length b) - sz = int (length ?b)" and drp: "drop (nat sz) b = ?b"
    using sz by (auto simp: min_def)
  have tot: "sz + int (min (n * ?m) (length ?b)) = int (min (Suc n * ?m) (length b))"
    unfolding sz by (auto simp: min_def)
  have "ikcp_send_frags junk count (Suc n) k (Some b) (int (length b)) sent =
     ikcp_send_frags junk count n ?k (Some ?b) (int (length ?b)) (sent + sz)"
    by (simp add: Let_def sz_def [symmetric] len drp seg_def)
  then show ?case
    using IH tot segs dat frg ok
    by (intro exI [of _ "seg # segs"]) (simp add: add.assoc)
qed
definition frag_count :: "nat \<Rightarrow> nat \<Rightarrow> nat" where
  "frag_count m n = (if n \<le> m then 1 else (n + m - 1) div m)"

lemma frag_count_covers: "0 < m \<Longrightarrow> n \<le> frag_count m n * m"
proof (cases "n \<le> m")
  case False
  assume "0 < m"
  then have "n + m - 1 < Suc ((n + m - 1) div m) * m"
    by (metis dividend_less_div_times mult.commute mult_Suc)
  with False show ?thesis by (simp add: frag_count_def)
qed (simp add: frag_count_def)

lemma frag_count_pos: "0 < m \<Longrightarrow> 0 < frag_count m n"
  by (auto simp: frag_count_def div_greater_zero_iff)

lemma cfg_mss:
  assumes "cfg_wf k"
  shows "unat (mss k) = unat (mtu k) - 24" and "26 \<le> unat (mss k)" and "unat (mss k) < 2147483648"
proof -
  show m: "unat (mss k) = unat (mtu k) - 24"
    using assms by (simp add: cfg_wf_def unat_sub word_le_nat_alt)
  show "26 \<le> unat (mss k)" and "unat (mss k) < 2147483648"
    using assms unfolding m by (auto simp: cfg_wf_def)
qed

lemma send_count_eq:
  assumes "0 < unat (mss k)" and m: "unat (mss k) < 2147483648" and n: "n < 2147483648"
  shows "ikcp_send_count k (int n) = int (frag_count (unat (mss k)) n)"
proof (cases "n \<le> unat (mss k)")
  case True
  then show ?thesis using m by (simp add: ikcp_send_count_def frag_count_def sint_small)
next
  case False
  let ?m = "unat (mss k)"
  have "unat (of_nat n + mss k) = n + ?m"
    using m n by (simp add: unat_word_ariths unat_of_nat_u32)
  moreover have "of_nat n + mss k \<noteq> 0"
    using calculation assms(1) by (metis add_is_0 neq0_conv unat_0)
  ultimately have u: "unat (of_nat n + mss k - 1) = n + ?m - 1"
    by (simp add: unat_minus_one)
  have d: "unat ((of_nat n + mss k - 1) div mss k) = (n + ?m - 1) div ?m"
    by (simp add: unat_div u)
  have "n \<le> n * ?m" using assms(1) by simp
  then have "n + ?m - 1 < n * ?m + ?m" using assms(1) by linarith
  then have "n + ?m - 1 < (n + 1) * ?m" by (simp add: add_mult_distrib)
  then have "(n + ?m - 1) div ?m < n + 1" by (rule less_mult_imp_div_less)
  then have "sint ((of_nat n + mss k - 1) div mss k) = int ((n + ?m - 1) div ?m)"
    using n by (subst sint_small) (simp_all only: d)
  with False m show ?thesis
    by (simp add: ikcp_send_count_def frag_count_def sint_small)
qed


text \<open>The caller's side of the bargain: a non-null buffer holds at least \<open>len\<close> bytes.\<close>

definition valid_buf :: "bytes option \<Rightarrow> int \<Rightarrow> bool" where
  "valid_buf buf len \<longleftrightarrow> (case buf of None \<Rightarrow> True | Some b \<Rightarrow> len \<le> int (length b))"

lemma send_frags_frame:
  assumes "unat (mss k) < 2147483648" and "0 \<le> len" and "len < 2147483648" and "valid_buf buf len"
  shows "\<exists>segs r. ikcp_send_frags junk count n k buf len sent =
       (r, k\<lparr>snd_queue := snd_queue k @ segs, nsnd_que := nsnd_que k + of_nat n\<rparr>) \<and>
     length segs = n \<and> (\<forall>s \<in> set segs. seg_ok s)"
  using assms
proof (induction n arbitrary: k buf len sent)
  case 0
  then show ?case by simp
next
  case (Suc n)
  define sz where "sz = (if len > sint (mss k) then sint (mss k) else len)"
  have sz: "0 \<le> sz" "sz \<le> len" "sz < 2147483648"
    using Suc.prems by (auto simp: sz_def sint_small)
  define seg where
    "seg = ikcp_frag_seg (junk (nat (count - int (Suc n)))) k count (count - int (Suc n)) buf len sz"
  note seg_defs = seg_def ikcp_frag_seg_def Let_def
  have "length (seg_data seg) = nat sz"
    using sz Suc.prems by (auto simp: seg_defs valid_buf_def split: option.splits)
  moreover have "unat (seg_len seg) = nat sz"
    using sz by (simp add: seg_defs unat_to_u32)
  ultimately have ok: "seg_ok seg" by (simp add: seg_ok_def)
  let ?k = "k\<lparr>snd_queue := snd_queue k @ [seg], nsnd_que := nsnd_que k + 1\<rparr>"
  have pre: "unat (mss ?k) < 2147483648" "0 \<le> len - sz" "len - sz < 2147483648"
    "valid_buf (map_option (drop (nat sz)) buf) (len - sz)"
    using Suc.prems sz by (auto simp: valid_buf_def split: option.splits)
  obtain segs r where "ikcp_send_frags junk count n ?k (map_option (drop (nat sz)) buf) (len - sz) (sent + sz) =
       (r, ?k\<lparr>snd_queue := snd_queue ?k @ segs, nsnd_que := nsnd_que ?k + of_nat n\<rparr>)"
     and "length segs = n" and "\<forall>s \<in> set segs. seg_ok s"
    using Suc.IH [OF pre, of "sent + sz"] by blast
  moreover have "ikcp_send_frags junk count (Suc n) k buf len sent =
     ikcp_send_frags junk count n ?k (map_option (drop (nat sz)) buf) (len - sz) (sent + sz)"
    by (simp add: Let_def sz_def [symmetric] seg_def)
  ultimately show ?case
    using ok by (intro exI [of _ "seg # segs"] exI [of _ r]) (simp add: add.assoc)
qed

lemma send_append_spec:
  assumes m: "unat (mss k) < 2147483648" and q: "\<forall>s \<in> set (snd_queue k). seg_ok s"
    and len: "0 \<le> len" "len < 2147483648" and vb: "valid_buf buf len"
  shows "\<exists>q' e. ikcp_send_append jm k buf len =
       (k\<lparr>snd_queue := q'\<rparr>, map_option (drop (nat e)) buf, len - e, e) \<and>
     length q' = length (snd_queue k) \<and> (\<forall>s \<in> set q'. seg_ok s) \<and> 0 \<le> e \<and> e \<le> len \<and>
     (\<forall>b. buf = Some b \<longrightarrow>
        concat (map seg_data q') = concat (map seg_data (snd_queue k)) @ take (nat e) b)"
proof (cases "snd_queue k \<noteq> [] \<and> seg_len (last (snd_queue k)) < mss k")
  case False
  then have "ikcp_send_append jm k buf len = (k, buf, len, 0)"
    by (auto simp: ikcp_send_append_def Let_def)
  then show ?thesis
    using q len by (intro exI [of _ "snd_queue k"] exI [of _ 0]) (cases buf, simp_all)
next
  case True
  define old where "old = last (snd_queue k)"
  let ?lo = "unat (seg_len old)"
  have old: "snd_queue k = butlast (snd_queue k) @ [old]"
    using True by (simp add: old_def)
  then have "old \<in> set (snd_queue k)" by (metis in_set_conv_decomp)
  then have ok: "length (seg_data old) = ?lo" using q by (simp add: seg_ok_def)
  have lo: "?lo < unat (mss k)" using True by (simp add: old_def word_less_nat_alt)
  define e where "e = (if len < sint (mss k - seg_len old) then len else sint (mss k - seg_len old))"
  have "unat (mss k - seg_len old) = unat (mss k) - ?lo"
    using lo by (simp add: unat_sub word_le_nat_alt)
  then have cap: "sint (mss k - seg_len old) = int (unat (mss k) - ?lo)"
    using m by (subst sint_small) simp_all
  have e: "0 \<le> e" "e \<le> len" "?lo + nat e \<le> unat (mss k)"
    using len lo by (auto simp: e_def cap)
  have te: "unat (to_u32 e) = nat e" using e len by (simp add: unat_to_u32)
  have nl: "unat (seg_len old + to_u32 e) = ?lo + nat e"
    using e m by (simp add: te unat_word_ariths)
  define seg where "seg = ikcp_append_seg jm old buf e"
  note seg_defs = seg_def ikcp_append_seg_def Let_def
  have sz: "nat (sint (seg_len old + to_u32 e)) = ?lo + nat e"
    using m e by (simp add: nl sint_small)
  have dat: "seg_data seg = seg_data old @
      (case buf of None \<Rightarrow> drop ?lo (seg_data (ikcp_segment_new jm (?lo + nat e))) | Some b \<Rightarrow> take (nat e) b)"
    using ok by (auto simp: seg_defs sz memcpy_at_def split: option.split)
  have segok: "seg_ok seg"
  proof -
    have "length (seg_data seg) = ?lo + nat e"
      using ok e vb by (auto simp: dat valid_buf_def split: option.splits)
    moreover have "unat (seg_len seg) = ?lo + nat e" by (simp add: seg_defs nl)
    ultimately show ?thesis by (simp add: seg_ok_def)
  qed
  have "ikcp_send_append jm k buf len =
      (k\<lparr>snd_queue := butlast (snd_queue k) @ [seg]\<rparr>, map_option (drop (nat e)) buf, len - e, e)"
    using True by (simp add: ikcp_send_append_def Let_def old_def [symmetric] e_def [symmetric] seg_def)
  moreover have "\<forall>s \<in> set (butlast (snd_queue k) @ [seg]). seg_ok s"
    using q segok by (auto dest: in_set_butlastD)
  moreover have "concat (map seg_data (snd_queue k)) =
      concat (map seg_data (butlast (snd_queue k))) @ seg_data old"
    by (subst old) simp
  ultimately show ?thesis
    using e True by (intro exI [of _ "butlast (snd_queue k) @ [seg]"] exI [of _ e]) (auto simp: dat)
qed


text \<open>Every outcome of a call has one of three shapes.\<close>

lemma kcp_wf_snd_queue:
  assumes "kcp_wf k" and "\<forall>s \<in> set q. seg_ok s" and "nq = of_nat (length q)"
  shows "kcp_wf (k\<lparr>snd_queue := q, nsnd_que := nq\<rparr>)"
  using assms by (auto simp: kcp_wf_defs)

lemma send_cases:
  assumes wf: "kcp_wf k" and len: "len < 2147483648" and vb: "valid_buf buf len"
    and call: "ikcp_send junk k buf len = Some (r, k')"
  shows "\<exists>q. k' = k\<lparr>snd_queue := q, nsnd_que := of_nat (length q)\<rparr> \<and> (\<forall>s \<in> set q. seg_ok s)"
proof (cases "len < 0")
  case True
  with call wf show ?thesis
    by (intro exI [of _ "snd_queue k"]) (auto simp: ikcp_send_def kcp_wf_defs split: if_splits)
next
  case False
  have m: "unat (mss k) < 2147483648" using wf cfg_mss [of k] by (simp add: kcp_wf_def)
  have q: "\<forall>s \<in> set (snd_queue k). seg_ok s" and nq: "nsnd_que k = of_nat (length (snd_queue k))"
    using wf by (simp_all add: kcp_wf_defs)
  obtain q1 e where a: "(if stream k \<noteq> 0 then ikcp_send_append (junk 0) k buf len else (k, buf, len, 0)) =
       (k\<lparr>snd_queue := q1\<rparr>, map_option (drop (nat e)) buf, len - e, e)"
    and q1: "length q1 = length (snd_queue k)" "\<forall>s \<in> set q1. seg_ok s" "0 \<le> e" "e \<le> len"
  proof (cases "stream k \<noteq> 0")
    case True
    then show ?thesis using send_append_spec [OF m q _ len vb, of "junk 0"] False that by auto
  next
    case str: False
    have "map_option (drop (nat 0)) buf = buf" by (cases buf) simp_all
    then show ?thesis using that [of "snd_queue k" 0] str q False by simp
  qed
  let ?k = "k\<lparr>snd_queue := q1\<rparr>" and ?buf = "map_option (drop (nat e)) buf"
  have pre: "unat (mss ?k) < 2147483648" "0 \<le> len - e" "len - e < 2147483648" "valid_buf ?buf (len - e)"
    using m q1 len vb by (auto simp: valid_buf_def split: option.splits)
  have frags: "\<exists>q. snd (ikcp_send_frags (\<lambda>i. junk (Suc i)) c n ?k ?buf (len - e) e) =
       k\<lparr>snd_queue := q, nsnd_que := of_nat (length q)\<rparr> \<and> (\<forall>s \<in> set q. seg_ok s)" for c n
  proof -
    obtain segs rr where "ikcp_send_frags (\<lambda>i. junk (Suc i)) c n ?k ?buf (len - e) e =
        (rr, ?k\<lparr>snd_queue := snd_queue ?k @ segs, nsnd_que := nsnd_que ?k + of_nat n\<rparr>)"
      and "length segs = n" "\<forall>s \<in> set segs. seg_ok s"
      using send_frags_frame [OF pre, of "\<lambda>i. junk (Suc i)" c n e] by blast
    then show ?thesis using q1 nq by (intro exI [of _ "q1 @ segs"]) auto
  qed
  have same: "k\<lparr>snd_queue := q1\<rparr> = k\<lparr>snd_queue := q1, nsnd_que := of_nat (length q1)\<rparr>"
    using nq q1(1) by simp
  have "k' = ?k \<or> (\<exists>c n. k' = snd (ikcp_send_frags (\<lambda>i. junk (Suc i)) c n ?k ?buf (len - e) e))"
    using call False a
    by (auto simp: ikcp_send_def Let_def simp del: ikcp_send_frags.simps split: if_splits)
      (metis snd_conv)+
  then show ?thesis
    using frags same q1(2) by metis
qed

lemma send_wf:
  assumes "kcp_wf k" and "len < 2147483648" and "valid_buf buf len"
    and "ikcp_send junk k buf len = Some (r, k')"
  shows "kcp_wf k'"
  using send_cases [OF assms] assms(1) kcp_wf_snd_queue by blast

lemma frag_count_small: "0 < m \<Longrightarrow> n \<le> c * m \<Longrightarrow> 0 < c \<Longrightarrow> frag_count m n \<le> c"
proof (cases "n \<le> m")
  case False
  assume "0 < m" "n \<le> c * m" "0 < c"
  then have "n + m - 1 < (c + 1) * m" by (simp add: add_mult_distrib)
  then have "(n + m - 1) div m < c + 1" by (rule less_mult_imp_div_less)
  with False show ?thesis by (simp add: frag_count_def)
qed (simp add: frag_count_def)

section \<open>What the upper level may rely on\<close>

lemma send_message_holds:
  assumes wf: "kcp_wf k" and st: "stream k = 0" and b: "length b < 2147483648"
  shows "let n = frag_count (unat (mss k)) (length b) in
    if n \<ge> 128 then ikcp_send junk k (Some b) (int (length b)) = Some (-2, k)
    else \<exists>segs. ikcp_send junk k (Some b) (int (length b)) =
           Some (int (length b), k\<lparr>snd_queue := snd_queue k @ segs, nsnd_que := nsnd_que k + of_nat n\<rparr>) \<and>
         concat (map seg_data segs) = b \<and>
         map seg_frg segs = rev (map of_nat [0..<n]) \<and>
         (\<forall>s \<in> set segs. seg_ok s \<and> length (seg_data s) \<le> unat (mss k))"
proof -
  let ?m = "unat (mss k)"
  define n where "n = frag_count ?m (length b)"
  have m: "26 \<le> ?m" "?m < 2147483648"
    using wf cfg_mss [of k] by (simp_all add: kcp_wf_def)
  then have pos: "mss k > 0" by (auto simp: word_less_nat_alt)
  have cnt: "ikcp_send_count k (int (length b)) = int n"
    unfolding n_def using m b by (intro send_count_eq) simp_all
  have npos: "n \<noteq> 0" using frag_count_pos [of ?m "length b"] m by (simp add: n_def)
  have cover: "length b \<le> n * ?m" unfolding n_def using m by (intro frag_count_covers) simp
  show ?thesis
  proof (cases "n \<ge> 128")
    case True
    then show ?thesis using pos st cnt by (simp add: ikcp_send_def Let_def kcp_defs n_def [symmetric])
  next
    case False
    obtain segs where segs: "ikcp_send_frags (\<lambda>i. junk (Suc i)) (int n) n k (Some b) (int (length b)) 0 =
        (0 + int (min (n * ?m) (length b)), k\<lparr>snd_queue := snd_queue k @ segs, nsnd_que := nsnd_que k + of_nat n\<rparr>)"
      and dat: "map seg_data segs = chunks ?m n b"
      and frg: "map seg_frg segs = (if stream k = 0 then rev (map of_nat [0..<n]) else replicate n 0)"
      and ok: "\<forall>s \<in> set segs. seg_ok s"
      using send_frags_spec [of k b "\<lambda>i. junk (Suc i)" "int n" n 0] m b by auto
    have "concat (map seg_data segs) = b"
      using cover by (simp add: dat concat_chunks)
    moreover have "length (seg_data s) \<le> ?m" if "s \<in> set segs" for s
      using that dat chunk_length [of "seg_data s" ?m n b] by (metis imageI list.set_map)
    moreover have "ikcp_send junk k (Some b) (int (length b)) =
        Some (int (length b), k\<lparr>snd_queue := snd_queue k @ segs, nsnd_que := nsnd_que k + of_nat n\<rparr>)"
      using False pos st cnt npos segs cover by (simp add: ikcp_send_def Let_def kcp_defs min_absorb2)
    ultimately show ?thesis using False frg ok st by (auto simp: n_def [symmetric] Let_def)
  qed
qed

text \<open>
  C15: Message mode. A message is refused with \<open>-2\<close>, leaving the state alone, exactly when it
  needs 128 fragments or more; otherwise the whole message is queued: the new segments carry
  its bytes in order, no segment is longer than \<^verbatim>\<open>mss\<close>, and their fragment numbers count down
  to 0, so that the receiver can tell where the message ends.
\<close>

theorem send_message:
  assumes wf: "kcp_wf k" and st: "stream k = 0" and b: "length b < 2147483648"
  shows "let n = frag_count (unat (mss k)) (length b) in
    if n \<ge> 128 then ikcp_send junk k (Some b) (int (length b)) = Some (-2, k)
    else \<exists>segs. ikcp_send junk k (Some b) (int (length b)) =
           Some (int (length b), k\<lparr>snd_queue := snd_queue k @ segs, nsnd_que := nsnd_que k + of_nat n\<rparr>) \<and>
         concat (map seg_data segs) = b \<and>
         map seg_frg segs = rev (map of_nat [0..<n]) \<and>
         (\<forall>s \<in> set segs. seg_ok s \<and> length (seg_data s) \<le> unat (mss k))"
  by (rule send_message_holds [OF assms])

theorem send_message_witness:
  "\<exists>segs. ikcp_send (\<lambda>_. seg0) kcp0 (Some [1, 2, 3]) 3 =
       Some (3, kcp0\<lparr>snd_queue := snd_queue kcp0 @ segs, nsnd_que := nsnd_que kcp0 + 1\<rparr>) \<and>
     concat (map seg_data segs) = [1, 2, 3] \<and> map seg_frg segs = [0]"
  using send_message [of kcp0 "[1, 2, 3]" "\<lambda>_. seg0"] by (auto simp: frag_count_def)

lemma send_stream_holds:
  assumes wf: "kcp_wf k" and st: "stream k \<noteq> 0" and b: "length b < 2147483648"
  shows "\<exists>r k'. ikcp_send junk k (Some b) (int (length b)) = Some (r, k') \<and>
    concat (map seg_data (snd_queue k')) = concat (map seg_data (snd_queue k)) @ take (nat r) b \<and>
    r \<le> int (length b) \<and> (0 \<le> r \<or> r = -2) \<and>
    (length b \<le> 127 * unat (mss k) \<longrightarrow> r = int (length b))"
proof -
  let ?m = "unat (mss k)" and ?L = "length b"
  have m: "26 \<le> ?m" "?m < 2147483648"
    using wf cfg_mss [of k] by (simp_all add: kcp_wf_def)
  then have pos: "mss k > 0" by (auto simp: word_less_nat_alt)
  have q: "\<forall>s \<in> set (snd_queue k). seg_ok s" using wf by (simp add: kcp_wf_defs)
  obtain q1 e where a: "ikcp_send_append (junk 0) k (Some b) (int ?L) =
       (k\<lparr>snd_queue := q1\<rparr>, Some (drop (nat e) b), int ?L - e, e)"
    and e: "0 \<le> e" "e \<le> int ?L"
    and dat: "concat (map seg_data q1) = concat (map seg_data (snd_queue k)) @ take (nat e) b"
    using send_append_spec [OF m(2) q, of "int ?L" "Some b" "junk 0"] b by (auto simp: valid_buf_def)
  let ?k = "k\<lparr>snd_queue := q1\<rparr>" and ?b = "drop (nat e) b"
  have len: "int ?L - e = int (length ?b)" and lb: "length ?b = ?L - nat e" using e by simp_all
  define n where "n = frag_count ?m (length ?b)"
  have cnt: "ikcp_send_count ?k (int ?L - e) = int n"
    unfolding n_def len using m b send_count_eq [of ?k "length ?b"] by simp
  have npos: "n \<noteq> 0" using frag_count_pos [of ?m "length ?b"] m by (simp add: n_def)
  have cover: "length ?b \<le> n * ?m" unfolding n_def using m by (intro frag_count_covers) simp
  have small: "n < 128" if "?L \<le> 127 * ?m"
  proof -
    have "length ?b \<le> 127 * ?m" using that by simp
    then show ?thesis using frag_count_small [of ?m "length ?b" 127] m by (simp add: n_def)
  qed
  consider "int ?L \<le> e" | "e < int ?L" "n \<ge> 128" | "e < int ?L" "n < 128" by linarith
  then show ?thesis
  proof cases
    case 1
    then show ?thesis using pos st a e dat by (auto simp: ikcp_send_def)
  next
    case 2
    then show ?thesis using pos st a e dat cnt small by (auto simp: ikcp_send_def Let_def kcp_defs)
  next
    case 3
    have pre: "unat (mss ?k) < 2147483648" "length ?b < 2147483648" using m b by simp_all
    obtain segs where segs: "ikcp_send_frags (\<lambda>i. junk (Suc i)) (int n) n ?k (Some ?b) (int (length ?b)) e =
        (e + int (min (n * ?m) (length ?b)),
         ?k\<lparr>snd_queue := q1 @ segs, nsnd_que := nsnd_que k + of_nat n\<rparr>)"
      and sd: "map seg_data segs = chunks ?m n ?b"
      using send_frags_spec [OF pre, of "\<lambda>i. junk (Suc i)" "int n" n e] by auto
    have "concat (map seg_data segs) = ?b" using cover by (simp add: sd concat_chunks)
    then have "concat (map seg_data (q1 @ segs)) = concat (map seg_data (snd_queue k)) @ b"
      by (simp add: dat)
    moreover have "ikcp_send junk k (Some b) (int ?L) =
        Some (int ?L, ?k\<lparr>snd_queue := q1 @ segs, nsnd_que := nsnd_que k + of_nat n\<rparr>)"
      using 3 pos st a e cnt npos segs cover unfolding len
      by (simp add: ikcp_send_def Let_def kcp_defs min_absorb2)
    ultimately show ?thesis by auto
  qed
qed

text \<open>
  Stream mode. Whatever the call accepts is appended to the byte stream on the send queue,
  first filling up the last segment: the queued bytes are the old ones followed by the first
  \<open>r\<close> bytes of the buffer, where \<open>r\<close> is the result (\<open>-2\<close>: nothing taken). Everything is
  accepted when it fits into 127 segments.
\<close>

theorem send_stream:
  assumes wf: "kcp_wf k" and st: "stream k \<noteq> 0" and b: "length b < 2147483648"
  shows "\<exists>r k'. ikcp_send junk k (Some b) (int (length b)) = Some (r, k') \<and>
    concat (map seg_data (snd_queue k')) = concat (map seg_data (snd_queue k)) @ take (nat r) b \<and>
    r \<le> int (length b) \<and> (0 \<le> r \<or> r = -2) \<and>
    (length b \<le> 127 * unat (mss k) \<longrightarrow> r = int (length b))"
  by (rule send_stream_holds [OF assms])

theorem send_stream_witness:
  "\<exists>r k'. ikcp_send (\<lambda>_. seg0) (kcp0\<lparr>stream := 1\<rparr>) (Some [1, 2, 3]) 3 = Some (r, k') \<and>
    concat (map seg_data (snd_queue k')) = [1, 2, 3] \<and> r = 3"
proof -
  have "kcp_wf (kcp0\<lparr>stream := 1\<rparr>)"
    by simp
  from send_stream [OF this, of "[1, 2, 3]" "\<lambda>_. seg0"] show ?thesis by fastforce
qed

section \<open>What a send does not touch\<close>

lemma send_frags_only:
  "ikcp_send_frags junk count i k buf len sent = (r, k') \<Longrightarrow> \<exists>q n. k' = k\<lparr>snd_queue := q, nsnd_que := n\<rparr>"
proof (induction i arbitrary: k buf len sent)
  case 0
  then show ?case by (intro exI [of _ "snd_queue k"] exI [of _ "nsnd_que k"]) simp
next
  case (Suc n)
  from Suc.prems obtain s b l t where
    "ikcp_send_frags junk count n (k\<lparr>snd_queue := snd_queue k @ [s], nsnd_que := nsnd_que k + 1\<rparr>) b l t = (r, k')"
    by (simp add: Let_def)
  from Suc.IH [OF this] show ?case by auto
qed

lemma send_append_only:
  "ikcp_send_append junk k buf len = (k', b, l, e) \<Longrightarrow> \<exists>q. k' = k\<lparr>snd_queue := q\<rparr>"
  by (auto simp: ikcp_send_append_def Let_def split: if_splits intro: exI [of _ "snd_queue k"])

lemma send_only:
  assumes "ikcp_send junk k buf len = Some (r, k')"
  shows "\<exists>q n. k' = k\<lparr>snd_queue := q, nsnd_que := n\<rparr>"
proof -
  have same: "\<exists>q n. k = k\<lparr>snd_queue := q, nsnd_que := n\<rparr>"
    by (intro exI [of _ "snd_queue k"] exI [of _ "nsnd_que k"]) simp
  obtain k1 b1 l1 e1 where a: "(if stream k \<noteq> 0 then ikcp_send_append (junk 0) k buf len else (k, buf, len, 0)) = (k1, b1, l1, e1)"
    by (metis prod.exhaust)
  have "\<exists>q. k = k\<lparr>snd_queue := q\<rparr>" by (rule exI [of _ "snd_queue k"]) simp
  with a send_append_only [of "junk 0" k buf len k1 b1 l1 e1] obtain q1 where k1: "k1 = k\<lparr>snd_queue := q1\<rparr>"
    by (auto split: if_splits)
  then have "\<exists>q n. k1 = k\<lparr>snd_queue := q, nsnd_que := n\<rparr>" by (intro exI [of _ q1] exI [of _ "nsnd_que k"]) simp
  moreover have "\<exists>q n. k2 = k\<lparr>snd_queue := q, nsnd_que := n\<rparr>"
    if "ikcp_send_frags j c i k1 b l t = (r, k2)" for j c i b l t r k2
    using send_frags_only [OF that] k1 by auto
  ultimately show ?thesis
    using assms same a unfolding ikcp_send_def Let_def
    by (auto split: if_splits simp del: ikcp_send_frags.simps)
qed

end
