(* ===== verification/Kcp_Recv.thy ===== *)
theory Kcp_Recv
  imports Kcp_State
begin

text \<open>
  The receiving side: \<^verbatim>\<open>ikcp_parse_data\<close> sorts an arriving segment into the reordering buffer
  \<^verbatim>\<open>rcv_buf\<close> and moves what is now in sequence to \<^verbatim>\<open>rcv_queue\<close>; \<^verbatim>\<open>ikcp_peeksize\<close> and
  \<^verbatim>\<open>ikcp_recv\<close> hand complete messages to the upper level. The result of \<^verbatim>\<open>ikcp_recv\<close> is the
  return value with the bytes written to the caller's buffer, \<^const>\<open>None\<close> when its assertion
  \<^verbatim>\<open>len == peeksize\<close> fails.
\<close>

section \<open>The model\<close>

text \<open>The loop that both entry points share: move available data from rcv_buf to rcv_queue.\<close>

function ikcp_move_ready :: "kcpcb \<Rightarrow> kcpcb" where
  "ikcp_move_ready k =
     (case rcv_buf k of
        [] \<Rightarrow> k
      | seg # rest \<Rightarrow>
          if seg_sn seg = rcv_nxt k \<and> nrcv_que k < rcv_wnd k
          then ikcp_move_ready (k\<lparr>rcv_buf := rest, nrcv_buf := nrcv_buf k - 1,
                 rcv_queue := rcv_queue k @ [seg], nrcv_que := nrcv_que k + 1,
                 rcv_nxt := rcv_nxt k + 1\<rparr>)
          else k)"
  by pat_completeness auto
termination
  by (relation "measure (\<lambda>k. length (rcv_buf k))") auto

declare ikcp_move_ready.simps [simp del]

text \<open>
  The scan for the place of \<open>sn\<close> walks backwards from the tail, so it gets the buffer reversed.
  It returns whether the number is already there and the part of the reversed buffer that
  starts at the element \<^verbatim>\<open>p\<close> behind which a new segment goes.
\<close>

fun ikcp_parse_scan :: "u32 \<Rightarrow> ikcpseg list \<Rightarrow> bool \<times> ikcpseg list" where
  "ikcp_parse_scan sn [] = (False, [])"
| "ikcp_parse_scan sn (seg # prev) =
     (if seg_sn seg = sn then (True, seg # prev)
      else if itimediff sn (seg_sn seg) > 0 then (False, seg # prev)
      else ikcp_parse_scan sn prev)"

definition ikcp_parse_data :: "kcpcb \<Rightarrow> ikcpseg \<Rightarrow> kcpcb" where
  "ikcp_parse_data k newseg =
     (let sn = seg_sn newseg in
      if itimediff sn (rcv_nxt k + rcv_wnd k) \<ge> 0 \<or> itimediff sn (rcv_nxt k) < 0 then k
      else
        let (repeat, p) = ikcp_parse_scan sn (rev (rcv_buf k));
            at = length p;
            k = (if \<not> repeat
                 then k\<lparr>rcv_buf := take at (rcv_buf k) @ [newseg] @ drop at (rcv_buf k),
                        nrcv_buf := nrcv_buf k + 1\<rparr>
                 else k)
        in ikcp_move_ready k)"

fun ikcp_peek_loop :: "ikcpseg list \<Rightarrow> int \<Rightarrow> int" where
  "ikcp_peek_loop [] len = len"
| "ikcp_peek_loop (seg # p) len =
     (let len = sint (to_u32 len + seg_len seg) in
      if seg_frg seg = 0 then len else ikcp_peek_loop p len)"

definition ikcp_peeksize :: "kcpcb \<Rightarrow> int" where
  "ikcp_peeksize k =
     (case rcv_queue k of
        [] \<Rightarrow> -1
      | seg # _ \<Rightarrow>
          if seg_frg seg = 0 then sint (seg_len seg)
          else if nrcv_que k < seg_frg seg + 1 then -1
          else ikcp_peek_loop (rcv_queue k) 0)"

text \<open>
  The merge loop visits the segments \<open>p\<close> from the front of the queue; unless the caller only
  peeks, each one is unlinked and freed.
\<close>

fun ikcp_recv_merge ::
  "bool \<Rightarrow> bool \<Rightarrow> ikcpseg list \<Rightarrow> kcpcb \<Rightarrow> int \<Rightarrow> bytes \<Rightarrow> int \<times> bytes \<times> kcpcb" where
  "ikcp_recv_merge ispeek has_buf [] k len out = (len, out, k)"
| "ikcp_recv_merge ispeek has_buf (seg # p) k len out =
     (let out = (if has_buf then out @ take (unat (seg_len seg)) (seg_data seg) else out);
          len = sint (to_u32 len + seg_len seg);
          k = (if \<not> ispeek
               then k\<lparr>rcv_queue := tl (rcv_queue k), nrcv_que := nrcv_que k - 1\<rparr> else k)
      in if seg_frg seg = 0 then (len, out, k)
         else ikcp_recv_merge ispeek has_buf p k len out)"

definition ikcp_recv :: "kcpcb \<Rightarrow> bool \<Rightarrow> int \<Rightarrow> (int \<times> bytes \<times> kcpcb) option" where
  "ikcp_recv k has_buf len =
     (let ispeek = (len < 0) in
      if rcv_queue k = [] then Some (-1, [], k)
      else
        let len = (if len < 0 then s32 (- len) else len);
            peeksize = ikcp_peeksize k
        in if peeksize < 0 then Some (-2, [], k)
           else if peeksize > len then Some (-3, [], k)
           else
             let recover = (nrcv_que k \<ge> rcv_wnd k);
                 (len, out, k) = ikcp_recv_merge ispeek has_buf (rcv_queue k) k 0 []
             in if len \<noteq> peeksize then None
                else
                  let k = ikcp_move_ready k;
                      k = (if nrcv_que k < rcv_wnd k \<and> recover
                           then k\<lparr>probe := probe k OR IKCP_ASK_TELL\<rparr> else k)
                  in Some (len, out, k))"

section \<open>Moving in-sequence segments\<close>

text \<open>
  What the loop does: it takes a prefix of the reordering buffer, numbered consecutively from
  \<^verbatim>\<open>rcv_nxt\<close>, to the end of the queue, and stops only at a gap or at a full queue.
\<close>

definition ready_stuck :: "kcpcb \<Rightarrow> bool" where
  "ready_stuck k \<longleftrightarrow>
     rcv_buf k = [] \<or> seg_sn (hd (rcv_buf k)) \<noteq> rcv_nxt k \<or> \<not> nrcv_que k < rcv_wnd k"

lemma move_ready_step:
  assumes "rcv_buf k = seg # rest" and "seg_sn seg = rcv_nxt k" and "nrcv_que k < rcv_wnd k"
  shows "ikcp_move_ready k = ikcp_move_ready (k\<lparr>rcv_buf := rest, nrcv_buf := nrcv_buf k - 1,
                 rcv_queue := rcv_queue k @ [seg], nrcv_que := nrcv_que k + 1,
                 rcv_nxt := rcv_nxt k + 1\<rparr>)"
  using assms by (subst ikcp_move_ready.simps) simp

lemma move_ready_stop: "ready_stuck k \<Longrightarrow> ikcp_move_ready k = k"
  by (subst ikcp_move_ready.simps) (auto simp: ready_stuck_def split: list.split)

lemma move_ready_spec:
  "\<exists>d rest. rcv_buf k = d @ rest \<and>
     map seg_sn d = map (\<lambda>i. rcv_nxt k + of_nat i) [0..<length d] \<and>
     ikcp_move_ready k = k\<lparr>rcv_buf := rest, nrcv_buf := nrcv_buf k - of_nat (length d),
       rcv_queue := rcv_queue k @ d, nrcv_que := nrcv_que k + of_nat (length d),
       rcv_nxt := rcv_nxt k + of_nat (length d)\<rparr> \<and>
     ready_stuck (ikcp_move_ready k)"
proof (induction "length (rcv_buf k)" arbitrary: k)
  case 0
  then show ?case
    by (intro exI [of _ "[]"]) (simp add: move_ready_stop ready_stuck_def)
next
  case (Suc n)
  show ?case
  proof (cases "ready_stuck k")
    case True
    then show ?thesis by (intro exI [of _ "[]"] exI [of _ "rcv_buf k"]) (simp add: move_ready_stop)
  next
    case False
    then obtain seg rest where b: "rcv_buf k = seg # rest" and s: "seg_sn seg = rcv_nxt k"
      and q: "nrcv_que k < rcv_wnd k"
      by (cases "rcv_buf k") (auto simp: ready_stuck_def)
    let ?k = "k\<lparr>rcv_buf := rest, nrcv_buf := nrcv_buf k - 1, rcv_queue := rcv_queue k @ [seg],
      nrcv_que := nrcv_que k + 1, rcv_nxt := rcv_nxt k + 1\<rparr>"
    have "n = length (rcv_buf ?k)" using Suc.hyps(2) b by simp
    from Suc.hyps(1) [OF this] obtain d r where IH: "rest = d @ r"
      "map seg_sn d = map (\<lambda>i. rcv_nxt k + 1 + of_nat i) [0..<length d]"
      "ikcp_move_ready ?k = ?k\<lparr>rcv_buf := r, nrcv_buf := nrcv_buf ?k - of_nat (length d),
         rcv_queue := rcv_queue ?k @ d, nrcv_que := nrcv_que ?k + of_nat (length d),
         rcv_nxt := rcv_nxt ?k + of_nat (length d)\<rparr>"
      "ready_stuck (ikcp_move_ready ?k)"
      by auto
    have "map seg_sn (seg # d) = map (\<lambda>i. rcv_nxt k + of_nat i) [0..<length (seg # d)]"
      using IH(2) s by (simp add: upt_conv_Cons map_Suc_upt [symmetric] add.assoc comp_def del: upt_Suc)
    then show ?thesis
      using IH b move_ready_step [OF b s q]
      by (intro exI [of _ "seg # d"] exI [of _ r]) (simp add: algebra_simps)
  qed
qed

lemma move_ready_induct:
  assumes "P k"
    and "\<And>k seg rest. P k \<Longrightarrow> rcv_buf k = seg # rest \<Longrightarrow> seg_sn seg = rcv_nxt k \<Longrightarrow>
      nrcv_que k < rcv_wnd k \<Longrightarrow>
      P (k\<lparr>rcv_buf := rest, nrcv_buf := nrcv_buf k - 1, rcv_queue := rcv_queue k @ [seg],
           nrcv_que := nrcv_que k + 1, rcv_nxt := rcv_nxt k + 1\<rparr>)"
  shows "P (ikcp_move_ready k)"
  using assms(1)
proof (induction "length (rcv_buf k)" arbitrary: k)
  case 0
  then show ?case by (simp add: move_ready_stop ready_stuck_def)
next
  case (Suc n)
  show ?case
  proof (cases "ready_stuck k")
    case True
    then show ?thesis using Suc.prems by (simp add: move_ready_stop)
  next
    case False
    then obtain seg rest where b: "rcv_buf k = seg # rest" "seg_sn seg = rcv_nxt k" "nrcv_que k < rcv_wnd k"
      by (cases "rcv_buf k") (auto simp: ready_stuck_def)
    show ?thesis
      unfolding move_ready_step [OF b]
      using Suc.hyps(2) b(1) by (intro Suc.hyps(1) assms(2) [OF Suc.prems b]) simp
  qed
qed

lemma move_step_rcv_core:
  assumes "rcv_core k" and b: "rcv_buf k = seg # rest" "seg_sn seg = rcv_nxt k" "nrcv_que k < rcv_wnd k"
  shows "rcv_core (k\<lparr>rcv_buf := rest, nrcv_buf := nrcv_buf k - 1, rcv_queue := rcv_queue k @ [seg],
           nrcv_que := nrcv_que k + 1, rcv_nxt := rcv_nxt k + 1\<rparr>)"
proof -
  have w: "window_sorted (rcv_nxt k) (seg # rest)" using assms by (simp add: rcv_core_def)
  then have "window_sorted (rcv_nxt k) rest"
    and "\<forall>s \<in> set rest. seqoff (rcv_nxt k) (rcv_nxt k + 1) \<le> seqoff (rcv_nxt k) (seg_sn s)"
    using b(2) by (auto simp: window_sorted_Cons seqoff_def Suc_le_eq)
  then have "window_sorted (rcv_nxt k + 1) rest" by (rule window_sorted_advance)
  moreover have "unat (nrcv_que k + 1) = unat (nrcv_que k) + 1"
    using b(3) by (simp add: unat_Suc_less)
  moreover have "unat (nrcv_que k) < unat (rcv_wnd k)" using b(3) by (simp add: word_less_nat_alt)
  ultimately show ?thesis
    using assms(1) b(1) by (auto simp: rcv_core_def)
qed

lemma move_ready_wf: "kcp_wf k \<Longrightarrow> kcp_wf (ikcp_move_ready k)"
proof (erule move_ready_induct)
  fix k seg rest
  assume "kcp_wf k" and b: "rcv_buf k = seg # rest" "seg_sn seg = rcv_nxt k" "nrcv_que k < rcv_wnd k"
  then show "kcp_wf (k\<lparr>rcv_buf := rest, nrcv_buf := nrcv_buf k - 1, rcv_queue := rcv_queue k @ [seg],
           nrcv_que := nrcv_que k + 1, rcv_nxt := rcv_nxt k + 1\<rparr>)"
    using move_step_rcv_core [OF kcp_wfD(3) b]
    by (auto simp: kcp_wf_def snd_core_def una_exact_def ack_wf_def cfg_wf_def segs_wf_def)
qed

section \<open>The window and the place of a segment\<close>

lemma rcv_window_iff:
  assumes "unat wnd < 2147483648"
  shows "(itimediff sn (nxt + wnd) \<ge> 0 \<or> itimediff sn nxt < 0) \<longleftrightarrow> \<not> seqoff nxt sn < unat wnd"
proof (cases "seqoff nxt sn < 2147483648")
  case True
  then have "itimediff sn (nxt + wnd) = int (seqoff nxt sn) - int (unat wnd)"
    using itimediff_window [of nxt sn "nxt + wnd"] assms by simp
  moreover have "itimediff sn nxt \<ge> 0" using True by (simp add: itimediff_nonneg)
  ultimately show ?thesis by auto
next
  case False
  then have "itimediff sn nxt < 0" by (metis itimediff_nonneg not_less)
  then show ?thesis using False assms by auto
qed

lemma parse_scan_spec:
  assumes "window_sorted r buf" and "seqoff r sn < 2147483648"
    and "ikcp_parse_scan sn (rev buf) = (rep, p)"
  shows "(rep \<longleftrightarrow> sn \<in> seg_sn ` set buf) \<and> length p \<le> length buf \<and>
    (\<not> rep \<longrightarrow> (\<forall>s \<in> set (take (length p) buf). seqoff r (seg_sn s) < seqoff r sn) \<and>
      (\<forall>s \<in> set (drop (length p) buf). seqoff r sn < seqoff r (seg_sn s)))"
  using assms
proof (induction buf rule: rev_induct)
  case Nil
  then show ?case by simp
next
  case (snoc x xs)
  have w: "window_sorted r xs" "\<forall>s \<in> set xs. seqoff r (seg_sn s) < seqoff r (seg_sn x)"
    "seqoff r (seg_sn x) < 2147483648"
    using snoc.prems(1) by (auto simp: window_sorted_append window_sorted_Cons)
  have cmp: "itimediff sn (seg_sn x) = int (seqoff r sn) - int (seqoff r (seg_sn x))"
    using w(3) snoc.prems(2) by (intro itimediff_window)
  consider "seg_sn x = sn" | "seg_sn x \<noteq> sn" "seqoff r (seg_sn x) < seqoff r sn"
    | "seg_sn x \<noteq> sn" "seqoff r sn < seqoff r (seg_sn x)"
    by (metis seqoff_inject linorder_neqE_nat)
  then show ?case
  proof cases
    case 1
    then show ?thesis using snoc.prems(3) by auto
  next
    case 2
    then show ?thesis using snoc.prems(3) w(2) cmp by (auto intro: less_trans split: if_splits)
  next
    case 3
    then have "ikcp_parse_scan sn (rev xs) = (rep, p)"
      using snoc.prems(3) cmp by simp
    from snoc.IH [OF w(1) snoc.prems(2) this] 3 show ?thesis by auto
  qed
qed

section \<open>The reordering buffer\<close>

text \<open>The reordering buffer as a finite map from sequence numbers to segments.\<close>

definition buffered :: "kcpcb \<Rightarrow> u32 \<Rightarrow> ikcpseg option" where
  "buffered k n = find (\<lambda>s. seg_sn s = n) (rcv_buf k)"

definition in_rcv_window :: "kcpcb \<Rightarrow> u32 \<Rightarrow> bool" where
  "in_rcv_window k n \<longleftrightarrow> seqoff (rcv_nxt k) n < unat (rcv_wnd k)"

text \<open>The buffer after the insertion, before anything is moved on.\<close>

definition rcv_insert :: "kcpcb \<Rightarrow> ikcpseg \<Rightarrow> kcpcb" where
  "rcv_insert k s =
     (let (repeat, p) = ikcp_parse_scan (seg_sn s) (rev (rcv_buf k)) in
      if \<not> repeat
      then k\<lparr>rcv_buf := take (length p) (rcv_buf k) @ [s] @ drop (length p) (rcv_buf k),
             nrcv_buf := nrcv_buf k + 1\<rparr>
      else k)"

lemma parse_data_eq:
  assumes "rcv_core k"
  shows "ikcp_parse_data k s =
    (if in_rcv_window k (seg_sn s) then ikcp_move_ready (rcv_insert k s) else k)"
proof -
  have "unat (rcv_wnd k) < 2147483648" using assms by (simp add: rcv_core_def)
  from rcv_window_iff [OF this, of "seg_sn s" "rcv_nxt k"] show ?thesis
    by (simp add: ikcp_parse_data_def rcv_insert_def in_rcv_window_def Let_def split: prod.split)
qed

lemma find_None_sn: "find (\<lambda>s. seg_sn s = n) xs = None \<longleftrightarrow> n \<notin> seg_sn ` set xs"
  by (auto simp: find_None_iff)

lemma find_append: "find P (xs @ ys) = (case find P xs of None \<Rightarrow> find P ys | Some x \<Rightarrow> Some x)"
  by (induction xs) auto

lemma find_insert:
  assumes "seg_sn s \<notin> seg_sn ` set xs"
  shows "find (\<lambda>t. seg_sn t = n) (take i xs @ s # drop i xs) =
    (if n = seg_sn s then Some s else find (\<lambda>t. seg_sn t = n) xs)"
proof -
  have "seg_sn s \<notin> seg_sn ` set (take i xs)" using assms by (auto dest: in_set_takeD)
  then have "find (\<lambda>t. seg_sn t = seg_sn s) (take i xs) = None" by (simp add: find_None_sn)
  moreover have "find (\<lambda>t. seg_sn t = n) xs = find (\<lambda>t. seg_sn t = n) (take i xs @ drop i xs)" by simp
  ultimately show ?thesis by (auto simp: find_append simp del: append_take_drop_id split: option.split)
qed

lemma if_None_Some: "(if a = None \<and> P then Some s else a) = Some t \<Longrightarrow> t = s \<or> a = Some t"
  by (simp split: if_splits)

lemma find_own: "distinct (map seg_sn xs) \<Longrightarrow> t \<in> set xs \<Longrightarrow> find (\<lambda>s. seg_sn s = seg_sn t) xs = Some t"
  by (induction xs) auto

lemma insert_split:
  assumes "rcv_core k" and "in_rcv_window k (seg_sn s)"
  obtains "seg_sn s \<in> seg_sn ` set (rcv_buf k)" and "rcv_insert k s = k"
  | i where "seg_sn s \<notin> seg_sn ` set (rcv_buf k)"
    and "rcv_insert k s =
      k\<lparr>rcv_buf := take i (rcv_buf k) @ s # drop i (rcv_buf k), nrcv_buf := nrcv_buf k + 1\<rparr>"
    and "window_sorted (rcv_nxt k) (take i (rcv_buf k) @ s # drop i (rcv_buf k))"
proof -
  obtain rep p where sc: "ikcp_parse_scan (seg_sn s) (rev (rcv_buf k)) = (rep, p)"
    by fastforce
  have w: "window_sorted (rcv_nxt k) (rcv_buf k)" using assms(1) by (simp add: rcv_core_def)
  have o: "seqoff (rcv_nxt k) (seg_sn s) < 2147483648"
    using assms by (auto simp: rcv_core_def in_rcv_window_def)
  note spec = parse_scan_spec [OF w o sc]
  show ?thesis
  proof (cases rep)
    case True
    then show ?thesis using that(1) spec sc by (simp add: rcv_insert_def)
  next
    case False
    let ?a = "take (length p) (rcv_buf k)" and ?b = "drop (length p) (rcv_buf k)"
    have "window_sorted (rcv_nxt k) (?a @ ?b)" using w by simp
    then have "window_sorted (rcv_nxt k) ?a" "window_sorted (rcv_nxt k) ?b"
      by (simp_all only: window_sorted_append)
    moreover have "\<forall>x \<in> set ?a. seqoff (rcv_nxt k) (seg_sn x) < seqoff (rcv_nxt k) (seg_sn s)"
      "\<forall>x \<in> set ?b. seqoff (rcv_nxt k) (seg_sn s) < seqoff (rcv_nxt k) (seg_sn x)"
      using spec False by simp_all
    ultimately have "window_sorted (rcv_nxt k) (?a @ s # ?b)"
      using o by (auto simp: window_sorted_append window_sorted_Cons intro: less_trans)
    then show ?thesis using that(2) [of "length p"] spec sc False by (simp add: rcv_insert_def)
  qed
qed

lemma set_insert_at: "set (take i xs @ s # drop i xs) = insert s (set xs)"
proof -
  have "set xs = set (take i xs) \<union> set (drop i xs)" by (metis append_take_drop_id set_append)
  then show ?thesis by auto
qed

lemma rcv_insert_wf:
  assumes "kcp_wf k" and "seg_ok s" and "in_rcv_window k (seg_sn s)"
  shows "kcp_wf (rcv_insert k s)"
  using kcp_wfD(3) [OF assms(1)] assms(3)
proof (cases rule: insert_split)
  case 1
  then show ?thesis using assms(1) by simp
next
  case (2 i)
  let ?b = "take i (rcv_buf k) @ s # drop i (rcv_buf k)"
  have "length ?b = Suc (length (rcv_buf k))" by (simp add: min_def)
  then have "rcv_core (rcv_insert k s)"
    unfolding 2(2) using kcp_wfD(3) [OF assms(1)] 2(3) by (auto simp: rcv_core_def)
  moreover have "segs_wf (rcv_insert k s)"
    unfolding 2(2) using kcp_wfD(6) [OF assms(1)] assms(2) set_insert_at [of i "rcv_buf k" s]
    by (auto simp: segs_wf_def)
  ultimately show ?thesis
    using assms(1) unfolding 2(2)
    by (auto simp: kcp_wf_def snd_core_def una_exact_def ack_wf_def cfg_wf_def)
qed

lemma parse_data_wf: "kcp_wf k \<Longrightarrow> seg_ok s \<Longrightarrow> kcp_wf (ikcp_parse_data k s)"
  by (simp add: parse_data_eq kcp_wfD(3) rcv_insert_wf move_ready_wf)

lemma rcv_insert_facts:
  assumes "rcv_core k" and "in_rcv_window k (seg_sn s)"
  shows "rcv_nxt (rcv_insert k s) = rcv_nxt k" and "rcv_queue (rcv_insert k s) = rcv_queue k"
    and "window_sorted (rcv_nxt k) (rcv_buf (rcv_insert k s))"
    and "buffered (rcv_insert k s) n =
       (if buffered k n = None \<and> n = seg_sn s then Some s else buffered k n)"
proof -
  have w: "window_sorted (rcv_nxt k) (rcv_buf k)" using assms(1) by (simp add: rcv_core_def)
  show "rcv_nxt (rcv_insert k s) = rcv_nxt k" and "rcv_queue (rcv_insert k s) = rcv_queue k"
    by (simp_all add: rcv_insert_def split: prod.split)
  show "window_sorted (rcv_nxt k) (rcv_buf (rcv_insert k s))"
    using assms w by (cases rule: insert_split) simp_all
  show "buffered (rcv_insert k s) n =
       (if buffered k n = None \<and> n = seg_sn s then Some s else buffered k n)"
    using assms
  proof (cases rule: insert_split)
    case 1
    then have "buffered k (seg_sn s) \<noteq> None" by (simp add: buffered_def find_None_sn)
    with 1 show ?thesis by auto
  next
    case (2 i)
    then have "buffered k (seg_sn s) = None" by (simp add: buffered_def find_None_sn)
    with 2 show ?thesis by (auto simp: buffered_def find_insert)
  qed
qed

section \<open>What arrives\<close>

text \<open>
  C16: An arriving data segment outside the receive window changes nothing. One inside it is
  stored under its sequence number unless that number is buffered already; then a run of
  consecutively numbered segments, starting at \<^verbatim>\<open>rcv_nxt\<close>, goes to the end of the receive
  queue, each of them the segment that was buffered under its number or the new one, and the
  run stops only at a gap or at a full queue. Nothing else leaves the buffer.
\<close>

theorem parse_data_contract:
  assumes "kcp_wf k"
  shows "if \<not> in_rcv_window k (seg_sn s) then ikcp_parse_data k s = k
    else \<exists>d. rcv_queue (ikcp_parse_data k s) = rcv_queue k @ d \<and>
      map seg_sn d = map (\<lambda>i. rcv_nxt k + of_nat i) [0..<length d] \<and>
      rcv_nxt (ikcp_parse_data k s) = rcv_nxt k + of_nat (length d) \<and>
      (\<forall>n. buffered (ikcp_parse_data k s) n =
        (if n \<in> seg_sn ` set d then None
         else if buffered k n = None \<and> n = seg_sn s then Some s else buffered k n)) \<and>
      (\<forall>t \<in> set d. t = s \<or> buffered k (seg_sn t) = Some t) \<and>
      ready_stuck (ikcp_parse_data k s)"
proof (cases "in_rcv_window k (seg_sn s)")
  case False
  then show ?thesis using assms by (simp add: parse_data_eq kcp_wf_def)
next
  case True
  have rc: "rcv_core k" using assms by (rule kcp_wfD)
  let ?k = "rcv_insert k s"
  note ins = rcv_insert_facts [OF rc True]
  obtain d rest where mv: "rcv_buf ?k = d @ rest"
    "map seg_sn d = map (\<lambda>i. rcv_nxt ?k + of_nat i) [0..<length d]"
    "ikcp_move_ready ?k = ?k\<lparr>rcv_buf := rest, nrcv_buf := nrcv_buf ?k - of_nat (length d),
       rcv_queue := rcv_queue ?k @ d, nrcv_que := nrcv_que ?k + of_nat (length d),
       rcv_nxt := rcv_nxt ?k + of_nat (length d)\<rparr>"
    "ready_stuck (ikcp_move_ready ?k)"
    using move_ready_spec [of ?k] by blast
  have dist: "distinct (map seg_sn (d @ rest))"
    using window_sorted_distinct [OF ins(3)] mv(1) by simp
  have rest: "find (\<lambda>t. seg_sn t = n) rest =
     (if n \<in> seg_sn ` set d then None else buffered ?k n)" for n
  proof (cases "n \<in> seg_sn ` set d")
    case True
    then have "n \<notin> seg_sn ` set rest" using dist by auto
    with True show ?thesis by (simp add: find_None_sn)
  next
    case False
    then have "find (\<lambda>t. seg_sn t = n) d = None" by (simp add: find_None_sn)
    with False show ?thesis by (simp add: buffered_def mv(1) find_append)
  qed
  have own: "t = s \<or> buffered k (seg_sn t) = Some t" if "t \<in> set d" for t
  proof -
    have "t \<in> set (d @ rest)" using that by simp
    from find_own [OF dist this] have "buffered ?k (seg_sn t) = Some t"
      by (simp only: buffered_def mv(1))
    then show ?thesis unfolding ins(4) by (rule if_None_Some)
  qed
  have buf: "buffered (ikcp_move_ready ?k) n = (if n \<in> seg_sn ` set d then None else buffered ?k n)" for n
    by (simp add: buffered_def mv(3)) (simp add: rest buffered_def)
  have q: "rcv_queue (ikcp_move_ready ?k) = rcv_queue k @ d"
    and nx: "rcv_nxt (ikcp_move_ready ?k) = rcv_nxt k + of_nat (length d)"
    by (simp_all add: mv(3) ins(1,2))
  have sns: "map seg_sn d = map (\<lambda>i. rcv_nxt k + of_nat i) [0..<length d]"
    using mv(2) by (simp add: ins(1))
  have pd: "ikcp_parse_data k s = ikcp_move_ready ?k" using True by (simp add: parse_data_eq [OF rc])
  have concl: "rcv_queue (ikcp_parse_data k s) = rcv_queue k @ d \<and>
      map seg_sn d = map (\<lambda>i. rcv_nxt k + of_nat i) [0..<length d] \<and>
      rcv_nxt (ikcp_parse_data k s) = rcv_nxt k + of_nat (length d) \<and>
      (\<forall>n. buffered (ikcp_parse_data k s) n =
        (if n \<in> seg_sn ` set d then None
         else if buffered k n = None \<and> n = seg_sn s then Some s else buffered k n)) \<and>
      (\<forall>t \<in> set d. t = s \<or> buffered k (seg_sn t) = Some t) \<and>
      ready_stuck (ikcp_parse_data k s)"
    unfolding pd by (intro conjI q sns nx mv(4) ballI own allI) (simp only: buf ins(4))+
  have "\<not> \<not> in_rcv_window k (seg_sn s)" using True by simp
  then show ?thesis by (subst if_not_P, assumption) (rule exI [of _ d], rule concl)
qed

theorem parse_data_contract_witness:
  "ikcp_parse_data kcp0 (seg0\<lparr>seg_sn := 200\<rparr>) = kcp0 \<and>
   buffered (ikcp_parse_data kcp0 (seg0\<lparr>seg_sn := 1\<rparr>)) 0 = None"
  using parse_data_contract [of kcp0 "seg0\<lparr>seg_sn := 200\<rparr>"]
    parse_data_contract [of kcp0 "seg0\<lparr>seg_sn := 1\<rparr>"]
  by (simp add: in_rcv_window_def seqoff_def buffered_def)

section \<open>Receiving a message\<close>

lemma merge_len: "fst (ikcp_recv_merge ispeek has_buf q k len out) = ikcp_peek_loop q len"
  by (induction q arbitrary: k len out) (auto simp: Let_def)

lemma ikcp_recv_total: "\<exists>r. ikcp_recv k has_buf len = Some r"
proof -
  have "ikcp_peeksize k = ikcp_peek_loop (rcv_queue k) 0" if "ikcp_peeksize k \<ge> 0"
    using that by (auto simp: ikcp_peeksize_def to_u32_def split: list.splits if_splits)
  then show ?thesis
    using merge_len [of "len < 0" has_buf "rcv_queue k" k 0 "[]"]
    by (auto simp: ikcp_recv_def Let_def split: prod.split)
qed

text \<open>
  The assertion \<open>len == peeksize\<close> of \<open>ikcp_recv\<close> never fires, whatever the control block
  holds: the call always returns.
\<close>

theorem recv_returns: "\<exists>r. ikcp_recv k has_buf len = Some r"
  by (rule ikcp_recv_total)

text \<open>The first message of a queue, and what follows it.\<close>

fun head_message :: "ikcpseg list \<Rightarrow> ikcpseg list" where
  "head_message [] = []"
| "head_message (seg # q) = (if seg_frg seg = 0 then [seg] else seg # head_message q)"

definition after_message :: "ikcpseg list \<Rightarrow> ikcpseg list" where
  "after_message q = drop (length (head_message q)) q"

definition message_bytes :: "ikcpseg list \<Rightarrow> bytes" where
  "message_bytes q = concat (map seg_data (head_message q))"

lemma head_message_split: "head_message q @ after_message q = q"
  by (induction q) (auto simp: after_message_def)

lemma message_bytes_Cons:
  "message_bytes (seg # q) = seg_data seg @ (if seg_frg seg = 0 then [] else message_bytes q)"
  by (simp add: message_bytes_def)

lemma after_message_Cons:
  "after_message (seg # q) = (if seg_frg seg = 0 then q else after_message q)"
  by (simp add: after_message_def)

definition queued_bytes :: "ikcpseg list \<Rightarrow> nat" where
  "queued_bytes q = length (concat (map seg_data q))"

lemma queued_bytes_Cons: "queued_bytes (s # q) = length (seg_data s) + queued_bytes q"
  by (simp add: queued_bytes_def)

lemma merge_len_step:
  assumes "seg_ok s" and "l + length (seg_data s) < 2147483648"
  shows "sint (to_u32 (int l) + seg_len s) = int (l + length (seg_data s))"
proof -
  have "unat (to_u32 (int l) + seg_len s) = l + length (seg_data s)"
    using assms by (simp add: seg_ok_def unat_word_ariths unat_of_nat_u32)
  then show ?thesis using assms(2) by (simp add: sint_small)
qed

lemma peek_loop_spec:
  assumes "\<forall>s \<in> set q. seg_ok s" and "l + queued_bytes q < 2147483648"
  shows "ikcp_peek_loop q (int l) = int (l + length (message_bytes q))"
  using assms
proof (induction q arbitrary: l)
  case Nil
  then show ?case by (simp add: message_bytes_def)
next
  case (Cons s q)
  have "sint (to_u32 (int l) + seg_len s) = int (l + length (seg_data s))"
    using Cons.prems by (intro merge_len_step) (simp_all add: queued_bytes_Cons)
  moreover have "ikcp_peek_loop q (int (l + length (seg_data s))) =
      int (l + length (seg_data s) + length (message_bytes q))"
    using Cons.prems by (intro Cons.IH) (simp_all add: queued_bytes_Cons)
  ultimately show ?case by (simp add: Let_def message_bytes_Cons del: to_u32_of_nat)
qed

lemma recv_merge_spec:
  assumes "\<forall>s \<in> set q. seg_ok s" and "rcv_queue k = q"
  shows "snd (ikcp_recv_merge ispeek True q k l out) =
    (out @ message_bytes q,
     if ispeek then k
     else k\<lparr>rcv_queue := after_message q, nrcv_que := nrcv_que k - of_nat (length (head_message q))\<rparr>)"
  using assms
proof (induction q arbitrary: k l out)
  case Nil
  then show ?case by (simp add: message_bytes_def after_message_def)
next
  case (Cons s q)
  have "seg_ok s" using Cons.prems by simp
  then have t: "take (unat (seg_len s)) (seg_data s) = seg_data s" by (simp add: seg_ok_def)
  show ?case
  proof (cases ispeek)
    case True
    have "snd (ikcp_recv_merge True True q kk l out) = (out @ message_bytes q, kk)" for kk l out
    proof (insert Cons.prems(1), induction q arbitrary: kk l out)
      case Nil
      then show ?case by (simp add: message_bytes_def)
    next
      case (Cons a q)
      then show ?case by (simp add: Let_def message_bytes_Cons seg_ok_def)
    qed
    with True t show ?thesis by (simp add: Let_def message_bytes_Cons)
  next
    case False
    have "rcv_queue (k\<lparr>rcv_queue := q, nrcv_que := nrcv_que k - 1\<rparr>) = q" by simp
    with Cons False t show ?thesis
      by (simp add: Let_def message_bytes_Cons after_message_Cons algebra_simps)
  qed
qed


lemma head_message_length: "length (head_message q) \<le> length q"
  by (induction q) auto

lemma set_after_message: "set (after_message q) \<subseteq> set q"
  by (auto simp: after_message_def dest: in_set_dropD)

lemma message_fits: "length (message_bytes q) \<le> queued_bytes q"
  by (induction q) (auto simp: message_bytes_Cons queued_bytes_Cons message_bytes_def)

lemma drop_message_wf:
  assumes "kcp_wf k"
  shows "kcp_wf (k\<lparr>rcv_queue := after_message (rcv_queue k),
    nrcv_que := nrcv_que k - of_nat (length (head_message (rcv_queue k)))\<rparr>)"
proof -
  let ?n = "length (head_message (rcv_queue k))"
  have rc: "rcv_core k" using assms by (rule kcp_wfD)
  have n: "?n \<le> length (rcv_queue k)" by (rule head_message_length)
  then have "unat (of_nat ?n :: u32) = ?n" using rc by (simp add: unat_of_nat_u32 rcv_core_def)
  then have u: "unat (nrcv_que k - of_nat ?n) = length (after_message (rcv_queue k))"
    using n rc by (simp add: unat_sub word_le_nat_alt rcv_core_def after_message_def)
  have "length (after_message (rcv_queue k)) \<le> length (rcv_queue k)" by (simp add: after_message_def)
  then show ?thesis
    using assms u set_after_message [of "rcv_queue k"]
    by (auto simp: kcp_wf_def snd_core_def una_exact_def ack_wf_def cfg_wf_def segs_wf_def rcv_core_def)
qed

text \<open>Peek size, in the terms of the queue.\<close>

definition head_incomplete :: "kcpcb \<Rightarrow> bool" where
  "head_incomplete k \<longleftrightarrow>
     seg_frg (hd (rcv_queue k)) \<noteq> 0 \<and> nrcv_que k < seg_frg (hd (rcv_queue k)) + 1"

lemma peeksize_spec:
  assumes "segs_wf k" and "queued_bytes (rcv_queue k) < 2147483648" and "rcv_queue k \<noteq> []"
  shows "ikcp_peeksize k =
    (if head_incomplete k then -1 else int (length (message_bytes (rcv_queue k))))"
proof -
  obtain s q where q: "rcv_queue k = s # q" using assms(3) by (cases "rcv_queue k") auto
  have ok: "\<forall>s \<in> set (rcv_queue k). seg_ok s" using assms(1) by (simp add: segs_wf_def)
  have loop: "ikcp_peek_loop (rcv_queue k) 0 = int (length (message_bytes (rcv_queue k)))"
    using peek_loop_spec [OF ok, of 0] assms(2) by simp
  show ?thesis
  proof (cases "seg_frg s = 0")
    case True
    then have "ikcp_peeksize k = ikcp_peek_loop (rcv_queue k) 0"
      by (simp add: ikcp_peeksize_def q to_u32_def)
    with True loop show ?thesis by (simp add: head_incomplete_def q)
  next
    case False
    then show ?thesis using loop by (auto simp: ikcp_peeksize_def q head_incomplete_def)
  qed
qed

text \<open>The state after the merge: the move loop and the window announcement.\<close>

definition recv_settle :: "bool \<Rightarrow> kcpcb \<Rightarrow> kcpcb" where
  "recv_settle recover k =
     (let k = ikcp_move_ready k
      in if nrcv_que k < rcv_wnd k \<and> recover then k\<lparr>probe := probe k OR IKCP_ASK_TELL\<rparr> else k)"

lemma recv_settle_wf: "kcp_wf k \<Longrightarrow> kcp_wf (recv_settle c k)"
  by (simp add: recv_settle_def Let_def move_ready_wf)

lemma recv_delivers:
  assumes wf: "kcp_wf k" and q: "queued_bytes (rcv_queue k) < 2147483648"
    and ne: "rcv_queue k \<noteq> []" "\<not> head_incomplete k"
    and len: "\<bar>len\<bar> < 2147483648" "int (length (message_bytes (rcv_queue k))) \<le> \<bar>len\<bar>"
  shows "ikcp_recv k True len =
    Some (int (length (message_bytes (rcv_queue k))), message_bytes (rcv_queue k),
      recv_settle (nrcv_que k \<ge> rcv_wnd k)
        (if len < 0 then k
         else k\<lparr>rcv_queue := after_message (rcv_queue k),
                nrcv_que := nrcv_que k - of_nat (length (head_message (rcv_queue k)))\<rparr>))"
proof -
  have ok: "\<forall>s \<in> set (rcv_queue k). seg_ok s" using kcp_wfD(6) [OF wf] by (simp add: segs_wf_def)
  let ?m = "ikcp_recv_merge (len < 0) True (rcv_queue k) k 0 []"
  have 1: "fst ?m = int (length (message_bytes (rcv_queue k)))"
    using peek_loop_spec [OF ok, of 0] q by (simp add: merge_len)
  have 2: "snd ?m = (message_bytes (rcv_queue k), if len < 0 then k
     else k\<lparr>rcv_queue := after_message (rcv_queue k),
            nrcv_que := nrcv_que k - of_nat (length (head_message (rcv_queue k)))\<rparr>)"
    using recv_merge_spec [OF ok refl] by simp
  have 3: "(if len < 0 then s32 (- len) else len) = \<bar>len\<bar>" using len(1) by (auto simp: s32_id)
  have 4: "?m = (int (length (message_bytes (rcv_queue k))), message_bytes (rcv_queue k),
     if len < 0 then k
     else k\<lparr>rcv_queue := after_message (rcv_queue k),
            nrcv_que := nrcv_que k - of_nat (length (head_message (rcv_queue k)))\<rparr>)"
    by (rule prod_eqI) (simp_all only: 1 2 fst_conv snd_conv)
  show ?thesis
    unfolding ikcp_recv_def Let_def 3 4 peeksize_spec [OF kcp_wfD(6) [OF wf] q ne(1)] recv_settle_def
    using ne len(2) by simp
qed

lemma recv_refuses:
  assumes wf: "kcp_wf k" and q: "queued_bytes (rcv_queue k) < 2147483648" and len: "\<bar>len\<bar> < 2147483648"
  shows "rcv_queue k = [] \<Longrightarrow> ikcp_recv k b len = Some (-1, [], k)"
    and "rcv_queue k \<noteq> [] \<Longrightarrow> head_incomplete k \<Longrightarrow> ikcp_recv k b len = Some (-2, [], k)"
    and "rcv_queue k \<noteq> [] \<Longrightarrow> \<not> head_incomplete k \<Longrightarrow>
      \<bar>len\<bar> < int (length (message_bytes (rcv_queue k))) \<Longrightarrow> ikcp_recv k b len = Some (-3, [], k)"
proof -
  have 3: "(if len < 0 then s32 (- len) else len) = \<bar>len\<bar>" using len(1) by (auto simp: s32_id)
  note p = peeksize_spec [OF kcp_wfD(6) [OF wf] q]
  show "rcv_queue k = [] \<Longrightarrow> ikcp_recv k b len = Some (-1, [], k)"
    by (simp add: ikcp_recv_def)
  show "rcv_queue k \<noteq> [] \<Longrightarrow> head_incomplete k \<Longrightarrow> ikcp_recv k b len = Some (-2, [], k)"
    by (simp add: ikcp_recv_def p)
  show "rcv_queue k \<noteq> [] \<Longrightarrow> \<not> head_incomplete k \<Longrightarrow>
      \<bar>len\<bar> < int (length (message_bytes (rcv_queue k))) \<Longrightarrow> ikcp_recv k b len = Some (-3, [], k)"
    unfolding ikcp_recv_def Let_def 3 by (simp add: p)
qed

text \<open>
  C14: \<^verbatim>\<open>ikcp_recv\<close> with a buffer of \<open>len\<close> bytes (a negative \<open>len\<close> only peeks). An empty queue is
  \<open>-1\<close>, an incomplete first message \<open>-2\<close>, a buffer that is too small \<open>-3\<close>, all without any
  change; otherwise exactly the bytes of the first message are written, never more than \<open>len\<close>,
  its segments leave the queue unless the call peeks, a ready prefix \<open>d\<close> of the reordering buffer
  follows, and a window that was full and has room again is announced to the peer.
\<close>

theorem recv_message:
  assumes wf: "kcp_wf k" and q: "queued_bytes (rcv_queue k) < 2147483648"
    and len: "\<bar>len\<bar> < 2147483648"
  shows "let msg = message_bytes (rcv_queue k);
             rest = (if len < 0 then rcv_queue k else after_message (rcv_queue k)) in
    if rcv_queue k = [] then ikcp_recv k True len = Some (-1, [], k)
    else if head_incomplete k then ikcp_recv k True len = Some (-2, [], k)
    else if \<bar>len\<bar> < int (length msg) then ikcp_recv k True len = Some (-3, [], k)
    else \<exists>k' d. ikcp_recv k True len = Some (int (length msg), msg, k') \<and>
      rcv_queue k' = rest @ d \<and> rcv_buf k = d @ rcv_buf k' \<and> ready_stuck k' \<and>
      (nrcv_que k \<ge> rcv_wnd k \<and> nrcv_que k' < rcv_wnd k' \<longrightarrow> probe k' = probe k OR IKCP_ASK_TELL)"
proof -
  define k1 where "k1 = (if len < 0 then k
     else k\<lparr>rcv_queue := after_message (rcv_queue k),
            nrcv_que := nrcv_que k - of_nat (length (head_message (rcv_queue k)))\<rparr>)"
  have k1: "rcv_buf k1 = rcv_buf k" "probe k1 = probe k"
     "rcv_queue k1 = (if len < 0 then rcv_queue k else after_message (rcv_queue k))"
    by (simp_all add: k1_def)
  have settle: "\<exists>d. rcv_queue (recv_settle c k1) = rcv_queue k1 @ d \<and>
      rcv_buf k1 = d @ rcv_buf (recv_settle c k1) \<and> ready_stuck (recv_settle c k1) \<and>
      (c \<and> nrcv_que (recv_settle c k1) < rcv_wnd (recv_settle c k1) \<longrightarrow>
        probe (recv_settle c k1) = probe k1 OR IKCP_ASK_TELL)" for c
    using move_ready_spec [of k1] by (auto simp: recv_settle_def Let_def ready_stuck_def)
  consider "rcv_queue k = []" | "rcv_queue k \<noteq> []" "head_incomplete k"
    | "rcv_queue k \<noteq> []" "\<not> head_incomplete k" "\<bar>len\<bar> < int (length (message_bytes (rcv_queue k)))"
    | "rcv_queue k \<noteq> []" "\<not> head_incomplete k" "int (length (message_bytes (rcv_queue k))) \<le> \<bar>len\<bar>"
    by linarith
  then show ?thesis
  proof cases
    case 4
    from recv_delivers [OF wf q 4(1,2) len 4(3), folded k1_def] 4
      settle [of "nrcv_que k \<ge> rcv_wnd k"]
    show ?thesis by (auto simp: Let_def k1)
  qed (simp_all add: recv_refuses [OF wf q len])
qed

definition one_message :: kcpcb where
  "one_message = kcp0\<lparr>rcv_queue := [seg0\<lparr>seg_len := 2, seg_data := [1, 2]\<rparr>], nrcv_que := 1\<rparr>"

lemma one_message_wf [simp]: "kcp_wf one_message"
proof -
  have "kcp_wf kcp0" by simp
  then show ?thesis
    by (simp add: one_message_def kcp_wf_defs seg_ok_def seg0_def del: kcp0_wf)
qed

theorem recv_message_witness:
  "(\<exists>k'. ikcp_recv one_message True 10 = Some (2, [1, 2], k')) \<and>
   ikcp_recv one_message True 1 = Some (-3, [], one_message) \<and>
   ikcp_recv kcp0 True 10 = Some (-1, [], kcp0)"
proof -
  have q: "queued_bytes (rcv_queue one_message) = 2" "queued_bytes [] = 0"
    "message_bytes (rcv_queue one_message) = [1, 2]" "\<not> head_incomplete one_message"
    "rcv_queue one_message \<noteq> []"
    by (simp_all add: one_message_def queued_bytes_def message_bytes_def head_incomplete_def seg0_def)
  show ?thesis
    using recv_message [of one_message 10] recv_message [of one_message 1] recv_message [of kcp0 10]
    by (auto simp: q Let_def)
qed

lemma recv_merge_state:
  assumes "rcv_queue k = q"
  shows "snd (snd (ikcp_recv_merge ispeek has_buf q k l out)) =
    (if ispeek then k
     else k\<lparr>rcv_queue := after_message q, nrcv_que := nrcv_que k - of_nat (length (head_message q))\<rparr>)"
proof (cases ispeek)
  case True
  have "snd (snd (ikcp_recv_merge True has_buf q kk l out)) = kk" for kk l out
    by (induction q arbitrary: l out) (simp_all add: Let_def)
  with True show ?thesis by simp
next
  case False
  then show ?thesis
    using assms
  proof (induction q arbitrary: k l out)
    case Nil
    then show ?case by (simp add: after_message_def)
  next
    case (Cons s q)
    have "rcv_queue (k\<lparr>rcv_queue := q, nrcv_que := nrcv_que k - 1\<rparr>) = q" by simp
    with Cons show ?case by (simp add: Let_def after_message_Cons algebra_simps)
  qed
qed

text \<open>Every call leaves the state alone or settles after taking a message or nothing.\<close>

lemma recv_wf:
  assumes wf: "kcp_wf k" and call: "ikcp_recv k has_buf len = Some (r, out, k')"
  shows "kcp_wf k'"
proof -
  obtain a b k1 where m: "ikcp_recv_merge (len < 0) has_buf (rcv_queue k) k 0 [] = (a, b, k1)"
    by (metis prod.exhaust)
  then have "kcp_wf k1"
    using recv_merge_state [OF refl, of "len < 0" has_buf k 0 "[]"] wf drop_message_wf [OF wf]
    by (auto split: if_splits)
  moreover have "k' = k \<or> (\<exists>c. k' = recv_settle c k1)"
    using call m by (auto simp: ikcp_recv_def Let_def recv_settle_def split: if_splits)
  ultimately show ?thesis using wf recv_settle_wf by blast
qed

end
