(* ===== verification/Kcp_Ack.thy ===== *)
theory Kcp_Ack
  imports Kcp_State
begin

text \<open>
  What an acknowledgement does: the round-trip estimator \<^verbatim>\<open>ikcp_update_ack\<close>, the removal of
  acknowledged segments from \<^verbatim>\<open>snd_buf\<close> (\<^verbatim>\<open>ikcp_parse_ack\<close>, \<^verbatim>\<open>ikcp_parse_una\<close>,
  \<^verbatim>\<open>ikcp_shrink_buf\<close>), the fast-retransmit counters (\<^verbatim>\<open>ikcp_parse_fastack\<close>, with
  \<^verbatim>\<open>IKCP_FASTACK_CONSERVE\<close> as the source defines it), and the growing array of acknowledgements
  to send (\<^verbatim>\<open>ikcp_ack_push\<close>, \<^verbatim>\<open>ikcp_ack_get\<close>).
\<close>

section \<open>The model\<close>

text \<open>
  C's division truncates (\<open>sdiv\<close>); \<^verbatim>\<open>int\<close> subexpressions wrap where the compiled code does
  (\<open>delta\<close> is a 64-bit \<^verbatim>\<open>long\<close> and does not).
\<close>

definition ikcp_update_ack :: "kcpcb \<Rightarrow> int \<Rightarrow> kcpcb" where
  "ikcp_update_ack k rtt =
     (let k = (if rx_srtt k = 0
               then k\<lparr>rx_srtt := rtt, rx_rttval := rtt sdiv 2\<rparr>
               else
                 let delta = rtt - rx_srtt k;
                     delta = (if delta < 0 then - delta else delta);
                     k = k\<lparr>rx_rttval := s32 ((s32 (3 * rx_rttval k) + delta) sdiv 4)\<rparr>;
                     k = k\<lparr>rx_srtt := s32 (s32 (7 * rx_srtt k) + rtt) sdiv 8\<rparr>
                 in if rx_srtt k < 1 then k\<lparr>rx_srtt := 1\<rparr> else k);
          rto = sint (to_u32 (rx_srtt k) + imax (interval k) (to_u32 (4 * rx_rttval k)))
      in k\<lparr>rx_rto := sint (ibound (to_u32 (rx_minrto k)) (to_u32 rto) IKCP_RTO_MAX)\<rparr>)"

definition ikcp_shrink_buf :: "kcpcb \<Rightarrow> kcpcb" where
  "ikcp_shrink_buf k =
     (case snd_buf k of seg # _ \<Rightarrow> k\<lparr>snd_una := seg_sn seg\<rparr> | [] \<Rightarrow> k\<lparr>snd_una := snd_nxt k\<rparr>)"

text \<open>The loops over \<^verbatim>\<open>snd_buf\<close> return the rest of the buffer and the updated \<^verbatim>\<open>nsnd_buf\<close>.\<close>

fun ikcp_parse_ack_loop :: "u32 \<Rightarrow> ikcpseg list \<Rightarrow> u32 \<Rightarrow> ikcpseg list \<times> u32" where
  "ikcp_parse_ack_loop sn [] n = ([], n)"
| "ikcp_parse_ack_loop sn (seg # p) n =
     (if sn = seg_sn seg then (p, n - 1)
      else if itimediff sn (seg_sn seg) < 0 then (seg # p, n)
      else let (q, n) = ikcp_parse_ack_loop sn p n in (seg # q, n))"

definition ikcp_parse_ack :: "kcpcb \<Rightarrow> u32 \<Rightarrow> kcpcb" where
  "ikcp_parse_ack k sn =
     (if itimediff sn (snd_una k) < 0 \<or> itimediff sn (snd_nxt k) \<ge> 0 then k
      else let (q, n) = ikcp_parse_ack_loop sn (snd_buf k) (nsnd_buf k)
           in k\<lparr>snd_buf := q, nsnd_buf := n\<rparr>)"

fun ikcp_parse_una_loop :: "u32 \<Rightarrow> ikcpseg list \<Rightarrow> u32 \<Rightarrow> ikcpseg list \<times> u32" where
  "ikcp_parse_una_loop una [] n = ([], n)"
| "ikcp_parse_una_loop una (seg # p) n =
     (if itimediff una (seg_sn seg) > 0 then ikcp_parse_una_loop una p (n - 1) else (seg # p, n))"

definition ikcp_parse_una :: "kcpcb \<Rightarrow> u32 \<Rightarrow> kcpcb" where
  "ikcp_parse_una k una =
     (let (q, n) = ikcp_parse_una_loop una (snd_buf k) (nsnd_buf k)
      in k\<lparr>snd_buf := q, nsnd_buf := n\<rparr>)"

fun ikcp_parse_fastack_loop :: "u32 \<Rightarrow> u32 \<Rightarrow> ikcpseg list \<Rightarrow> ikcpseg list" where
  "ikcp_parse_fastack_loop sn ts [] = []"
| "ikcp_parse_fastack_loop sn ts (seg # p) =
     (if itimediff sn (seg_sn seg) < 0 then seg # p
      else (if sn \<noteq> seg_sn seg
            then if itimediff ts (seg_ts seg) \<ge> 0 then seg\<lparr>seg_fastack := seg_fastack seg + 1\<rparr> else seg
            else seg) # ikcp_parse_fastack_loop sn ts p)"

definition ikcp_parse_fastack :: "kcpcb \<Rightarrow> u32 \<Rightarrow> u32 \<Rightarrow> kcpcb" where
  "ikcp_parse_fastack k sn ts =
     (if itimediff sn (snd_una k) < 0 \<or> itimediff sn (snd_nxt k) \<ge> 0 then k
      else k\<lparr>snd_buf := ikcp_parse_fastack_loop sn ts (snd_buf k)\<rparr>)"

text \<open>
  \<^verbatim>\<open>for (newblock = 8; newblock < newsize; newblock <<= 1)\<close>: the shift drops the top bit, so
  the loop need not end; \<^const>\<open>None\<close> is the loop that does not.
\<close>

partial_function (option) ikcp_ack_newblock :: "u32 \<Rightarrow> u32 \<Rightarrow> u32 option" where
  "ikcp_ack_newblock newsize newblock =
     (if newblock < newsize then ikcp_ack_newblock newsize (push_bit 1 newblock) else Some newblock)"

definition ikcp_ack_push :: "kcpcb \<Rightarrow> u32 \<Rightarrow> u32 \<Rightarrow> kcpcb option" where
  "ikcp_ack_push k sn ts =
     do {
       let newsize = ackcount k + 1;
       k \<leftarrow> (if newsize > ackblock k
             then do {
               newblock \<leftarrow> ikcp_ack_newblock newsize 8;
               let copied = take (2 * unat (ackcount k)) (acklist k);
               let fresh = copied @ replicate (2 * unat newblock - length copied) None;
               Some (k\<lparr>acklist := fresh, ackblock := newblock\<rparr>)
             }
             else Some k);
       let p = 2 * unat (ackcount k);
       Some (k\<lparr>acklist := (acklist k)[p := Some sn, p + 1 := Some ts], ackcount := ackcount k + 1\<rparr>)
     }"

definition ikcp_ack_get :: "kcpcb \<Rightarrow> nat \<Rightarrow> (u32 \<times> u32) option" where
  "ikcp_ack_get k p =
     (if p * 2 + 1 < length (acklist k)
      then do {
        sn \<leftarrow> acklist k ! (p * 2 + 0);
        ts \<leftarrow> acklist k ! (p * 2 + 1);
        Some (sn, ts)
      }
      else None)"

section \<open>The round-trip estimator\<close>

lemma ibound_nat:
  "unat l \<le> unat u \<Longrightarrow> unat l \<le> unat (ibound l m u) \<and> unat (ibound l m u) \<le> unat u"
  by (auto simp: ibound_def imin_def imax_def word_le_nat_alt)

lemma update_ack_frame:
  "\<exists>s v t. ikcp_update_ack k rtt = k\<lparr>rx_srtt := s, rx_rttval := v, rx_rto := t\<rparr>"
  by (auto simp: ikcp_update_ack_def Let_def split: if_splits) (metis kcpcb.surjective kcpcb.update_convs)+

lemma update_ack_rto:
  assumes "rx_minrto k \<in> {30, 100}"
  shows "rx_minrto k \<le> rx_rto (ikcp_update_ack k rtt) \<and> rx_rto (ikcp_update_ack k rtt) \<le> 60000"
proof -
  have "rx_minrto k \<le> sint (ibound (to_u32 (rx_minrto k)) m 60000) \<and> sint (ibound (to_u32 (rx_minrto k)) m 60000) \<le> 60000" for m
  proof -
    have u: "unat (to_u32 (rx_minrto k)) = nat (rx_minrto k)" using assms by (auto simp: unat_to_u32)
    then have "nat (rx_minrto k) \<le> unat (ibound (to_u32 (rx_minrto k)) m 60000)"
      "unat (ibound (to_u32 (rx_minrto k)) m 60000) \<le> 60000"
      using ibound_nat [of "to_u32 (rx_minrto k)" 60000 m] assms by auto
    then show ?thesis using assms by (subst (1 2) sint_small) auto
  qed
  then show ?thesis by (simp add: ikcp_update_ack_def Let_def kcp_defs)
qed

lemma update_ack_wf: "kcp_wf k \<Longrightarrow> kcp_wf (ikcp_update_ack k rtt)"
proof -
  assume wf: "kcp_wf k"
  have m: "rx_minrto k \<in> {30, 100}" using kcp_wfD(5) [OF wf] by (simp add: cfg_wf_def)
  obtain s v t where e: "ikcp_update_ack k rtt = k\<lparr>rx_srtt := s, rx_rttval := v, rx_rto := t\<rparr>"
    using update_ack_frame by blast
  have "30 \<le> t" "t \<le> 60000" using update_ack_rto [OF m, of rtt] m by (auto simp: e)
  then show ?thesis using wf by (auto simp: e kcp_wf_defs)
qed

lemma sdiv_nonneg: "0 \<le> a \<Longrightarrow> 0 < b \<Longrightarrow> a sdiv b = a div b" for a b :: int
  by (cases "a = 0") (simp_all add: signed_divide_int_def)

lemma sint_to_u32: "0 \<le> x \<Longrightarrow> x < 2147483648 \<Longrightarrow> sint (to_u32 x) = x"
  by (subst sint_small) (simp_all add: unat_to_u32)

lemma ibound_sint:
  assumes "0 \<le> l" "l \<le> 60000" "0 \<le> m" "m < 4294967296"
  shows "sint (ibound (to_u32 l) (to_u32 m) 60000) = max l (min 60000 m)"
proof -
  have u: "unat (to_u32 l) = nat l" "unat (to_u32 m) = nat m" using assms by (simp_all add: unat_to_u32)
  then have "unat (ibound (to_u32 l) (to_u32 m) 60000) = nat (max l (min 60000 m))"
    using assms by (auto simp: ibound_def imin_def imax_def word_le_nat_alt)
  then show ?thesis using assms by (subst sint_small) auto
qed

text \<open>
  C27: The estimator computes Jacobson's formulas with integer division while its values stay
  below \<open>2 ^ 28\<close>, which they then keep doing: a first sample sets \<open>srtt\<close> and half of it as the
  variation, a later one moves \<open>srtt\<close> by an eighth and the variation by a quarter, and the
  timeout is \<open>srtt + max interval (4 * rttval)\<close> clamped to \<open>[rx_minrto, 60000]\<close>.
\<close>

theorem rto_estimator:
  assumes wf: "kcp_wf k" and s: "0 \<le> rx_srtt k" "rx_srtt k < 268435456"
    and v: "0 \<le> rx_rttval k" "rx_rttval k < 268435456" and r: "0 \<le> rtt" "rtt < 268435456"
  shows "let k' = ikcp_update_ack k rtt in
    rx_srtt k' = (if rx_srtt k = 0 then rtt else max 1 ((7 * rx_srtt k + rtt) div 8)) \<and>
    rx_rttval k' = (if rx_srtt k = 0 then rtt div 2
                    else (3 * rx_rttval k + \<bar>rtt - rx_srtt k\<bar>) div 4) \<and>
    rx_rto k' = max (rx_minrto k) (min 60000
       (rx_srtt k' + max (int (unat (interval k))) (4 * rx_rttval k'))) \<and>
    0 \<le> rx_srtt k' \<and> rx_srtt k' < 268435456 \<and> 0 \<le> rx_rttval k' \<and> rx_rttval k' < 268435456"
proof -
  define s' where "s' = (if rx_srtt k = 0 then rtt else max 1 ((7 * rx_srtt k + rtt) div 8))"
  define v' where "v' = (if rx_srtt k = 0 then rtt div 2
                    else (3 * rx_rttval k + \<bar>rtt - rx_srtt k\<bar>) div 4)"
  have b: "0 \<le> s'" "s' < 268435456" "0 \<le> v'" "v' < 268435456"
    using s v r by (auto simp: s'_def v'_def)
  have cfg: "rx_minrto k \<in> {30, 100}" "unat (interval k) \<le> 5000"
    using kcp_wfD(5) [OF wf] by (simp_all add: cfg_wf_def)
  have v1: "s32 ((s32 (3 * rx_rttval k) + \<bar>rtt - rx_srtt k\<bar>) sdiv 4) =
      (3 * rx_rttval k + \<bar>rtt - rx_srtt k\<bar>) div 4"
    using s v r by (simp add: s32_id sdiv_nonneg)
  have s1: "s32 (s32 (7 * rx_srtt k) + rtt) sdiv 8 = (7 * rx_srtt k + rtt) div 8"
    using s r by (simp add: s32_id sdiv_nonneg)
  define m where "m = s' + max (int (unat (interval k))) (4 * v')"
  have m: "0 \<le> m" "m < 2147483648" using b cfg by (auto simp: m_def)
  have "unat (to_u32 s' + imax (interval k) (to_u32 (4 * v'))) = nat m"
  proof -
    have u: "unat (to_u32 s') = nat s'" "unat (to_u32 (4 * v')) = nat (4 * v')"
      using b by (auto simp: unat_to_u32)
    then have "unat (imax (interval k) (to_u32 (4 * v'))) = nat (max (int (unat (interval k))) (4 * v'))"
      by (auto simp: imax_def word_le_nat_alt)
    then show ?thesis using u(1) b m cfg by (auto simp: unat_word_ariths m_def nat_add_distrib)
  qed
  then have rto: "sint (to_u32 s' + imax (interval k) (to_u32 (4 * v'))) = m"
    using m by (subst sint_small) auto
  have "ikcp_update_ack k rtt = k\<lparr>rx_srtt := s', rx_rttval := v',
     rx_rto := max (rx_minrto k) (min 60000 m)\<rparr>"
  proof (cases "rx_srtt k = 0")
    case True
    then have sv: "s' = rtt" "v' = rtt sdiv 2" using r by (simp_all add: s'_def v'_def sdiv_nonneg)
    show ?thesis
      using True rto ibound_sint [of "rx_minrto k" m] cfg m
      by (auto simp: ikcp_update_ack_def Let_def kcp_defs sv)
  next
    case False
    have d: "(if rtt - rx_srtt k < 0 then - (rtt - rx_srtt k) else rtt - rx_srtt k) = \<bar>rtt - rx_srtt k\<bar>"
      by auto
    have "ikcp_update_ack k rtt = k\<lparr>rx_rttval := v', rx_srtt := s',
     rx_rto := sint (ibound (to_u32 (rx_minrto k)) (to_u32 (sint (to_u32 s' + imax (interval k) (to_u32 (4 * v'))))) 60000)\<rparr>"
      unfolding ikcp_update_ack_def Let_def d
      using False by (simp add: v1 s1 s'_def v'_def kcp_defs max_def)
    then show ?thesis
      using rto ibound_sint [of "rx_minrto k" m] cfg m by auto
  qed
  then show ?thesis using b by (simp add: Let_def m_def s'_def [symmetric] v'_def [symmetric])
qed

theorem rto_estimator_witness:
  "rx_rto (ikcp_update_ack kcp0 80) = 240"
  using rto_estimator [of kcp0 80] by (simp add: Let_def)

section \<open>Acknowledged segments leave the send buffer\<close>

lemma snd_sn_in_window:
  assumes "kcp_wf k" and "s \<in> set (snd_buf k)"
  shows "seqoff (snd_una k) (seg_sn s) < seqoff (snd_una k) (snd_nxt k)"
    and "seqoff (snd_una k) (seg_sn s) < 65536"
    and "seqoff (snd_una k) (snd_nxt k) < 65536"
  using kcp_wfD(1) [OF assms(1)] assms(2) by (auto simp: snd_core_def)

lemma ack_window_iff:
  assumes "seqoff una nxt < 65536"
  shows "itimediff sn una < 0 \<or> itimediff sn nxt \<ge> 0 \<longleftrightarrow> \<not> seqoff una sn < seqoff una nxt"
proof (cases "seqoff una sn < 2147483648")
  case True
  then have "itimediff sn nxt = int (seqoff una sn) - int (seqoff una nxt)"
    using itimediff_window [of una sn nxt] assms by simp
  moreover have "itimediff sn una \<ge> 0" using True by (simp add: itimediff_nonneg)
  ultimately show ?thesis by auto
next
  case False
  then have "itimediff sn una < 0" by (metis itimediff_nonneg not_less)
  then show ?thesis using False assms by auto
qed

lemma parse_ack_loop_spec:
  assumes "window_sorted r buf" and "seqoff r sn < 2147483648"
  shows "ikcp_parse_ack_loop sn buf n =
    (filter (\<lambda>s. seg_sn s \<noteq> sn) buf,
     if sn \<in> seg_sn ` set buf then n - 1 else n)"
  using assms(1)
proof (induction buf)
  case Nil
  then show ?case by simp
next
  case (Cons seg p)
  have w: "window_sorted r p" "\<forall>t \<in> set p. seqoff r (seg_sn seg) < seqoff r (seg_sn t)"
    "seqoff r (seg_sn seg) < 2147483648"
    using Cons.prems by (simp_all add: window_sorted_Cons)
  have cmp: "itimediff sn (seg_sn seg) = int (seqoff r sn) - int (seqoff r (seg_sn seg))"
    using w(3) assms(2) by (intro itimediff_window)
  have later: "filter (\<lambda>s. seg_sn s \<noteq> sn) p = p \<and> sn \<notin> seg_sn ` set p"
    if "seqoff r sn \<le> seqoff r (seg_sn seg)"
    using that w(2) by (auto intro!: filter_True)
  consider "sn = seg_sn seg" | "sn \<noteq> seg_sn seg" "seqoff r sn < seqoff r (seg_sn seg)"
    | "sn \<noteq> seg_sn seg" "seqoff r (seg_sn seg) < seqoff r sn"
    by (metis seqoff_inject linorder_neqE_nat)
  then show ?case
  proof cases
    case 1
    then show ?thesis using later by simp
  next
    case 2
    then show ?thesis using later cmp by auto
  next
    case 3
    then show ?thesis using Cons.IH [OF w(1)] cmp by auto
  qed
qed

lemma parse_ack_eq:
  assumes "kcp_wf k"
  shows "ikcp_parse_ack k sn = k\<lparr>snd_buf := filter (\<lambda>s. seg_sn s \<noteq> sn) (snd_buf k),
    nsnd_buf := of_nat (length (filter (\<lambda>s. seg_sn s \<noteq> sn) (snd_buf k)))\<rparr>"
proof -
  have core: "snd_core k" using assms by (rule kcp_wfD)
  then have w: "window_sorted (snd_una k) (snd_buf k)" and nx: "seqoff (snd_una k) (snd_nxt k) < 65536"
    and n: "nsnd_buf k = of_nat (length (snd_buf k))"
    by (simp_all add: snd_core_def)
  let ?f = "filter (\<lambda>s. seg_sn s \<noteq> sn)"
  show ?thesis
  proof (cases "seqoff (snd_una k) sn < seqoff (snd_una k) (snd_nxt k)")
    case False
    then have "\<forall>s \<in> set (snd_buf k). seg_sn s \<noteq> sn" using core by (auto simp: snd_core_def)
    then have "?f (snd_buf k) = snd_buf k" by (simp add: filter_id_conv)
    then show ?thesis using False n by (simp add: ikcp_parse_ack_def ack_window_iff [OF nx])
  next
    case True
    then have loop: "ikcp_parse_ack_loop sn (snd_buf k) (nsnd_buf k) = (?f (snd_buf k),
        if sn \<in> seg_sn ` set (snd_buf k) then nsnd_buf k - 1 else nsnd_buf k)"
      using nx by (intro parse_ack_loop_spec [OF w]) simp
    have cnt: "(if sn \<in> seg_sn ` set xs then of_nat (length xs) - 1 else of_nat (length xs)) =
        (of_nat (length (?f xs)) :: u32)" if "distinct (map seg_sn xs)" for xs
      using that
    proof (induction xs)
      case (Cons x xs)
      then show ?case by (cases "seg_sn x = sn") (auto simp: filter_id_conv diff_eq_eq)
    qed simp
    show ?thesis
      using True cnt [OF window_sorted_distinct [OF w]]
      by (simp add: ikcp_parse_ack_def ack_window_iff [OF nx] loop [unfolded n] n)
  qed
qed

lemma parse_una_loop_spec:
  "ikcp_parse_una_loop una buf (of_nat (length buf)) =
     (let q = dropWhile (\<lambda>s. itimediff una (seg_sn s) > 0) buf in (q, of_nat (length q)))"
  by (induction buf) (simp_all add: Let_def)

lemma parse_una_eq:
  assumes "kcp_wf k"
  shows "ikcp_parse_una k una =
    (let q = dropWhile (\<lambda>s. itimediff una (seg_sn s) > 0) (snd_buf k)
     in k\<lparr>snd_buf := q, nsnd_buf := of_nat (length q)\<rparr>)"
proof -
  have "nsnd_buf k = of_nat (length (snd_buf k))"
    using kcp_wfD(1) [OF assms] by (simp add: snd_core_def)
  then show ?thesis by (simp add: ikcp_parse_una_def parse_una_loop_spec Let_def)
qed

lemma dropWhile_una:
  assumes "window_sorted r buf" and "seqoff r una < 2147483648"
  shows "dropWhile (\<lambda>s. itimediff una (seg_sn s) > 0) buf =
    filter (\<lambda>s. seqoff r una \<le> seqoff r (seg_sn s)) buf"
  using assms(1)
proof (induction buf)
  case Nil
  then show ?case by simp
next
  case (Cons seg p)
  have w: "window_sorted r p" "\<forall>t \<in> set p. seqoff r (seg_sn seg) < seqoff r (seg_sn t)"
    "seqoff r (seg_sn seg) < 2147483648"
    using Cons.prems by (simp_all add: window_sorted_Cons)
  have cmp: "itimediff una (seg_sn seg) = int (seqoff r una) - int (seqoff r (seg_sn seg))"
    using w(3) assms(2) by (intro itimediff_window)
  have "filter (\<lambda>s. seqoff r una \<le> seqoff r (seg_sn s)) p = p"
    if "seqoff r una \<le> seqoff r (seg_sn seg)"
    using that w(2) by (intro filter_True ballI) force
  then show ?case using Cons.IH [OF w(1)] cmp by auto
qed

text \<open>Whatever is removed, \<open>ikcp_shrink_buf\<close> restores the invariant.\<close>

lemma shrink_wf:
  assumes wf: "kcp_wf k" and q: "window_sorted (snd_una k) q" "set q \<subseteq> set (snd_buf k)"
  shows "kcp_wf (ikcp_shrink_buf (k\<lparr>snd_buf := q, nsnd_buf := of_nat (length q)\<rparr>))"
proof -
  have core: "snd_core k" using wf by (rule kcp_wfD)
  define una where "una = first_sn (snd_nxt k) q"
  have e: "ikcp_shrink_buf (k\<lparr>snd_buf := q, nsnd_buf := of_nat (length q)\<rparr>) =
      k\<lparr>snd_buf := q, nsnd_buf := of_nat (length q), snd_una := una\<rparr>"
    by (simp add: ikcp_shrink_buf_def una_def first_sn_def split: list.split)
  have lo: "\<forall>s \<in> set q. seqoff (snd_una k) una \<le> seqoff (snd_una k) (seg_sn s)"
    using q(1) by (cases q) (auto simp: una_def first_sn_def window_sorted_Cons)
  have nx: "seqoff (snd_una k) una \<le> seqoff (snd_una k) (snd_nxt k)"
    using q(2) core by (cases q) (auto simp: una_def first_sn_def snd_core_def)
  have w: "window_sorted una q" by (rule window_sorted_advance [OF q(1) lo])
  have nx': "seqoff una (snd_nxt k) = seqoff (snd_una k) (snd_nxt k) - seqoff (snd_una k) una"
    by (rule seqoff_shift_base [OF nx])
  have "seqoff una (seg_sn s) < seqoff una (snd_nxt k)" if "s \<in> set q" for s
  proof -
    have "seqoff (snd_una k) (seg_sn s) < seqoff (snd_una k) (snd_nxt k)"
      using that q(2) core by (auto simp: snd_core_def)
    then show ?thesis using seqoff_shift_base [of "snd_una k" una "seg_sn s"] lo that nx' by auto
  qed
  then have "snd_core (k\<lparr>snd_buf := q, nsnd_buf := of_nat (length q), snd_una := una\<rparr>)"
    using core w nx' by (simp add: snd_core_def) linarith
  moreover have "una_exact (k\<lparr>snd_buf := q, nsnd_buf := of_nat (length q), snd_una := una\<rparr>)"
    by (simp add: una_exact_def una_ok_def una_def)
  moreover have "segs_wf (k\<lparr>snd_buf := q, nsnd_buf := of_nat (length q), snd_una := una\<rparr>)"
    using q(2) kcp_wfD(6) [OF wf] by (auto simp: segs_wf_def)
  ultimately show ?thesis
    unfolding e using wf by (auto simp: kcp_wf_def rcv_core_def ack_wf_def cfg_wf_def)
qed

lemma window_sorted_filter: "window_sorted r buf \<Longrightarrow> window_sorted r (filter P buf)"
  by (induction buf) (auto simp: window_sorted_Cons)

lemma window_sorted_dropWhile: "window_sorted r buf \<Longrightarrow> window_sorted r (dropWhile P buf)"
  by (induction buf) (auto simp: window_sorted_Cons)

lemma parse_ack_wf:
  assumes "kcp_wf k" shows "kcp_wf (ikcp_shrink_buf (ikcp_parse_ack k sn))"
  unfolding parse_ack_eq [OF assms]
  using kcp_wfD(1) [OF assms] by (intro shrink_wf assms window_sorted_filter) (auto simp: snd_core_def)

lemma parse_una_wf:
  assumes "kcp_wf k" shows "kcp_wf (ikcp_shrink_buf (ikcp_parse_una k una))"
  unfolding parse_una_eq [OF assms] Let_def
  using kcp_wfD(1) [OF assms]
  by (intro shrink_wf assms window_sorted_dropWhile) (auto simp: snd_core_def dest: set_dropWhileD)


text \<open>
  C18: Selective and cumulative acknowledgement. \<open>ikcp_parse_ack\<close> removes exactly the segment
  numbered \<open>sn\<close>, whatever the peer sent as \<open>sn\<close>; \<open>ikcp_parse_una\<close> removes exactly the segments
  below \<open>una\<close>, and none when \<open>una\<close> lies behind \<^verbatim>\<open>snd_una\<close>. The count follows, and after
  \<open>ikcp_shrink_buf\<close> the block is well formed again, with \<^verbatim>\<open>snd_una\<close> the first number in flight.
\<close>

theorem acks_remove_exactly:
  assumes "kcp_wf k"
  shows "snd_buf (ikcp_parse_ack k sn) = filter (\<lambda>s. seg_sn s \<noteq> sn) (snd_buf k) \<and>
    snd_buf (ikcp_parse_una k una) =
      (if seqoff (snd_una k) una < 2147483648
       then filter (\<lambda>s. seqoff (snd_una k) una \<le> seqoff (snd_una k) (seg_sn s)) (snd_buf k)
       else snd_buf k) \<and>
    kcp_wf (ikcp_shrink_buf (ikcp_parse_ack k sn)) \<and> kcp_wf (ikcp_shrink_buf (ikcp_parse_una k una))"
proof -
  have core: "window_sorted (snd_una k) (snd_buf k)"
    using kcp_wfD(1) [OF assms] by (simp add: snd_core_def)
  have "dropWhile (\<lambda>s. itimediff una (seg_sn s) > 0) (snd_buf k) = snd_buf k"
    if "\<not> seqoff (snd_una k) una < 2147483648"
  proof (cases "snd_buf k")
    case (Cons seg p)
    then have "snd_una k = seg_sn seg"
      using kcp_wfD(2) [OF assms] by (simp add: una_exact_def una_ok_def first_sn_def)
    then have "itimediff una (seg_sn seg) < 0" using that by (metis itimediff_nonneg not_less)
    then show ?thesis using Cons by simp
  qed simp
  then show ?thesis
    using dropWhile_una [OF core, of una] parse_ack_wf [OF assms] parse_una_wf [OF assms]
    by (simp add: parse_ack_eq [OF assms] parse_una_eq [OF assms] Let_def)
qed

text \<open>Three segments in flight.\<close>

definition three_in_flight :: kcpcb where
  "three_in_flight = kcp0\<lparr>snd_nxt := 3, nsnd_buf := 3,
     snd_buf := [seg0, seg0\<lparr>seg_sn := 1\<rparr>, seg0\<lparr>seg_sn := 2\<rparr>]\<rparr>"

lemma three_in_flight_wf [simp]: "kcp_wf three_in_flight"
proof -
  have "kcp_wf kcp0" by simp
  then show ?thesis
    by (simp add: three_in_flight_def kcp_wf_defs seg_ok_def seg0_def window_sorted_def seqoff_def
        una_ok_def first_sn_def del: kcp0_wf)
qed

theorem acks_remove_exactly_witness:
  "map seg_sn (snd_buf (ikcp_parse_ack three_in_flight 1)) = [0, 2] \<and>
   map seg_sn (snd_buf (ikcp_parse_una three_in_flight 2)) = [2]"
  using acks_remove_exactly [OF three_in_flight_wf, of 1 2]
  by (simp add: three_in_flight_def seg0_def seqoff_def)

section \<open>Fast retransmit counters\<close>

lemma fastack_loop_spec:
  assumes "window_sorted r buf" and "seqoff r sn < 2147483648"
  shows "ikcp_parse_fastack_loop sn ts buf =
    map (\<lambda>s. if seqoff r (seg_sn s) < seqoff r sn \<and> itimediff ts (seg_ts s) \<ge> 0
             then s\<lparr>seg_fastack := seg_fastack s + 1\<rparr> else s) buf"
  using assms(1)
proof (induction buf)
  case Nil
  then show ?case by simp
next
  case (Cons seg p)
  have w: "window_sorted r p" "\<forall>t \<in> set p. seqoff r (seg_sn seg) < seqoff r (seg_sn t)"
    "seqoff r (seg_sn seg) < 2147483648"
    using Cons.prems by (simp_all add: window_sorted_Cons)
  have cmp: "itimediff sn (seg_sn seg) = int (seqoff r sn) - int (seqoff r (seg_sn seg))"
    using w(3) assms(2) by (intro itimediff_window)
  show ?case
  proof (cases "seqoff r sn < seqoff r (seg_sn seg)")
    case True
    then have "\<not> seqoff r (seg_sn s) < seqoff r sn" if "s \<in> set p" for s
      using w(2) that by fastforce
    then have "map (\<lambda>s. if seqoff r (seg_sn s) < seqoff r sn \<and> itimediff ts (seg_ts s) \<ge> 0
        then s\<lparr>seg_fastack := seg_fastack s + 1\<rparr> else s) p = p"
      by (intro map_idI) simp
    then show ?thesis using True cmp by simp
  next
    case False
    then show ?thesis
      using Cons.IH [OF w(1)] cmp seqoff_inject [of r sn "seg_sn seg"] by auto
  qed
qed

text \<open>
  \<open>ikcp_parse_fastack\<close> counts one more overtaking acknowledgement for exactly the segments in
  flight that precede \<open>sn\<close> and were sent no later than \<open>ts\<close> (so a retransmission is not blamed
  for an older acknowledgement), and changes nothing when \<open>sn\<close> is not in flight.
\<close>

theorem fastack_counts_overtaken:
  assumes "kcp_wf k"
  shows "ikcp_parse_fastack k sn ts =
    (if seqoff (snd_una k) sn < seqoff (snd_una k) (snd_nxt k)
     then k\<lparr>snd_buf := map (\<lambda>s. if seqoff (snd_una k) (seg_sn s) < seqoff (snd_una k) sn \<and>
                                 itimediff ts (seg_ts s) \<ge> 0
             then s\<lparr>seg_fastack := seg_fastack s + 1\<rparr> else s) (snd_buf k)\<rparr>
     else k)"
proof -
  have w: "window_sorted (snd_una k) (snd_buf k)" and nx: "seqoff (snd_una k) (snd_nxt k) < 65536"
    using kcp_wfD(1) [OF assms] by (simp_all add: snd_core_def)
  show ?thesis
    using fastack_loop_spec [OF w, of sn ts] nx
    by (auto simp: ikcp_parse_fastack_def ack_window_iff [OF nx])
qed

theorem fastack_counts_overtaken_witness:
  "map seg_fastack (snd_buf (ikcp_parse_fastack three_in_flight 2 5)) = [1, 1, 0]"
  using fastack_counts_overtaken [OF three_in_flight_wf, of 2 5]
  by (simp add: three_in_flight_def seg0_def seqoff_def itimediff_def)

lemma kcp_wf_snd_buf_map:
  assumes wf: "kcp_wf k" and sn: "\<And>s. seg_sn (f s) = seg_sn s" and ok: "\<And>s. seg_ok s \<Longrightarrow> seg_ok (f s)"
  shows "kcp_wf (k\<lparr>snd_buf := map f (snd_buf k)\<rparr>)"
proof -
  have "una_ok (snd_una k) (snd_nxt k) (map f (snd_buf k))"
    using kcp_wfD(2) [OF wf] by (cases "snd_buf k") (simp_all add: una_exact_def una_ok_def first_sn_def sn)
  then show ?thesis
    using wf by (auto simp: kcp_wf_defs window_sorted_map sn intro: ok)
qed

lemma parse_fastack_wf:
  assumes wf: "kcp_wf k" shows "kcp_wf (ikcp_parse_fastack k sn ts)"
proof -
  have w: "window_sorted (snd_una k) (snd_buf k)" and nx: "seqoff (snd_una k) (snd_nxt k) < 65536"
    using kcp_wfD(1) [OF wf] by (simp_all add: snd_core_def)
  have "kcp_wf (k\<lparr>snd_buf := ikcp_parse_fastack_loop sn ts (snd_buf k)\<rparr>)"
    if "seqoff (snd_una k) sn < seqoff (snd_una k) (snd_nxt k)"
    using that nx by (subst fastack_loop_spec [OF w]) (auto intro!: kcp_wf_snd_buf_map wf simp: seg_ok_def)
  then show ?thesis
    using wf by (auto simp: ikcp_parse_fastack_def ack_window_iff [OF nx])
qed

section \<open>The list of acknowledgements to send\<close>

definition pow2_word :: "u32 \<Rightarrow> bool" where
  "pow2_word w \<longleftrightarrow> w = 0 \<or> (\<exists>i < 32. unat w = 2 ^ i)"

lemma unat_double: "unat (push_bit 1 w :: u32) = (unat w * 2) mod 4294967296"
  by (simp add: push_bit_eq_mult unat_word_ariths)

lemma pow2_word_double: "pow2_word w \<Longrightarrow> pow2_word (push_bit 1 w)"
proof -
  assume "pow2_word w"
  then consider "w = 0" | i where "i < 32" "unat w = 2 ^ i" by (auto simp: pow2_word_def)
  then show ?thesis
  proof cases
    case 1
    then show ?thesis by (simp add: pow2_word_def)
  next
    case 2
    show ?thesis
    proof (cases "i = 31")
      case True
      then have "unat (push_bit 1 w) = 0" unfolding unat_double 2 by simp
      then have "push_bit 1 w = 0" by (simp only: unat_eq_0)
      then show ?thesis by (simp add: pow2_word_def)
    next
      case False
      then have i: "Suc i < 32" using 2 by simp
      then have "(2::nat) ^ Suc i < 2 ^ 32" by (intro power_strict_increasing) simp_all
      then have "unat (push_bit 1 w) = 2 ^ Suc i" unfolding unat_double 2 by simp
      then show ?thesis using i unfolding pow2_word_def by blast
    qed
  qed
qed

lemma pow2_word_le: "pow2_word w \<Longrightarrow> unat w \<le> 2147483648"
proof -
  assume "pow2_word w"
  then consider "w = 0" | i where "i < 32" "unat w = 2 ^ i" by (auto simp: pow2_word_def)
  then show ?thesis
  proof cases
    case 2
    then have "(2::nat) ^ i \<le> 2 ^ 31" by (intro power_increasing) simp_all
    then show ?thesis using 2 by simp
  qed simp
qed

lemma pow2_word_8: "pow2_word 8"
  unfolding pow2_word_def by (rule disjI2, rule exI [of _ 3]) simp

lemma ack_newblock_sound:
  assumes "ikcp_ack_newblock newsize b = Some r"
  shows "newsize \<le> r \<and> (pow2_word b \<longrightarrow> pow2_word r)"
proof (rule ikcp_ack_newblock.raw_induct [OF _ assms])
  fix rec a b r
  assume IH: "\<And>a b r. rec a b = Some r \<Longrightarrow> a \<le> r \<and> (pow2_word b \<longrightarrow> pow2_word r)"
    and step: "(if b < a then rec a (push_bit 1 b) else Some b) = Some r"
  show "a \<le> r \<and> (pow2_word b \<longrightarrow> pow2_word r)"
  proof (cases "b < a")
    case True
    then have "rec a (push_bit 1 b) = Some r" using step by simp
    from IH [OF this] show ?thesis using pow2_word_double by blast
  next
    case False
    then show ?thesis using step by simp
  qed
qed

lemma ack_newblock_total:
  assumes "unat newsize \<le> 2147483648" and "i \<le> 31" and "unat b = 2 ^ i"
  shows "\<exists>r. ikcp_ack_newblock newsize b = Some r \<and> newsize \<le> r \<and> (r = b \<or> unat r < 2 * unat newsize)"
  using assms(2,3)
proof (induction "31 - i" arbitrary: i b)
  case 0
  then have "unat b = 2147483648" by simp
  then have "\<not> b < newsize" using assms(1) by (simp add: word_less_nat_alt)
  then show ?case by (subst ikcp_ack_newblock.simps) simp
next
  case (Suc n)
  show ?case
  proof (cases "b < newsize")
    case False
    then show ?thesis by (subst ikcp_ack_newblock.simps) simp
  next
    case True
    have i: "n = 31 - Suc i" "Suc i \<le> 31" using Suc.hyps(2) by simp_all
    then have "(2::nat) ^ Suc i < 2 ^ 32" by (intro power_strict_increasing) simp_all
    then have u: "unat (push_bit 1 b) = 2 ^ Suc i" unfolding unat_double Suc.prems(2) by simp
    then have "unat (push_bit 1 b) < 2 * unat newsize"
      using True Suc.prems(2) by (simp add: word_less_nat_alt)
    then show ?thesis
      using Suc.hyps(1) [OF i u] True by (subst ikcp_ack_newblock.simps) auto
  qed
qed

text \<open>The acknowledgements that are waiting, as pairs of sequence number and time stamp.\<close>

definition acks :: "kcpcb \<Rightarrow> (u32 \<times> u32) list" where
  "acks k = map (\<lambda>i. (the (acklist k ! (2 * i)), the (acklist k ! (2 * i + 1)))) [0..<unat (ackcount k)]"

lemma ack_wf_cells:
  assumes "ack_wf k" and "i < unat (ackcount k)"
  shows "2 * i + 1 < length (acklist k)" "acklist k ! (2 * i) \<noteq> None" "acklist k ! Suc (2 * i) \<noteq> None"
proof -
  have "unat (ackcount k) \<le> unat (ackblock k)"
    using assms(1) by (simp add: ack_wf_def word_le_nat_alt)
  then show "2 * i + 1 < length (acklist k)" using assms by (simp add: ack_wf_def)
  have "2 * i < 2 * unat (ackcount k)" "Suc (2 * i) < 2 * unat (ackcount k)" using assms(2) by simp_all
  then show "acklist k ! (2 * i) \<noteq> None" "acklist k ! Suc (2 * i) \<noteq> None"
    using assms(1) unfolding ack_wf_def by blast+
qed

lemma ack_get_spec:
  assumes "ack_wf k" and "i < unat (ackcount k)"
  shows "ikcp_ack_get k i = Some (acks k ! i)"
  using ack_wf_cells [OF assms] assms(2) by (auto simp: ikcp_ack_get_def acks_def mult.commute)

lemma length_acks: "length (acks k) = unat (ackcount k)"
  by (simp add: acks_def)

text \<open>Writing the next pair into an array that has room for it.\<close>

lemma ack_write:
  assumes "2 * unat (ackcount k) + 1 < length cells" and "unat (ackcount k) + 1 < 4294967296"
    and cells: "\<forall>i < 2 * unat (ackcount k). cells ! i = acklist k ! i \<and> cells ! i \<noteq> None"
    and new: "new = cells[2 * unat (ackcount k) := Some sn, 2 * unat (ackcount k) + 1 := Some ts]"
  shows "acks (k\<lparr>acklist := new, ackblock := blk, ackcount := ackcount k + 1\<rparr>) = acks k @ [(sn, ts)]"
    and "\<forall>i < 2 * unat (ackcount k + 1). new ! i \<noteq> None"
proof -
  let ?n = "unat (ackcount k)"
  have u: "unat (ackcount k + 1) = Suc ?n" using assms(2) by (simp add: unat_word_ariths)
  have filled: "\<forall>i < 2 * ?n. cells ! i \<noteq> None" using cells by blast
  have "cells ! (2 * i) = acklist k ! (2 * i) \<and> cells ! Suc (2 * i) = acklist k ! Suc (2 * i)" if "i < ?n" for i
    using cells that by simp
  then show "acks (k\<lparr>acklist := new, ackblock := blk, ackcount := ackcount k + 1\<rparr>) = acks k @ [(sn, ts)]"
    using assms(1) by (simp add: acks_def u new nth_list_update)
  show "\<forall>i < 2 * unat (ackcount k + 1). new ! i \<noteq> None"
    using assms(1) filled by (auto simp: u new nth_list_update less_Suc_eq)
qed

lemma ack_push_spec:
  assumes wf: "ack_wf k" and n: "unat (ackcount k) < 2147483648"
  shows "\<exists>k' cells blk. ikcp_ack_push k sn ts = Some k' \<and>
    k' = k\<lparr>acklist := cells, ackblock := blk, ackcount := ackcount k + 1\<rparr> \<and>
    ack_wf k' \<and> acks k' = acks k @ [(sn, ts)] \<and>
    (blk = ackblock k \<or> blk = 8 \<or> unat blk < 2 * (unat (ackcount k) + 1))"
proof -
  let ?n = "unat (ackcount k)"
  have u: "unat (ackcount k + 1) = Suc ?n" using n by (simp add: unat_word_ariths)
  have len: "length (acklist k) = 2 * unat (ackblock k)" and cb: "?n \<le> unat (ackblock k)"
    and cells: "\<forall>i < 2 * ?n. acklist k ! i \<noteq> None"
    using wf by (simp_all add: ack_wf_def word_le_nat_alt)
  show ?thesis
  proof (cases "ackcount k + 1 > ackblock k")
    case False
    then have room: "Suc ?n \<le> unat (ackblock k)" by (simp add: word_less_nat_alt u)
    let ?c = "(acklist k)[2 * ?n := Some sn, 2 * ?n + 1 := Some ts]"
    let ?k = "k\<lparr>acklist := ?c, ackblock := ackblock k, ackcount := ackcount k + 1\<rparr>"
    have push: "ikcp_ack_push k sn ts = Some ?k"
      using False by (simp add: ikcp_ack_push_def Let_def)
    have pre: "2 * ?n + 1 < length (acklist k)" "?n + 1 < 4294967296"
      "\<forall>i < 2 * ?n. acklist k ! i = acklist k ! i \<and> acklist k ! i \<noteq> None"
      using room len n cells by auto
    note w = ack_write [OF pre refl, where sn = sn and ts = ts]
    have "ack_wf ?k" using w(2) room len u wf by (simp add: ack_wf_def word_le_nat_alt)
    then show ?thesis using push w(1) by blast
  next
    case True
    have "unat (ackcount k + 1) \<le> 2147483648" using n by (simp add: u)
    then obtain r where r: "ikcp_ack_newblock (ackcount k + 1) 8 = Some r" "ackcount k + 1 \<le> r"
      "r = 8 \<or> unat r < 2 * Suc ?n"
      using ack_newblock_total [of "ackcount k + 1" 3 8] u by auto
    let ?f = "take (2 * ?n) (acklist k) @ replicate (2 * unat r - length (take (2 * ?n) (acklist k))) None"
    let ?c = "?f[2 * ?n := Some sn, 2 * ?n + 1 := Some ts]"
    let ?k = "k\<lparr>acklist := ?c, ackblock := r, ackcount := ackcount k + 1\<rparr>"
    have push: "ikcp_ack_push k sn ts = Some ?k"
      using True r(1) by (simp add: ikcp_ack_push_def Let_def)
    have room: "Suc ?n \<le> unat r" using r(2) by (simp add: word_le_nat_alt u)
    have tl: "length (take (2 * ?n) (acklist k)) = 2 * ?n" using len cb by simp
    then have fl: "length ?f = 2 * unat r" using room by simp
    have pre: "2 * ?n + 1 < length ?f" "?n + 1 < 4294967296"
      "\<forall>i < 2 * ?n. ?f ! i = acklist k ! i \<and> ?f ! i \<noteq> None"
      unfolding fl using room n cells tl by (auto simp: nth_append)
    note w = ack_write [OF pre refl, where sn = sn and ts = ts]
    have "unat r \<le> 2147483648"
      using ack_newblock_sound [OF r(1)] pow2_word_8 pow2_word_le by blast
    then have "ack_wf ?k" using w(2) room fl u by (simp add: ack_wf_def word_le_nat_alt)
    then show ?thesis using push w(1) r(3) by (metis Suc_eq_plus1)
  qed
qed

text \<open>
  C23: The array of acknowledgements is a queue: below \<open>2 ^ 31\<close> entries \<open>ikcp_ack_push\<close> returns, appends
  its pair, keeps the earlier ones (the array may have been replaced by one of less than twice
  the needed size) and changes nothing else that the protocol uses, and \<open>ikcp_ack_get\<close> reads the pairs
  back in order, never an unwritten cell.
\<close>

theorem ack_list_is_a_queue:
  assumes "kcp_wf k" and "unat (ackcount k) < 2147483648"
  shows "\<exists>k'. ikcp_ack_push k sn ts = Some k' \<and> kcp_wf k' \<and> acks k' = acks k @ [(sn, ts)] \<and>
    k' = k\<lparr>acklist := acklist k', ackblock := ackblock k', ackcount := ackcount k + 1\<rparr> \<and>
    map (ikcp_ack_get k') [0..<length (acks k')] = map Some (acks k')"
proof -
  obtain k' cells blk where p: "ikcp_ack_push k sn ts = Some k'"
    "k' = k\<lparr>acklist := cells, ackblock := blk, ackcount := ackcount k + 1\<rparr>"
    "ack_wf k'" "acks k' = acks k @ [(sn, ts)]"
    using ack_push_spec [OF kcp_wfD(4) [OF assms(1)] assms(2), of sn ts] by blast
  have "kcp_wf k'"
    using assms(1) p(2,3)
    by (simp add: kcp_wf_def snd_core_def una_exact_def rcv_core_def cfg_wf_def segs_wf_def)
  moreover have "map (ikcp_ack_get k') [0..<length (acks k')] = map Some (acks k')"
    using ack_get_spec [OF p(3)] by (intro nth_equalityI) (simp_all add: length_acks)
  moreover have "k' = k\<lparr>acklist := acklist k', ackblock := ackblock k', ackcount := ackcount k + 1\<rparr>"
    by (simp add: p(2))
  ultimately show ?thesis using p(1,4) by blast
qed

theorem ack_list_is_a_queue_witness:
  "\<exists>k'. ikcp_ack_push kcp0 5 6 = Some k' \<and> acks k' = [(5, 6)] \<and> ikcp_ack_get k' 0 = Some (5, 6)"
proof -
  have "acks kcp0 = []" by (simp add: acks_def)
  then show ?thesis using ack_list_is_a_queue [OF kcp0_wf, of 5 6] by fastforce
qed

text \<open>
  The doubling loop of \<open>ikcp_ack_push\<close> ends exactly when the wanted size is at most \<open>2 ^ 31\<close>:
  above that the doubled block size becomes 0 and the loop never returns.
\<close>

theorem ack_newblock_returns_iff:
  "(\<exists>r. ikcp_ack_newblock newsize 8 = Some r) \<longleftrightarrow> unat newsize \<le> 2147483648"
proof
  assume "\<exists>r. ikcp_ack_newblock newsize 8 = Some r"
  then obtain r where "newsize \<le> r" "pow2_word r"
    using ack_newblock_sound pow2_word_8 by blast
  then show "unat newsize \<le> 2147483648"
    using pow2_word_le [of r] by (simp add: word_le_nat_alt)
next
  assume "unat newsize \<le> 2147483648"
  then show "\<exists>r. ikcp_ack_newblock newsize 8 = Some r"
    using ack_newblock_total [of newsize 3 8] by auto
qed

end
