(* ===== verification/Kcp_Input.thy ===== *)
theory Kcp_Input
  imports Kcp_Send Kcp_Recv Kcp_Ack
begin

text \<open>
  \<^verbatim>\<open>ikcp_input\<close>: the bytes of one datagram are parsed as a sequence of segments, each of which
  acknowledges, carries data, or probes the window. The result is the return value with the
  new control block; \<^const>\<open>None\<close> would be a read past the end of the datagram or a call that
  never returns (\<^verbatim>\<open>ikcp_ack_push\<close>), which the theorems exclude. \<open>junk\<close> gives the unwritten fields
  of a newly allocated segment.
\<close>

section \<open>The model\<close>

text \<open>The local variables that collect the acknowledgements of one datagram.\<close>

record ack_seen =
  ack_flag :: bool
  ack_maxack :: u32
  ack_latest_ts :: u32

definition ikcp_input_ack :: "kcpcb \<Rightarrow> ack_seen \<Rightarrow> u32 \<Rightarrow> u32 \<Rightarrow> kcpcb \<times> ack_seen" where
  "ikcp_input_ack k a sn ts =
     (let k = (if itimediff (current k) ts \<ge> 0
               then ikcp_update_ack k (itimediff (current k) ts) else k);
          k = ikcp_parse_ack k sn;
          k = ikcp_shrink_buf k;
          a = (if \<not> ack_flag a then a\<lparr>ack_flag := True, ack_maxack := sn, ack_latest_ts := ts\<rparr>
               else if itimediff sn (ack_maxack a) > 0
               then if itimediff ts (ack_latest_ts a) > 0
                    then a\<lparr>ack_maxack := sn, ack_latest_ts := ts\<rparr> else a
               else a)
      in (k, a))"

text \<open>The segment a PUSH creates; the datagram must hold the \<^verbatim>\<open>len\<close> bytes that are copied.\<close>

definition ikcp_input_newseg :: "ikcpseg \<Rightarrow> ikcphdr \<Rightarrow> bytes \<Rightarrow> ikcpseg option" where
  "ikcp_input_newseg junk h data =
     (let seg = ikcp_segment_new junk (nat (sint (hdr_len h)));
          seg = seg\<lparr>seg_conv := hdr_conv h, seg_cmd := ucast (hdr_cmd h), seg_frg := ucast (hdr_frg h),
            seg_wnd := ucast (hdr_wnd h), seg_ts := hdr_ts h, seg_sn := hdr_sn h,
            seg_una := hdr_una h, seg_len := hdr_len h\<rparr>
      in if hdr_len h > 0
         then if length data < unat (hdr_len h) then None
              else Some (seg\<lparr>seg_data := memcpy_at (seg_data seg) 0 data (unat (hdr_len h))\<rparr>)
         else Some seg)"

definition ikcp_input_push :: "ikcpseg \<Rightarrow> kcpcb \<Rightarrow> ikcphdr \<Rightarrow> bytes \<Rightarrow> kcpcb option" where
  "ikcp_input_push junk k h data =
     (let sn = hdr_sn h; ts = hdr_ts h in
      if itimediff sn (rcv_nxt k + rcv_wnd k) < 0 then do {
        k \<leftarrow> ikcp_ack_push k sn ts;
        if itimediff sn (rcv_nxt k) \<ge> 0 then do {
          seg \<leftarrow> ikcp_input_newseg junk h data;
          Some (ikcp_parse_data k seg)
        } else Some k
      } else Some k)"

text \<open>The part of the loop body that follows the checks.\<close>

definition ikcp_input_seg ::
  "ikcpseg \<Rightarrow> kcpcb \<Rightarrow> ack_seen \<Rightarrow> ikcphdr \<Rightarrow> bytes \<Rightarrow> (kcpcb \<times> ack_seen) option" where
  "ikcp_input_seg junk k a h data =
     (let k = k\<lparr>rmt_wnd := ucast (hdr_wnd h)\<rparr>;
          k = ikcp_parse_una k (hdr_una h);
          k = ikcp_shrink_buf k;
          cmd = ucast (hdr_cmd h)
      in if cmd = IKCP_CMD_ACK then Some (ikcp_input_ack k a (hdr_sn h) (hdr_ts h))
         else if cmd = IKCP_CMD_PUSH
         then map_option (\<lambda>k. (k, a)) (ikcp_input_push junk k h data)
         else if cmd = IKCP_CMD_WASK then Some (k\<lparr>probe := probe k OR IKCP_ASK_TELL\<rparr>, a)
         else Some (k, a))"

text \<open>
  The loop: \<open>data\<close> is what follows the data pointer, \<open>left\<close> the count \<^verbatim>\<open>size\<close> that the code keeps. A
  negative code is an early return, 0 the exit by \<^verbatim>\<open>break\<close>.
\<close>

function ikcp_input_loop ::
  "(int \<Rightarrow> ikcpseg) \<Rightarrow> kcpcb \<Rightarrow> ack_seen \<Rightarrow> bytes \<Rightarrow> int \<Rightarrow> (int \<times> kcpcb \<times> ack_seen) option" where
  "ikcp_input_loop junk k a data left =
     (if left < 24 then Some (0, k, a)
      else case ikcp_decode32u data of
        None \<Rightarrow> None
      | Some (conv_id, _) \<Rightarrow>
          if conv_id \<noteq> conv k then Some (-1, k, a)
          else case ikcp_decode_hdr data of
            None \<Rightarrow> None
          | Some (h, data) \<Rightarrow>
              if left - 24 < int (unat (hdr_len h)) \<or> sint (hdr_len h) < 0 then Some (-2, k, a)
              else if (ucast (hdr_cmd h) :: u32) \<notin> {IKCP_CMD_PUSH, IKCP_CMD_ACK, IKCP_CMD_WASK, IKCP_CMD_WINS}
              then Some (-3, k, a)
              else case ikcp_input_seg (junk left) k a h data of
                None \<Rightarrow> None
              | Some (k, a) \<Rightarrow>
                  ikcp_input_loop junk k a (drop (unat (hdr_len h)) data)
                    (left - 24 - int (unat (hdr_len h))))"
  by pat_completeness auto
termination
  by (relation "measure (\<lambda>(junk, k, a, data, left). nat left)") auto

declare ikcp_input_loop.simps [simp del]

text \<open>Congestion control: the window grows when \<^verbatim>\<open>snd_una\<close> has advanced.\<close>

definition ikcp_input_cwnd :: "u32 \<Rightarrow> kcpcb \<Rightarrow> kcpcb" where
  "ikcp_input_cwnd prev_una k =
     (if itimediff (snd_una k) prev_una > 0 \<and> cwnd k < rmt_wnd k
      then
        let m = mss k;
            k = (if cwnd k < ssthresh k
                 then k\<lparr>cwnd := cwnd k + 1, incr := incr k + m\<rparr>
                 else
                   let k = (if incr k < m then k\<lparr>incr := m\<rparr> else k);
                       k = k\<lparr>incr := incr k + ((m * m) div incr k + m div 16)\<rparr>
                   in if (cwnd k + 1) * m \<le> incr k
                      then k\<lparr>cwnd := (incr k + m - 1) div (if m > 0 then m else 1)\<rparr>
                      else k)
        in if cwnd k > rmt_wnd k then k\<lparr>cwnd := rmt_wnd k, incr := rmt_wnd k * m\<rparr> else k
      else k)"

definition ikcp_input ::
  "(int \<Rightarrow> ikcpseg) \<Rightarrow> kcpcb \<Rightarrow> bytes option \<Rightarrow> int \<Rightarrow> (int \<times> kcpcb) option" where
  "ikcp_input junk k data left =
     (let prev_una = snd_una k;
          a = \<lparr>ack_flag = False, ack_maxack = 0, ack_latest_ts = 0\<rparr>
      in case data of
        None \<Rightarrow> Some (-1, k)
      | Some data \<Rightarrow>
          if s32 left < sint IKCP_OVERHEAD then Some (-1, k)
          else case ikcp_input_loop junk k a data left of
            None \<Rightarrow> None
          | Some (r, k, a) \<Rightarrow>
              if r < 0 then Some (r, k)
              else
                let k = (if ack_flag a then ikcp_parse_fastack k (ack_maxack a) (ack_latest_ts a) else k)
                in Some (0, ikcp_input_cwnd prev_una k))"

section \<open>Any datagram is handled safely\<close>

lemma input_ack_wf: "kcp_wf k \<Longrightarrow> kcp_wf (fst (ikcp_input_ack k a sn ts))"
  by (simp add: ikcp_input_ack_def Let_def parse_ack_wf update_ack_wf)

lemma input_newseg_ok:
  assumes "unat (hdr_len h) \<le> length data" and "0 \<le> sint (hdr_len h)"
  shows "\<exists>seg. ikcp_input_newseg junk h data = Some seg \<and> seg_ok seg \<and>
    seg_data seg = take (unat (hdr_len h)) data \<and> seg_sn seg = hdr_sn h \<and> seg_frg seg = ucast (hdr_frg h)"
proof -
  have l: "nat (sint (hdr_len h)) = unat (hdr_len h)"
    using assms(2) by (auto simp: sint_eq_unat_if dest: order.trans split: if_splits)
      (use unat_u32_less [of "hdr_len h"] in simp)
  show ?thesis
  proof (cases "hdr_len h > 0")
    case True
    then show ?thesis
      using assms l by (simp add: ikcp_input_newseg_def Let_def seg_ok_def)
  next
    case False
    then have "hdr_len h = 0" by (simp add: word_less_nat_alt unat_eq_0)
    then show ?thesis by (simp add: ikcp_input_newseg_def Let_def seg_ok_def ikcp_segment_new_def)
  qed
qed

lemma update_ack_ackcount [simp]: "ackcount (ikcp_update_ack k rtt) = ackcount k"
  using update_ack_frame [of k rtt] by auto

lemma ackcount_frame [simp]:
  "ackcount (ikcp_parse_ack k sn) = ackcount k"
  "ackcount (ikcp_parse_una k sn) = ackcount k"
  "ackcount (ikcp_shrink_buf k) = ackcount k"
  "ackcount (fst (ikcp_input_ack k a sn ts)) = ackcount k"
  by (simp_all add: ikcp_parse_ack_def ikcp_parse_una_def ikcp_shrink_buf_def ikcp_input_ack_def
      Let_def split: prod.split list.split)

lemma move_ready_ackcount [simp]: "ackcount (ikcp_move_ready k) = ackcount k"
  using move_ready_spec [of k] by auto

lemma parse_data_ackcount [simp]: "ackcount (ikcp_parse_data k seg) = ackcount k"
  by (simp add: ikcp_parse_data_def Let_def split: prod.split)

lemma input_push_wf:
  assumes wf: "kcp_wf k" and n: "unat (ackcount k) < 2147483648"
    and d: "unat (hdr_len h) \<le> length data" "0 \<le> sint (hdr_len h)"
  shows "\<exists>k'. ikcp_input_push junk k h data = Some k' \<and> kcp_wf k' \<and>
    unat (ackcount k') \<le> unat (ackcount k) + 1"
proof -
  obtain seg where seg: "ikcp_input_newseg junk h data = Some seg" "seg_ok seg"
    using input_newseg_ok [OF d] by blast
  obtain k1 cells blk where p: "ikcp_ack_push k (hdr_sn h) (hdr_ts h) = Some k1"
    "k1 = k\<lparr>acklist := cells, ackblock := blk, ackcount := ackcount k + 1\<rparr>" "ack_wf k1"
    using ack_push_spec [OF kcp_wfD(4) [OF wf] n] by blast
  have wf1: "kcp_wf k1"
    using wf p(2,3) by (simp add: kcp_wf_def snd_core_def una_exact_def rcv_core_def cfg_wf_def segs_wf_def)
  have c: "unat (ackcount k1) \<le> unat (ackcount k) + 1"
    using n by (simp add: p(2) unat_word_ariths)
  show ?thesis
    using wf wf1 c seg p(1) parse_data_wf [OF wf1 seg(2)]
    by (simp add: ikcp_input_push_def Let_def)
qed

lemma kcp_wf_rmt_wnd: "kcp_wf k \<Longrightarrow> unat w \<le> 65535 \<Longrightarrow> kcp_wf (k\<lparr>rmt_wnd := w\<rparr>)"
  by (simp add: kcp_wf_defs)

lemma unat_wnd: "unat (ucast (w :: u16) :: u32) \<le> 65535"
  using unat_u16_less [of w] by (simp add: unsigned_ucast_eq take_bit_nat_eq_self)

lemma input_seg_wf:
  assumes wf: "kcp_wf k" and n: "unat (ackcount k) < 2147483648"
    and d: "unat (hdr_len h) \<le> length data" "0 \<le> sint (hdr_len h)"
  shows "\<exists>k' a'. ikcp_input_seg junk k a h data = Some (k', a') \<and> kcp_wf k' \<and>
    unat (ackcount k') \<le> unat (ackcount k) + 1"
proof -
  define k1 where "k1 = ikcp_shrink_buf (ikcp_parse_una (k\<lparr>rmt_wnd := ucast (hdr_wnd h)\<rparr>) (hdr_una h))"
  have wf1: "kcp_wf k1"
    unfolding k1_def by (intro parse_una_wf kcp_wf_rmt_wnd wf unat_wnd)
  have c1: "ackcount k1 = ackcount k" by (simp add: k1_def)
  obtain k2 where k2: "ikcp_input_push junk k1 h data = Some k2" "kcp_wf k2"
    "unat (ackcount k2) \<le> unat (ackcount k) + 1"
    using input_push_wf [OF wf1 _ d] n unfolding c1 by blast
  obtain ka aa where ia: "ikcp_input_ack k1 a (hdr_sn h) (hdr_ts h) = (ka, aa)" by (metis surj_pair)
  have "kcp_wf ka" "ackcount ka = ackcount k"
    using input_ack_wf [OF wf1, of a "hdr_sn h" "hdr_ts h"] ackcount_frame(4) [of k1 a "hdr_sn h" "hdr_ts h"]
    by (simp_all add: ia c1)
  then show ?thesis
    using k2 wf1 c1 by (simp add: ikcp_input_seg_def Let_def k1_def [symmetric] ia)
qed

lemma input_loop_wf:
  assumes "kcp_wf k" and "left \<le> int (length data)"
    and "unat (ackcount k) + nat left div 24 \<le> 2147483648"
  shows "\<exists>r k' a'. ikcp_input_loop junk k a data left = Some (r, k', a') \<and> kcp_wf k' \<and>
    r \<in> {0, -1, -2, -3}"
  using assms
proof (induction "nat left" arbitrary: k a data left rule: less_induct)
  case less
  show ?case
  proof (cases "left < 24")
    case True
    then show ?thesis using less.prems(1) by (subst ikcp_input_loop.simps) simp
  next
    case False
    then have len: "24 \<le> length data" using less.prems(2) by linarith
    obtain c where c: "ikcp_decode32u data = Some (c, drop 4 data)"
      using f32.dec_at [of 0 data] len by auto
    obtain h where h: "ikcp_decode_hdr data = Some (h, drop 24 data)"
      using decode_hdr_total [OF len] by blast
    consider "c \<noteq> conv k"
      | "c = conv k" "left - 24 < int (unat (hdr_len h)) \<or> sint (hdr_len h) < 0"
      | "c = conv k" "\<not> (left - 24 < int (unat (hdr_len h)) \<or> sint (hdr_len h) < 0)"
        "(ucast (hdr_cmd h) :: u32) \<notin> {IKCP_CMD_PUSH, IKCP_CMD_ACK, IKCP_CMD_WASK, IKCP_CMD_WINS}"
      | "c = conv k" "\<not> (left - 24 < int (unat (hdr_len h)) \<or> sint (hdr_len h) < 0)"
        "(ucast (hdr_cmd h) :: u32) \<in> {IKCP_CMD_PUSH, IKCP_CMD_ACK, IKCP_CMD_WASK, IKCP_CMD_WINS}"
      by blast
    then show ?thesis
    proof cases
      case 4
      let ?l = "unat (hdr_len h)"
      have fits: "?l \<le> length (drop 24 data)" "0 \<le> sint (hdr_len h)"
        using 4(2) less.prems(2) by auto
      have "0 < nat left div 24" using False by (simp add: div_greater_zero_iff)
      then have "unat (ackcount k) < 2147483648" using less.prems(3) by linarith
      from input_seg_wf [OF less.prems(1) this fits, of "junk left" a]
      obtain k1 a1 where seg: "ikcp_input_seg (junk left) k a h (drop 24 data) = Some (k1, a1)"
        "kcp_wf k1" "unat (ackcount k1) \<le> unat (ackcount k) + 1" by blast
      let ?left = "left - 24 - int ?l" and ?data = "drop ?l (drop 24 data)"
      have smaller: "nat ?left < nat left" using False by simp
      have "nat ?left \<le> nat left - 24" by simp
      then have "nat ?left div 24 \<le> (nat left - 24) div 24" by (rule div_le_mono)
      also have "\<dots> = nat left div 24 - 1" using False by (simp add: le_div_geq)
      finally have "unat (ackcount k1) + nat ?left div 24 \<le> 2147483648"
        using seg(3) less.prems(3) \<open>0 < nat left div 24\<close> by linarith
      moreover have "?left \<le> int (length ?data)" using less.prems(2) fits(1) 4(2) by auto
      ultimately obtain r k' a' where "ikcp_input_loop junk k1 a1 ?data ?left = Some (r, k', a')"
        "kcp_wf k'" "r \<in> {0, -1, -2, -3}"
        using less.hyps [OF smaller seg(2)] by blast
      moreover have "ikcp_input_loop junk k a data left = ikcp_input_loop junk k1 a1 ?data ?left"
        using False c h 4 seg(1) by (subst ikcp_input_loop.simps) simp
      ultimately show ?thesis by metis
    qed (use False c h less.prems(1) in \<open>subst ikcp_input_loop.simps, simp\<close>)+
  qed
qed

lemma input_cwnd_wf: "kcp_wf k \<Longrightarrow> kcp_wf (ikcp_input_cwnd prev k)"
  by (simp add: ikcp_input_cwnd_def Let_def)

text \<open>
  C6: Whatever bytes arrive, \<open>ikcp_input\<close> reads only the \<open>size\<close> bytes it was given, returns one of its
  four codes and leaves a well-formed control block, provided the list of acknowledgements has
  room below \<open>2 ^ 31\<close> for the segments a datagram of that size can hold.
\<close>

theorem input_any_bytes:
  assumes "kcp_wf k" and "length data < 2147483648" and "0 \<le> size_v" and "size_v \<le> int (length data)"
    and "unat (ackcount k) + nat size_v div 24 \<le> 2147483648"
  shows "\<exists>r k'. ikcp_input junk k (Some data) size_v = Some (r, k') \<and> kcp_wf k' \<and> r \<in> {0, -1, -2, -3}"
proof (cases "size_v < 24")
  case True
  then show ?thesis using assms by (simp add: ikcp_input_def s32_id kcp_defs)
next
  case False
  obtain r k' a' where loop: "ikcp_input_loop junk k \<lparr>ack_flag = False, ack_maxack = 0, ack_latest_ts = 0\<rparr>
      data size_v = Some (r, k', a')" "kcp_wf k'" "r \<in> {0, -1, -2, -3}"
    using input_loop_wf [OF assms(1,4,5)] by blast
  then show ?thesis
    using False assms(2-4)
    by (auto simp: ikcp_input_def s32_id kcp_defs Let_def input_cwnd_wf parse_fastack_wf)
qed

theorem input_any_bytes_witness:
  "\<exists>r k'. ikcp_input (\<lambda>_. seg0) kcp0 (Some (replicate 30 (255 :: u8))) 30 = Some (r, k') \<and> kcp_wf k'"
  using input_any_bytes [of kcp0 "replicate 30 255" 30 "\<lambda>_. seg0"] by auto

text \<open>
  A datagram is refused with \<open>-1\<close> and no change when there is no data, when it is shorter
  than one header, or when its first segment belongs to another conversation.
\<close>

theorem input_refuses:
  "ikcp_input junk k None n = Some (-1, k) \<and>
   (length data < 24 \<longrightarrow> ikcp_input junk k (Some data) (int (length data)) = Some (-1, k)) \<and>
   (24 \<le> length data \<and> length data < 2147483648 \<and> ikcp_getconv data \<noteq> Some (conv k) \<longrightarrow>
     ikcp_input junk k (Some data) (int (length data)) = Some (-1, k))"
proof -
  have "ikcp_input junk k (Some data) (int (length data)) = Some (-1, k)"
    if "24 \<le> length data" "length data < 2147483648" "ikcp_getconv data \<noteq> Some (conv k)"
  proof -
    have "4 \<le> length data" using that(1) by linarith
    then obtain c where c: "ikcp_decode32u data = Some (c, drop 4 data)"
      using f32.dec_at [of 0 data] by auto
    then have "c \<noteq> conv k" using that(3) by (simp add: ikcp_getconv_def)
    then have "ikcp_input_loop junk k a data (int (length data)) = Some (-1, k, a)" for a
      using that(1) c by (subst ikcp_input_loop.simps) simp
    then show ?thesis using that by (simp add: ikcp_input_def kcp_defs s32_id)
  qed
  then show ?thesis by (simp add: ikcp_input_def kcp_defs s32_id)
qed

theorem input_refuses_witness:
  "ikcp_input (\<lambda>_. seg0) kcp0 (Some (ikcp_encode_seg [] seg0)) 24 = Some (-1, kcp0)"
proof -
  have "ikcp_getconv (ikcp_encode_seg [] seg0 @ []) \<noteq> Some (conv kcp0)"
    unfolding ikcp_getconv_def encode_seg_fields by (simp add: f32.dec_enc_nil seg0_def)
  with input_refuses [of "\<lambda>_. seg0" kcp0 0 "ikcp_encode_seg [] seg0"] show ?thesis by simp
qed

section \<open>Congestion window\<close>

lemma input_loop_cases:
  assumes "ikcp_input_loop junk k a data left = Some (r, k', a')"
  obtains "k' = k" "a' = a"
  | h d k1 a1 where "\<not> left < 24" "ikcp_input_seg (junk left) k a h d = Some (k1, a1)"
    "ikcp_input_loop junk k1 a1 (drop (unat (hdr_len h)) d) (left - 24 - int (unat (hdr_len h))) =
       Some (r, k', a')"
  using assms by (subst (asm) ikcp_input_loop.simps) (auto split: if_splits option.splits)

text \<open>What every step of the input loop keeps, the whole loop keeps.\<close>

lemma input_loop_keeps:
  assumes "\<And>j k a h d k' a'. P k \<Longrightarrow> ikcp_input_seg j k a h d = Some (k', a') \<Longrightarrow> P k'"
    and "P k" and "ikcp_input_loop junk k a data left = Some (r, k', a')"
  shows "P k'"
  using assms(2,3)
proof (induction "nat left" arbitrary: k a data left rule: less_induct)
  case less
  from less.prems(2) show ?case
  proof (cases rule: input_loop_cases)
    case 1
    then show ?thesis using less.prems(1) by simp
  next
    case (2 h d k1 a1)
    then have "nat (left - 24 - int (unat (hdr_len h))) < nat left" by simp
    from less.hyps [OF this assms(1) [OF less.prems(1) 2(2)] 2(3)] show ?thesis .
  qed
qed

definition cong_state :: "kcpcb \<Rightarrow> u32 \<times> u32 \<times> u32 \<times> u32" where
  "cong_state k = (cwnd k, ssthresh k, incr k, mss k)"

lemma cong_state_ops [simp]:
  "cong_state (k\<lparr>rmt_wnd := w\<rparr>) = cong_state k" "cong_state (k\<lparr>probe := p\<rparr>) = cong_state k"
  "cong_state (ikcp_shrink_buf k) = cong_state k"
  "cong_state (ikcp_parse_una k sn) = cong_state k" "cong_state (ikcp_parse_ack k sn) = cong_state k"
  "cong_state (ikcp_parse_fastack k sn ts) = cong_state k"
  by (simp_all add: cong_state_def ikcp_shrink_buf_def ikcp_parse_una_def ikcp_parse_ack_def
      ikcp_parse_fastack_def split: list.split prod.split)

lemma cong_state_update_ack [simp]: "cong_state (ikcp_update_ack k rtt) = cong_state k"
  using update_ack_frame [of k rtt] by (auto simp: cong_state_def)

lemma cong_state_move_ready [simp]: "cong_state (ikcp_move_ready k) = cong_state k"
  using move_ready_spec [of k] by (auto simp: cong_state_def)

lemma cong_state_parse_data [simp]: "cong_state (ikcp_parse_data k seg) = cong_state k"
  by (simp add: ikcp_parse_data_def Let_def split: prod.split) (simp add: cong_state_def)

lemma cong_state_input_ack: "ikcp_input_ack k a sn ts = (k', a') \<Longrightarrow> cong_state k' = cong_state k"
  by (auto simp: ikcp_input_ack_def Let_def split: if_splits)

lemma cong_state_ack_push: "ikcp_ack_push k sn ts = Some k' \<Longrightarrow> cong_state k' = cong_state k"
  by (auto simp: ikcp_ack_push_def Let_def cong_state_def bind_eq_Some_conv split: if_splits)

lemma cong_state_push: "ikcp_input_push junk k h data = Some k' \<Longrightarrow> cong_state k' = cong_state k"
  by (auto simp: ikcp_input_push_def Let_def bind_eq_Some_conv cong_state_ack_push split: if_splits)

lemma cong_state_input_seg:
  assumes "ikcp_input_seg junk k a h data = Some (k', a')"
  shows "cong_state k' = cong_state k"
proof -
  define k1 where "k1 = ikcp_shrink_buf (ikcp_parse_una (k\<lparr>rmt_wnd := ucast (hdr_wnd h)\<rparr>) (hdr_una h))"
  have 1: "cong_state k1 = cong_state k" by (simp add: k1_def)
  have "cong_state k' = cong_state k1"
    using assms
    by (auto simp: ikcp_input_seg_def Let_def k1_def [symmetric] cong_state_push cong_state_input_ack
        split: if_splits)
  with 1 show ?thesis by simp
qed

lemma input_cwnd_bounds:
  assumes "k' = ikcp_input_cwnd prev k"
  shows "cwnd k' = cwnd k \<or>
   (itimediff (snd_una k) prev > 0 \<and> cwnd k < rmt_wnd k \<and> cwnd k' \<le> rmt_wnd k \<and>
    (cwnd k < ssthresh k \<longrightarrow> cwnd k' = cwnd k + 1))"
proof (cases "itimediff (snd_una k) prev > 0 \<and> cwnd k < rmt_wnd k")
  case False
  then show ?thesis unfolding assms ikcp_input_cwnd_def by (simp only: if_False) simp
next
  case True
  then have le: "cwnd k + 1 \<le> rmt_wnd k" by (metis word_le_nat_alt word_less_nat_alt unat_Suc_less Suc_leI)
  then have nl: "\<not> rmt_wnd k < cwnd k + 1" by (simp add: linorder_not_less)
  have "cwnd k' \<le> rmt_wnd k"
    using True by (auto simp: assms ikcp_input_cwnd_def Let_def)
  moreover have "cwnd k < ssthresh k \<Longrightarrow> cwnd k' = cwnd k + 1"
    using True nl by (simp add: assms ikcp_input_cwnd_def Let_def)
  ultimately show ?thesis using True by blast
qed

lemma input_cwnd_frame: "snd_una (ikcp_input_cwnd prev k) = snd_una k" "rmt_wnd (ikcp_input_cwnd prev k) = rmt_wnd k"
  by (simp_all add: ikcp_input_cwnd_def Let_def)

lemma parse_fastack_frame: "snd_una (ikcp_parse_fastack k sn ts) = snd_una k" "rmt_wnd (ikcp_parse_fastack k sn ts) = rmt_wnd k"
  by (simp_all add: ikcp_parse_fastack_def)

text \<open>
  C25: The congestion window only grows in \<open>ikcp_input\<close> when the datagram acknowledged new data, by
  exactly one below the slow start threshold, and what it grows to never exceeds the window
  the peer announced last.
\<close>

theorem input_cwnd_growth:
  assumes "ikcp_input junk k data n = Some (r, k')"
  shows "cwnd k' = cwnd k \<or>
    (r = 0 \<and> itimediff (snd_una k') (snd_una k) > 0 \<and> cwnd k < rmt_wnd k' \<and> cwnd k' \<le> rmt_wnd k' \<and>
     (cwnd k < ssthresh k \<longrightarrow> cwnd k' = cwnd k + 1))"
proof -
  have keep: "cong_state k1 = cong_state k"
    if "ikcp_input_loop junk k a bs n = Some (r1, k1, a1)" for a bs r1 k1 a1
    by (rule input_loop_keeps [where P = "\<lambda>k1. cong_state k1 = cong_state k", OF _ _ that])
      (simp_all add: cong_state_input_seg)
  obtain k1 a1 r1 where c: "k' = k1 \<or> r = 0 \<and> (k' = ikcp_input_cwnd (snd_una k) k1)"
    "cong_state k1 = cong_state k"
    using assms
    by (auto simp: ikcp_input_def Let_def split: option.splits if_splits dest!: keep)
      (metis cong_state_ops(6))+
  then have "cwnd k1 = cwnd k" "ssthresh k1 = ssthresh k" by (simp_all add: cong_state_def)
  then show ?thesis
    using c(1) input_cwnd_bounds [of k' "snd_una k" k1] by (auto simp: input_cwnd_frame)
qed


text \<open>One well-formed segment at the front of the datagram.\<close>

definition proper_seg :: "kcpcb \<Rightarrow> ikcpseg \<Rightarrow> bool" where
  "proper_seg k s \<longleftrightarrow> seg_conv s = conv k \<and> unat (seg_len s) < 2147483648 \<and>
     seg_cmd s \<in> {IKCP_CMD_PUSH, IKCP_CMD_ACK, IKCP_CMD_WASK, IKCP_CMD_WINS}"

lemma cmd_on_wire:
  "seg_cmd s \<in> {IKCP_CMD_PUSH, IKCP_CMD_ACK, IKCP_CMD_WASK, IKCP_CMD_WINS} \<Longrightarrow>
     (ucast (hdr_cmd (wire_hdr s)) :: u32) = seg_cmd s"
  by (auto simp: wire_hdr_def kcp_defs)

lemma input_loop_encoded_rest:
  assumes "proper_seg k s" and "length d = unat (seg_len s)" and "n \<le> length rest"
  shows "ikcp_input_loop junk k a (ikcp_encode_seg [] s @ d @ rest) (24 + int (length d) + int n) =
    (case ikcp_input_seg (junk (24 + int (length d) + int n)) k a (wire_hdr s) (d @ rest) of
       None \<Rightarrow> None
     | Some (k, a) \<Rightarrow> ikcp_input_loop junk k a rest (int n))"
proof -
  let ?data = "ikcp_encode_seg [] s @ d @ rest"
  have c: "ikcp_decode32u ?data = Some (conv k, drop 4 ?data)"
    using assms(1) unfolding encode_seg_fields append_assoc
    by (subst f32.dec_enc_nil) (simp add: proper_seg_def f32.enc_length)
  have h: "ikcp_decode_hdr ?data = Some (wire_hdr s, d @ rest)" by (rule decode_hdr_encode_seg)
  have l: "unat (hdr_len (wire_hdr s)) = length d" "\<not> sint (hdr_len (wire_hdr s)) < 0"
    using assms(1,2) by (simp_all add: wire_hdr_def proper_seg_def sint_small)
  have "(ucast (hdr_cmd (wire_hdr s)) :: u32) \<in> {IKCP_CMD_PUSH, IKCP_CMD_ACK, IKCP_CMD_WASK, IKCP_CMD_WINS}"
    using assms(1) cmd_on_wire [of s] by (simp add: proper_seg_def)
  then show ?thesis
    by (subst ikcp_input_loop.simps) (simp add: c h l split: option.split prod.split)
qed

lemma input_loop_encoded:
  assumes "proper_seg k s" and "length d = unat (seg_len s)" and "length rest = n"
  shows "ikcp_input_loop junk k a (ikcp_encode_seg [] s @ d @ rest) (24 + int (length d) + int n) =
    (case ikcp_input_seg (junk (24 + int (length d) + int n)) k a (wire_hdr s) (d @ rest) of
       None \<Rightarrow> None
     | Some (k, a) \<Rightarrow> ikcp_input_loop junk k a rest (int n))"
  using assms by (intro input_loop_encoded_rest) simp_all

definition ack0 :: ikcpseg where
  "ack0 = seg0\<lparr>seg_conv := 7, seg_cmd := 82, seg_wnd := 128, seg_una := 1\<rparr>"

theorem input_cwnd_growth_witness:
  "\<exists>k'. ikcp_input (\<lambda>_. seg0) three_in_flight (Some (ikcp_encode_seg [] ack0)) 24 = Some (0, k') \<and>
     cwnd k' = 1 \<and> cwnd k' \<le> rmt_wnd k'"
proof -
  have p: "proper_seg three_in_flight ack0"
    by (simp add: proper_seg_def ack0_def three_in_flight_def kcp_defs seg0_def)
  have e: "\<exists>k'. ikcp_input (\<lambda>_. seg0) three_in_flight (Some (ikcp_encode_seg [] ack0)) 24 = Some (0, k') \<and> cwnd k' \<noteq> 0"
    using input_loop_encoded [OF p, of "[]" "[]" 0 "\<lambda>_. seg0"]
    by (simp add: ikcp_input_def s32_id kcp_defs ikcp_input_loop.simps [of _ _ _ "[]"] ack0_def seg0_def
      ikcp_input_seg_def wire_hdr_def three_in_flight_def ikcp_parse_una_def itimediff_def ikcp_shrink_buf_def
      ikcp_input_ack_def ikcp_update_ack_def ikcp_parse_ack_def ikcp_parse_fastack_def ikcp_input_cwnd_def Let_def)
  then obtain k' where "ikcp_input (\<lambda>_. seg0) three_in_flight (Some (ikcp_encode_seg [] ack0)) 24 = Some (0, k')"
    "cwnd k' \<noteq> 0" by blast
  with input_cwnd_growth [OF this(1)] show ?thesis by (auto simp: three_in_flight_def)
qed

end
