(* ===== verification/Kcp_Flush.thy ===== *)
theory Kcp_Flush
  imports Kcp_Send Kcp_Ack
begin

text \<open>
  \<^verbatim>\<open>ikcp_flush\<close> writes what is due into datagrams: acknowledgements, window probes, new data
  within the window, and retransmissions; then it adapts the congestion window. It is modelled
  phase by phase, in the order of the code. The bytes between \<^verbatim>\<open>buffer\<close> and \<^verbatim>\<open>ptr\<close> and the
  datagrams handed to the output callback so far are an \<open>emission\<close>. What C leaves undefined, and
  a failing assertion, is an error value.
\<close>

section \<open>The model\<close>

datatype flush_error =
    No_Output          \<comment> \<open>\<open>assert(kcp->output)\<close> fails\<close>
  | Buffer_Overflow    \<comment> \<open>a write past the end of \<open>kcp->buffer\<close>\<close>
  | Unwritten_Ack      \<comment> \<open>a read of an acknowledgement that was never stored\<close>

fun err_bind :: "'e + 'a \<Rightarrow> ('a \<Rightarrow> 'e + 'b) \<Rightarrow> 'e + 'b" where
  "err_bind (Inl e) f = Inl e"
| "err_bind (Inr x) f = f x"

lemma err_bind_cong [fundef_cong]:
  "m = m' \<Longrightarrow> (\<And>x. m' = Inr x \<Longrightarrow> f x = f' x) \<Longrightarrow> err_bind m f = err_bind m' f'"
  by (cases m') auto

lemma err_bind_Inr: "err_bind m f = Inr y \<longleftrightarrow> (\<exists>x. m = Inr x \<and> f x = Inr y)"
  by (cases m) auto

record emission =
  em_ptr :: bytes
  em_sent :: "bytes list"

definition ikcp_output :: "kcpcb \<Rightarrow> emission \<Rightarrow> flush_error + emission" where
  "ikcp_output k em =
     (if \<not> output_set k then Inl No_Output
      else if em_ptr em = [] then Inr em
      else Inr (em\<lparr>em_sent := em_sent em @ [em_ptr em]\<rparr>))"

text \<open>\<^verbatim>\<open>if (size + need > mtu) { ikcp_output(kcp, buffer, size); ptr = buffer; }\<close>\<close>

definition ikcp_make_room :: "kcpcb \<Rightarrow> int \<Rightarrow> emission \<Rightarrow> flush_error + emission" where
  "ikcp_make_room k need em =
     (if int (length (em_ptr em)) + need > sint (mtu k)
      then err_bind (ikcp_output k em) (\<lambda>em. Inr (em\<lparr>em_ptr := []\<rparr>))
      else Inr em)"

definition ikcp_write :: "kcpcb \<Rightarrow> bytes \<Rightarrow> emission \<Rightarrow> flush_error + emission" where
  "ikcp_write k bs em =
     (if length (em_ptr em) + length bs > unat (buffer k) then Inl Buffer_Overflow
      else Inr (em\<lparr>em_ptr := em_ptr em @ bs\<rparr>))"

definition ikcp_write_hdr :: "kcpcb \<Rightarrow> ikcpseg \<Rightarrow> emission \<Rightarrow> flush_error + emission" where
  "ikcp_write_hdr k seg em = ikcp_write k (ikcp_encode_seg [] seg) em"

text \<open>The header that acknowledgements and probes share; what is not set here is not encoded.\<close>

definition ikcp_flush_seg :: "kcpcb \<Rightarrow> ikcpseg" where
  "ikcp_flush_seg k =
     \<lparr>seg_conv = conv k, seg_cmd = IKCP_CMD_ACK, seg_frg = 0, seg_wnd = to_u32 (ikcp_wnd_unused k),
      seg_ts = 0, seg_sn = 0, seg_una = rcv_nxt k, seg_len = 0, seg_resendts = 0, seg_rto = 0,
      seg_fastack = 0, seg_xmit = 0, seg_data = []\<rparr>"

fun ikcp_flush_acks ::
  "kcpcb \<Rightarrow> nat list \<Rightarrow> ikcpseg \<Rightarrow> emission \<Rightarrow> flush_error + ikcpseg \<times> emission" where
  "ikcp_flush_acks k [] seg em = Inr (seg, em)"
| "ikcp_flush_acks k (i # is) seg em =
     err_bind (ikcp_make_room k 24 em) (\<lambda>em.
       case ikcp_ack_get k i of
         None \<Rightarrow> Inl Unwritten_Ack
       | Some (sn, ts) \<Rightarrow>
           let seg = seg\<lparr>seg_sn := sn, seg_ts := ts\<rparr> in
           err_bind (ikcp_write_hdr k seg em) (\<lambda>em. ikcp_flush_acks k is seg em))"

definition ikcp_flush_probe :: "kcpcb \<Rightarrow> kcpcb" where
  "ikcp_flush_probe k =
     (if rmt_wnd k = 0 then
        if probe_wait k = 0 then
          let k = k\<lparr>probe_wait := IKCP_PROBE_INIT\<rparr> in k\<lparr>ts_probe := current k + probe_wait k\<rparr>
        else if itimediff (current k) (ts_probe k) \<ge> 0 then
          let k = (if probe_wait k < IKCP_PROBE_INIT then k\<lparr>probe_wait := IKCP_PROBE_INIT\<rparr> else k);
              k = k\<lparr>probe_wait := probe_wait k + probe_wait k div 2\<rparr>;
              k = (if probe_wait k > IKCP_PROBE_LIMIT then k\<lparr>probe_wait := IKCP_PROBE_LIMIT\<rparr> else k)
          in k\<lparr>ts_probe := current k + probe_wait k, probe := probe k OR IKCP_ASK_SEND\<rparr>
        else k
      else k\<lparr>ts_probe := 0, probe_wait := 0\<rparr>)"

definition ikcp_flush_ask :: "kcpcb \<Rightarrow> u32 \<Rightarrow> u32 \<Rightarrow> ikcpseg \<Rightarrow> emission \<Rightarrow> flush_error + emission" where
  "ikcp_flush_ask k ask cmd seg em =
     (if probe k AND ask \<noteq> 0
      then err_bind (ikcp_make_room k 24 em) (ikcp_write_hdr k (seg\<lparr>seg_cmd := cmd\<rparr>))
      else Inr em)"

definition ikcp_flush_cwnd :: "kcpcb \<Rightarrow> u32" where
  "ikcp_flush_cwnd k =
     (let w = imin (snd_wnd k) (rmt_wnd k) in if nocwnd k = 0 then imin (cwnd k) w else w)"

definition ikcp_flush_newseg :: "kcpcb \<Rightarrow> u32 \<Rightarrow> ikcpseg \<Rightarrow> ikcpseg" where
  "ikcp_flush_newseg k wnd seg =
     seg\<lparr>seg_conv := conv k, seg_cmd := IKCP_CMD_PUSH, seg_wnd := wnd, seg_ts := current k,
         seg_sn := snd_nxt k, seg_una := rcv_nxt k, seg_resendts := current k,
         seg_rto := to_u32 (rx_rto k), seg_fastack := 0, seg_xmit := 0\<rparr>"

text \<open>Move data from snd_queue to snd_buf.\<close>

function ikcp_flush_move :: "u32 \<Rightarrow> u32 \<Rightarrow> kcpcb \<Rightarrow> kcpcb" where
  "ikcp_flush_move w wnd k =
     (if itimediff (snd_nxt k) (snd_una k + w) < 0 then
        case snd_queue k of
          [] \<Rightarrow> k
        | newseg # rest \<Rightarrow>
            ikcp_flush_move w wnd
              (k\<lparr>snd_queue := rest, snd_buf := snd_buf k @ [ikcp_flush_newseg k wnd newseg],
                 nsnd_que := nsnd_que k - 1, nsnd_buf := nsnd_buf k + 1, snd_nxt := snd_nxt k + 1\<rparr>)
      else k)"
  by pat_completeness auto
termination
  by (relation "measure (\<lambda>(w, wnd, k). length (snd_queue k))") auto

declare ikcp_flush_move.simps [simp del]

text \<open>
  Whether one segment in flight is sent now, and how its timers change. \<open>lost\<close> and \<open>change\<close> are
  the flags of the code.
\<close>

definition ikcp_flush_decide ::
  "u32 \<Rightarrow> u32 \<Rightarrow> kcpcb \<Rightarrow> ikcpseg \<Rightarrow> bool \<Rightarrow> nat \<Rightarrow> bool \<times> ikcpseg \<times> kcpcb \<times> bool \<times> nat" where
  "ikcp_flush_decide resent rtomin k seg lost change =
     (if seg_xmit seg = 0 then
        let seg = seg\<lparr>seg_xmit := seg_xmit seg + 1, seg_rto := to_u32 (rx_rto k)\<rparr>;
            seg = seg\<lparr>seg_resendts := current k + seg_rto seg + rtomin\<rparr>
        in (True, seg, k, lost, change)
      else if itimediff (current k) (seg_resendts seg) \<ge> 0 then
        let seg = seg\<lparr>seg_xmit := seg_xmit seg + 1\<rparr>;
            k = k\<lparr>xmit := xmit k + 1\<rparr>;
            seg = (if nodelay k = 0
                   then seg\<lparr>seg_rto := seg_rto seg + imax (seg_rto seg) (to_u32 (rx_rto k))\<rparr>
                   else let step = (if nodelay k < 2 then sint (seg_rto seg) else rx_rto k)
                        in seg\<lparr>seg_rto := seg_rto seg + to_u32 (step sdiv 2)\<rparr>);
            seg = seg\<lparr>seg_resendts := current k + seg_rto seg\<rparr>
        in (True, seg, k, True, change)
      else if seg_fastack seg \<ge> resent then
        if sint (seg_xmit seg) \<le> fastlimit k \<or> fastlimit k \<le> 0 then
          let seg = seg\<lparr>seg_xmit := seg_xmit seg + 1, seg_fastack := 0\<rparr>;
              seg = seg\<lparr>seg_resendts := current k + seg_rto seg\<rparr>
          in (True, seg, k, lost, change + 1)
        else (False, seg, k, lost, change)
      else (False, seg, k, lost, change))"


text \<open>The segment is written with its data; \<open>wnd\<close> is the window the header announces.\<close>

definition ikcp_flush_emit ::
  "u32 \<Rightarrow> kcpcb \<Rightarrow> ikcpseg \<Rightarrow> emission \<Rightarrow> flush_error + ikcpseg \<times> kcpcb \<times> emission" where
  "ikcp_flush_emit wnd k seg em =
     (let seg = seg\<lparr>seg_ts := current k, seg_wnd := wnd, seg_una := rcv_nxt k\<rparr>;
          need = sint (IKCP_OVERHEAD + seg_len seg)
      in err_bind (ikcp_make_room k need em) (\<lambda>em.
         err_bind (ikcp_write_hdr k seg em) (\<lambda>em.
         err_bind (if seg_len seg > 0 then ikcp_write k (take (unat (seg_len seg)) (seg_data seg)) em
                   else Inr em) (\<lambda>em.
           let k = (if seg_xmit seg \<ge> dead_link k then k\<lparr>state := - 1\<rparr> else k)
           in Inr (seg, k, em)))))"

text \<open>The loop over \<^verbatim>\<open>snd_buf\<close>; it returns the buffer with the segments as they are now.\<close>

fun ikcp_flush_data ::
  "u32 \<Rightarrow> u32 \<Rightarrow> u32 \<Rightarrow> ikcpseg list \<Rightarrow> kcpcb \<Rightarrow> emission \<Rightarrow> bool \<Rightarrow> nat \<Rightarrow>
     flush_error + ikcpseg list \<times> kcpcb \<times> emission \<times> bool \<times> nat" where
  "ikcp_flush_data resent rtomin wnd [] k em lost change = Inr ([], k, em, lost, change)"
| "ikcp_flush_data resent rtomin wnd (seg # p) k em lost change =
     (let (needsend, seg, k, lost, change) = ikcp_flush_decide resent rtomin k seg lost change in
      err_bind (if needsend then ikcp_flush_emit wnd k seg em else Inr (seg, k, em)) (\<lambda>(seg, k, em).
      err_bind (ikcp_flush_data resent rtomin wnd p k em lost change) (\<lambda>(q, k, em, lost, change).
        Inr (seg # q, k, em, lost, change))))"

definition ikcp_flush_finish :: "u32 \<Rightarrow> u32 \<Rightarrow> bool \<Rightarrow> nat \<Rightarrow> kcpcb \<Rightarrow> kcpcb" where
  "ikcp_flush_finish w resent lost change k =
     (let k = (if change \<noteq> 0
               then let inflight = snd_nxt k - snd_una k;
                        k = k\<lparr>ssthresh := inflight div 2\<rparr>;
                        k = (if ssthresh k < IKCP_THRESH_MIN then k\<lparr>ssthresh := IKCP_THRESH_MIN\<rparr> else k);
                        k = k\<lparr>cwnd := ssthresh k + resent\<rparr>
                    in k\<lparr>incr := cwnd k * mss k\<rparr>
               else k);
          k = (if lost
               then let k = k\<lparr>ssthresh := w div 2\<rparr>;
                        k = (if ssthresh k < IKCP_THRESH_MIN then k\<lparr>ssthresh := IKCP_THRESH_MIN\<rparr> else k)
                    in k\<lparr>cwnd := 1, incr := mss k\<rparr>
               else k)
      in if cwnd k < 1 then k\<lparr>cwnd := 1, incr := mss k\<rparr> else k)"

definition ikcp_flush :: "kcpcb \<Rightarrow> flush_error + kcpcb \<times> bytes list" where
  "ikcp_flush k =
     (if updated k = 0 then Inr (k, [])
      else
        let seg = ikcp_flush_seg k; em = \<lparr>em_ptr = [], em_sent = []\<rparr> in
        err_bind (ikcp_flush_acks k [0..<nat (sint (ackcount k))] seg em) (\<lambda>(seg, em).
        let k = ikcp_flush_probe (k\<lparr>ackcount := 0\<rparr>) in
        err_bind (ikcp_flush_ask k IKCP_ASK_SEND IKCP_CMD_WASK seg em) (\<lambda>em.
        err_bind (ikcp_flush_ask k IKCP_ASK_TELL IKCP_CMD_WINS seg em) (\<lambda>em.
        let k = k\<lparr>probe := 0\<rparr>;
            w = ikcp_flush_cwnd k;
            k = ikcp_flush_move w (seg_wnd seg) k;
            resent = (if fastresend k > 0 then to_u32 (fastresend k) else 0xffffffff);
            rtomin = (if nodelay k = 0 then to_u32 (rx_rto k div 8) else 0)
        in
        err_bind (ikcp_flush_data resent rtomin (seg_wnd seg) (snd_buf k) k em False 0)
          (\<lambda>(q, k, em, lost, change).
        let k = k\<lparr>snd_buf := q\<rparr> in
        err_bind (if em_ptr em \<noteq> [] then ikcp_output k em else Inr em) (\<lambda>em.
          Inr (ikcp_flush_finish w resent lost change k, em_sent em)))))))"

section \<open>Moving new segments into flight\<close>

abbreviation in_flight :: "kcpcb \<Rightarrow> nat" where
  "in_flight k \<equiv> seqoff (snd_una k) (snd_nxt k)"

abbreviation move_step :: "u32 \<Rightarrow> kcpcb \<Rightarrow> ikcpseg \<Rightarrow> ikcpseg list \<Rightarrow> kcpcb" where
  "move_step wnd k newseg rest \<equiv>
     k\<lparr>snd_queue := rest, snd_buf := snd_buf k @ [ikcp_flush_newseg k wnd newseg],
       nsnd_que := nsnd_que k - 1, nsnd_buf := nsnd_buf k + 1, snd_nxt := snd_nxt k + 1\<rparr>"

lemma flight_room_iff:
  assumes "in_flight k \<le> 65535" and "unat w \<le> 65535"
  shows "itimediff (snd_nxt k) (snd_una k + w) < 0 \<longleftrightarrow> in_flight k < unat w"
proof -
  have "itimediff (snd_nxt k) (snd_una k + w) = int (in_flight k) - int (unat w)"
    using itimediff_window [of "snd_una k" "snd_nxt k" "snd_una k + w"] assms by simp
  then show ?thesis by simp
qed

lemma flush_move_step:
  assumes "in_flight k < unat w" and "unat w \<le> 65535" and "snd_queue k = newseg # rest"
  shows "ikcp_flush_move w wnd k = ikcp_flush_move w wnd (move_step wnd k newseg rest)"
  using assms by (subst ikcp_flush_move.simps) (simp add: flight_room_iff)

lemma flush_move_stop:
  assumes "in_flight k \<le> 65535" and "unat w \<le> 65535"
    and "unat w \<le> in_flight k \<or> snd_queue k = []"
  shows "ikcp_flush_move w wnd k = k"
  using assms by (subst ikcp_flush_move.simps) (auto simp: flight_room_iff split: list.split)

lemma flight_Suc:
  "in_flight k \<le> 65535 \<Longrightarrow> seqoff (snd_una k) (snd_nxt k + 1) = Suc (in_flight k)"
  using seqoff_plus [of "snd_una k" "snd_nxt k" 1] by simp

lemma flush_move_induct:
  assumes "P k" and "in_flight k \<le> 65535" and "unat w \<le> 65535"
    and step: "\<And>k newseg rest. P k \<Longrightarrow> in_flight k < unat w \<Longrightarrow> snd_queue k = newseg # rest \<Longrightarrow>
      P (move_step wnd k newseg rest)"
  shows "P (ikcp_flush_move w wnd k)"
  using assms(1,2)
proof (induction "length (snd_queue k)" arbitrary: k)
  case 0
  then show ?case using assms(3) by (simp add: flush_move_stop)
next
  case (Suc n)
  show ?case
  proof (cases "in_flight k < unat w")
    case False
    then show ?thesis using Suc.prems assms(3) by (simp add: flush_move_stop)
  next
    case True
    obtain s rest where q: "snd_queue k = s # rest" using Suc.hyps(2) by (cases "snd_queue k") auto
    have "in_flight (move_step wnd k s rest) \<le> 65535"
      using True assms(3) Suc.prems(2) by (simp add: flight_Suc)
    then show ?thesis
      unfolding flush_move_step [OF True assms(3) q]
      using Suc.hyps(2) q by (intro Suc.hyps(1) step [OF Suc.prems(1) True q]) simp_all
  qed
qed

text \<open>The number of segments that move, and the whole effect.\<close>

definition move_count :: "u32 \<Rightarrow> kcpcb \<Rightarrow> nat" where
  "move_count w k = min (length (snd_queue k)) (unat w - in_flight k)"

definition new_flight :: "u32 \<Rightarrow> kcpcb \<Rightarrow> nat \<Rightarrow> ikcpseg list" where
  "new_flight wnd k n =
     map (\<lambda>i. (ikcp_flush_newseg k wnd (snd_queue k ! i))\<lparr>seg_sn := snd_nxt k + of_nat i\<rparr>) [0..<n]"

lemma flush_move_spec:
  assumes "in_flight k \<le> 65535" and "unat w \<le> 65535"
  shows "ikcp_flush_move w wnd k =
    (let n = move_count w k in
     k\<lparr>snd_queue := drop n (snd_queue k), snd_buf := snd_buf k @ new_flight wnd k n,
       nsnd_que := nsnd_que k - of_nat n, nsnd_buf := nsnd_buf k + of_nat n,
       snd_nxt := snd_nxt k + of_nat n\<rparr>)"
  using assms(1)
proof (induction "length (snd_queue k)" arbitrary: k)
  case 0
  then show ?case using assms(2) by (simp add: flush_move_stop move_count_def new_flight_def)
next
  case (Suc n)
  show ?case
  proof (cases "in_flight k < unat w")
    case False
    then show ?thesis using Suc.prems assms(2) by (simp add: flush_move_stop move_count_def new_flight_def)
  next
    case True
    obtain s rest where q: "snd_queue k = s # rest" using Suc.hyps(2) by (cases "snd_queue k") auto
    let ?k = "move_step wnd k s rest"
    have f: "in_flight ?k = Suc (in_flight k)" using Suc.prems by (simp add: flight_Suc)
    have "n = length (snd_queue ?k)" "in_flight ?k \<le> 65535"
      using Suc.hyps(2) q f True assms(2) by simp_all
    note IH = Suc.hyps(1) [OF this]
    let ?n = "move_count w ?k"
    have n: "move_count w k = Suc ?n" using True f q by (simp add: move_count_def)
    have head: "ikcp_flush_newseg k wnd s = (ikcp_flush_newseg k wnd s)\<lparr>seg_sn := snd_nxt k\<rparr>"
      by (simp add: ikcp_flush_newseg_def)
    have "new_flight wnd k (Suc ?n) = ikcp_flush_newseg k wnd s # new_flight wnd ?k ?n"
      by (subst head)
        (simp add: new_flight_def q upt_conv_Cons map_Suc_upt [symmetric] comp_def
          ikcp_flush_newseg_def add.assoc del: upt_Suc)
    then show ?thesis
      unfolding flush_move_step [OF True assms(2) q] IH n Let_def
      using q by (simp add: algebra_simps)
  qed
qed

lemma move_step_wf:
  assumes wf: "kcp_wf k" and f: "in_flight k < unat w" "unat w \<le> 65535" and q: "snd_queue k = newseg # rest"
  shows "kcp_wf (move_step wnd k newseg rest)"
proof -
  have core: "snd_core k" using wf by (rule kcp_wfD)
  let ?new = "ikcp_flush_newseg k wnd newseg"
  have sn: "seg_sn ?new = snd_nxt k" by (simp add: ikcp_flush_newseg_def)
  have w: "window_sorted (snd_una k) (snd_buf k @ [?new])"
    using core f by (auto simp: snd_core_def window_sorted_append window_sorted_Cons sn)
  have nx: "seqoff (snd_una k) (snd_nxt k + 1) = Suc (in_flight k)"
    using f by (simp add: flight_Suc)
  have "snd_core (move_step wnd k newseg rest)"
    using core w f q by (auto simp: snd_core_def nx sn)
  moreover have "una_exact (move_step wnd k newseg rest)"
    using kcp_wfD(2) [OF wf] by (cases "snd_buf k") (simp_all add: una_exact_def una_ok_def first_sn_def sn)
  moreover have "segs_wf (move_step wnd k newseg rest)"
    using kcp_wfD(6) [OF wf] q by (auto simp: segs_wf_def ikcp_flush_newseg_def seg_ok_def)
  ultimately show ?thesis using wf by (simp add: kcp_wf_def rcv_core_def ack_wf_def cfg_wf_def)
qed

lemma flush_move_wf:
  assumes "kcp_wf k" and "unat w \<le> 65535"
  shows "kcp_wf (ikcp_flush_move w wnd k)"
proof (rule flush_move_induct [where P = kcp_wf])
  show "in_flight k \<le> 65535" using kcp_wfD(1) [OF assms(1)] by (simp add: snd_core_def)
qed (use assms move_step_wf in blast)+

lemma flush_cwnd_le:
  assumes "kcp_wf k" shows "unat (ikcp_flush_cwnd k) \<le> 65535"
  using kcp_wfD(1) [OF assms]
  by (auto simp: ikcp_flush_cwnd_def Let_def imin_def snd_core_def word_le_nat_alt)

section \<open>Datagrams are packed from whole segments\<close>

definition packed :: "ikcpseg \<Rightarrow> bytes" where
  "packed s = ikcp_encode_seg [] s @ seg_data s"

definition packet :: "ikcpseg list \<Rightarrow> bytes" where
  "packet segs = concat (map packed segs)"

lemma packet_simps [simp]:
  "packet [] = []" "packet (xs @ ys) = packet xs @ packet ys" "packet [s] = packed s"
  by (simp_all add: packet_def)

lemma length_packed: "length (packed s) = 24 + length (seg_data s)"
  by (simp add: packed_def)

text \<open>
  What an emission holds: the segments written so far, in groups that were sent as one datagram
  each, and a last group that is still in the buffer; nothing is longer than \<open>m\<close>.
\<close>

definition em_holds :: "nat \<Rightarrow> ikcpseg list \<Rightarrow> emission \<Rightarrow> bool" where
  "em_holds m segs em \<longleftrightarrow>
     (\<exists>groups cur. em_sent em = map packet groups \<and> em_ptr em = packet cur \<and>
        concat groups @ cur = segs \<and> [] \<notin> set groups) \<and>
     length (em_ptr em) \<le> m \<and> (\<forall>p \<in> set (em_sent em). length p \<le> m)"

definition can_emit :: "kcpcb \<Rightarrow> bool" where
  "can_emit k \<longleftrightarrow> output_set k \<and> unat (mtu k) \<le> unat (buffer k) \<and>
     24 \<le> unat (mtu k) \<and> unat (mtu k) < 2147483648"

abbreviation mtu_of :: "kcpcb \<Rightarrow> nat" where
  "mtu_of k \<equiv> unat (mtu k)"

lemma em_holds_start: "em_holds m [] \<lparr>em_ptr = [], em_sent = []\<rparr>"
  unfolding em_holds_def by (auto intro!: exI [of _ "[]"])

lemma packet_eq_Nil [simp]: "packet segs = [] \<longleftrightarrow> segs = []"
proof
  assume "packet segs = []"
  then show "segs = []" by (cases segs) (auto simp: packet_def dest: arg_cong [where f = length] simp: length_packed)
qed simp

lemma em_flush_out:
  assumes "em_holds m segs em" and "output_set k"
  shows "\<exists>em'. ikcp_output k em = Inr em' \<and> em_holds m segs (em'\<lparr>em_ptr := []\<rparr>)"
proof (cases "em_ptr em = []")
  case True
  then show ?thesis using assms by (simp add: ikcp_output_def) (metis emission.surjective emission.update_convs(1))
next
  case False
  obtain groups cur where g: "em_sent em = map packet groups" "em_ptr em = packet cur"
    "concat groups @ cur = segs" "[] \<notin> set groups"
    using assms(1) unfolding em_holds_def by blast
  then have "cur \<noteq> []" using False by auto
  moreover have "length (em_ptr em) \<le> m" "\<forall>p \<in> set (em_sent em). length p \<le> m"
    using assms(1) by (simp_all add: em_holds_def)
  ultimately have "em_holds m segs (em\<lparr>em_sent := em_sent em @ [em_ptr em], em_ptr := []\<rparr>)"
    unfolding em_holds_def using g
    by (auto intro!: exI [of _ "groups @ [cur]"] exI [of _ "[] :: ikcpseg list"])
  then show ?thesis using False assms(2) by (simp add: ikcp_output_def)
qed

lemma make_room_holds:
  assumes h: "em_holds (mtu_of k) segs em" and c: "can_emit k" and n: "0 \<le> need" "need \<le> int (mtu_of k)"
  shows "\<exists>em'. ikcp_make_room k need em = Inr em' \<and> em_holds (mtu_of k) segs em' \<and>
    int (length (em_ptr em')) + need \<le> int (mtu_of k)"
proof -
  have m: "sint (mtu k) = int (mtu_of k)" using c by (simp add: can_emit_def sint_small)
  have o: "output_set k" using c by (simp add: can_emit_def)
  show ?thesis
  proof (cases "int (length (em_ptr em)) + need > sint (mtu k)")
    case True
    obtain em' where "ikcp_output k em = Inr em'" "em_holds (mtu_of k) segs (em'\<lparr>em_ptr := []\<rparr>)"
      using em_flush_out [OF h o] by blast
    then show ?thesis using True n(2) by (simp add: ikcp_make_room_def)
  next
    case False
    then show ?thesis using h m by (simp add: ikcp_make_room_def)
  qed
qed

text \<open>Writing a segment, header and data, into a buffer with room for it.\<close>

lemma write_seg_holds:
  assumes h: "em_holds (mtu_of k) segs em" and c: "can_emit k"
    and n: "length (em_ptr em) + length (packed s) \<le> mtu_of k" and ok: "seg_ok s"
  shows "\<exists>em'. err_bind (ikcp_write_hdr k s em) (\<lambda>em.
      if seg_len s > 0 then ikcp_write k (take (unat (seg_len s)) (seg_data s)) em else Inr em) = Inr em' \<and>
    em_holds (mtu_of k) (segs @ [s]) em'"
proof -
  let ?em = "em\<lparr>em_ptr := em_ptr em @ packed s\<rparr>"
  have b: "length (em_ptr em) + length (packed s) \<le> unat (buffer k)"
    using n c by (auto simp: can_emit_def)
  have nz: "seg_len s > 0 \<longleftrightarrow> seg_data s \<noteq> []"
    using ok by (auto simp: seg_ok_def word_less_nat_alt)
  have t: "take (unat (seg_len s)) (seg_data s) = seg_data s" using ok by (simp add: seg_ok_def)
  have "err_bind (ikcp_write_hdr k s em) (\<lambda>em.
      if seg_len s > 0 then ikcp_write k (take (unat (seg_len s)) (seg_data s)) em else Inr em) = Inr ?em"
    using b nz unfolding t by (auto simp: ikcp_write_hdr_def ikcp_write_def packed_def)
  moreover have "em_holds (mtu_of k) (segs @ [s]) ?em"
  proof -
    obtain groups cur where g: "em_sent em = map packet groups" "em_ptr em = packet cur"
      "concat groups @ cur = segs" "[] \<notin> set groups"
      using h unfolding em_holds_def by blast
    show ?thesis
      unfolding em_holds_def
      using g n h by (auto simp: em_holds_def intro!: exI [of _ groups] exI [of _ "cur @ [s]"])
  qed
  ultimately show ?thesis by blast
qed

lemma write_hdr_holds:
  assumes h: "em_holds (mtu_of k) segs em" and c: "can_emit k"
    and n: "length (em_ptr em) + 24 \<le> mtu_of k" and s: "seg_data s = []"
  shows "\<exists>em'. ikcp_write_hdr k s em = Inr em' \<and> em_holds (mtu_of k) (segs @ [s]) em'"
proof -
  obtain groups cur where g: "em_sent em = map packet groups" "em_ptr em = packet cur"
    "concat groups @ cur = segs" "[] \<notin> set groups"
    using h unfolding em_holds_def by blast
  have "em_holds (mtu_of k) (segs @ [s]) (em\<lparr>em_ptr := em_ptr em @ packed s\<rparr>)"
    unfolding em_holds_def
    using g n h s by (auto simp: em_holds_def length_packed intro!: exI [of _ groups] exI [of _ "cur @ [s]"])
  moreover have "ikcp_write_hdr k s em = Inr (em\<lparr>em_ptr := em_ptr em @ packed s\<rparr>)"
    using n c s by (auto simp: ikcp_write_hdr_def ikcp_write_def packed_def can_emit_def)
  ultimately show ?thesis by blast
qed

section \<open>Acknowledgements and probes\<close>

definition ack_segs :: "kcpcb \<Rightarrow> nat list \<Rightarrow> ikcpseg \<Rightarrow> ikcpseg list" where
  "ack_segs k is seg = map (\<lambda>i. seg\<lparr>seg_sn := fst (acks k ! i), seg_ts := snd (acks k ! i)\<rparr>) is"

lemma flush_acks_holds:
  assumes c: "can_emit k" and wf: "ack_wf k"
    and "em_holds (mtu_of k) segs em" and "seg_data seg = []" and "\<forall>i \<in> set is. i < unat (ackcount k)"
  shows "\<exists>em'. ikcp_flush_acks k is seg em = Inr (last (seg # ack_segs k is seg), em') \<and>
    em_holds (mtu_of k) (segs @ ack_segs k is seg) em'"
  using assms(3-)
proof (induction "is" arbitrary: segs em seg)
  case Nil
  then show ?case by (simp add: ack_segs_def)
next
  case (Cons i "is")
  have "0 \<le> (24::int)" "24 \<le> int (mtu_of k)" using c by (simp_all add: can_emit_def)
  from make_room_holds [OF Cons.prems(1) c this] obtain em1 where
    em1: "ikcp_make_room k 24 em = Inr em1" "em_holds (mtu_of k) segs em1" "length (em_ptr em1) + 24 \<le> mtu_of k"
    by auto
  let ?s = "seg\<lparr>seg_sn := fst (acks k ! i), seg_ts := snd (acks k ! i)\<rparr>"
  have "seg_data ?s = []" using Cons.prems(2) by simp
  from write_hdr_holds [OF em1(2) c em1(3) this] obtain em2 where
    em2: "ikcp_write_hdr k ?s em1 = Inr em2" "em_holds (mtu_of k) (segs @ [?s]) em2" by blast
  have "\<forall>i \<in> set is. i < unat (ackcount k)" using Cons.prems(3) by simp
  from Cons.IH [OF em2(2) \<open>seg_data ?s = []\<close> this] obtain em' where
    r: "ikcp_flush_acks k is ?s em2 = Inr (last (?s # ack_segs k is ?s), em')"
    "em_holds (mtu_of k) ((segs @ [?s]) @ ack_segs k is ?s) em'" by blast
  have same: "ack_segs k is ?s = ack_segs k is seg" by (simp add: ack_segs_def)
  have get: "ikcp_ack_get k i = Some (acks k ! i)" using wf Cons.prems(3) by (intro ack_get_spec) simp_all
  have "ikcp_flush_acks k (i # is) seg em = Inr (last (seg # ack_segs k (i # is) seg), em')"
    using r(1) by (simp add: em1(1) get em2(1) Let_def split_beta same) (simp add: ack_segs_def)
  moreover have "ack_segs k (i # is) seg = ?s # ack_segs k is ?s" by (simp add: ack_segs_def)
  ultimately show ?case using r(2) by auto
qed

definition ask_segs :: "kcpcb \<Rightarrow> u32 \<Rightarrow> u32 \<Rightarrow> ikcpseg \<Rightarrow> ikcpseg list" where
  "ask_segs k ask cmd seg = (if probe k AND ask \<noteq> 0 then [seg\<lparr>seg_cmd := cmd\<rparr>] else [])"

lemma flush_ask_holds:
  assumes c: "can_emit k" and h: "em_holds (mtu_of k) segs em" and s: "seg_data seg = []"
  shows "\<exists>em'. ikcp_flush_ask k ask cmd seg em = Inr em' \<and>
    em_holds (mtu_of k) (segs @ ask_segs k ask cmd seg) em'"
proof (cases "probe k AND ask = 0")
  case True
  then show ?thesis using h by (simp add: ikcp_flush_ask_def ask_segs_def)
next
  case False
  have "0 \<le> (24::int)" "24 \<le> int (mtu_of k)" using c by (simp_all add: can_emit_def)
  from make_room_holds [OF h c this] obtain em1 where
    em1: "ikcp_make_room k 24 em = Inr em1" "em_holds (mtu_of k) segs em1" "length (em_ptr em1) + 24 \<le> mtu_of k"
    by auto
  have "seg_data (seg\<lparr>seg_cmd := cmd\<rparr>) = []" using s by simp
  from write_hdr_holds [OF em1(2) c em1(3) this] show ?thesis
    using False em1(1) by (simp add: ikcp_flush_ask_def ask_segs_def)
qed

section \<open>Data segments\<close>

text \<open>Why a segment in flight is sent: for the first time, after its timeout, or overtaken.\<close>

definition seg_lost :: "kcpcb \<Rightarrow> ikcpseg \<Rightarrow> bool" where
  "seg_lost k s \<longleftrightarrow> seg_xmit s \<noteq> 0 \<and> itimediff (current k) (seg_resendts s) \<ge> 0"

definition seg_fast :: "u32 \<Rightarrow> kcpcb \<Rightarrow> ikcpseg \<Rightarrow> bool" where
  "seg_fast resent k s \<longleftrightarrow> seg_xmit s \<noteq> 0 \<and> itimediff (current k) (seg_resendts s) < 0 \<and>
     seg_fastack s \<ge> resent \<and> (sint (seg_xmit s) \<le> fastlimit k \<or> fastlimit k \<le> 0)"

definition seg_due :: "u32 \<Rightarrow> kcpcb \<Rightarrow> ikcpseg \<Rightarrow> bool" where
  "seg_due resent k s \<longleftrightarrow> seg_xmit s = 0 \<or> seg_lost k s \<or> seg_fast resent k s"

text \<open>The segment after the loop has visited it.\<close>

definition seg_next :: "u32 \<Rightarrow> u32 \<Rightarrow> u32 \<Rightarrow> kcpcb \<Rightarrow> ikcpseg \<Rightarrow> ikcpseg" where
  "seg_next resent rtomin wnd k s =
     (let s' = fst (snd (ikcp_flush_decide resent rtomin k s False 0)) in
      if seg_due resent k s then s'\<lparr>seg_ts := current k, seg_wnd := wnd, seg_una := rcv_nxt k\<rparr> else s)"

lemma flush_decide_spec:
  "ikcp_flush_decide resent rtomin k s lost change =
    (seg_due resent k s, fst (snd (ikcp_flush_decide resent rtomin k s False 0)),
     (if seg_lost k s then k\<lparr>xmit := xmit k + 1\<rparr> else k),
     lost \<or> seg_lost k s, change + (if seg_fast resent k s then 1 else 0))"
  by (simp add: ikcp_flush_decide_def Let_def seg_due_def seg_lost_def seg_fast_def)

lemma flush_decide_keeps:
  assumes "s' = fst (snd (ikcp_flush_decide resent rtomin k s False 0))"
  shows "seg_sn s' = seg_sn s" "seg_len s' = seg_len s" "seg_data s' = seg_data s" "seg_frg s' = seg_frg s"
    "seg_conv s' = seg_conv s" "seg_cmd s' = seg_cmd s"
  by (simp_all add: assms ikcp_flush_decide_def Let_def seg_due_def seg_lost_def seg_fast_def)

lemma seg_next_keeps [simp]:
  "seg_sn (seg_next resent rtomin wnd k s) = seg_sn s" "seg_len (seg_next resent rtomin wnd k s) = seg_len s"
  "seg_data (seg_next resent rtomin wnd k s) = seg_data s" "seg_frg (seg_next resent rtomin wnd k s) = seg_frg s"
  "seg_conv (seg_next resent rtomin wnd k s) = seg_conv s" "seg_cmd (seg_next resent rtomin wnd k s) = seg_cmd s"
  using flush_decide_keeps [OF refl] by (simp_all add: seg_next_def Let_def)

lemma seg_next_ok [simp]: "seg_ok (seg_next resent rtomin wnd k s) = seg_ok s"
  by (simp add: seg_ok_def)

text \<open>The loop changes \<open>xmit\<close> and \<open>state\<close> of the block, which nothing in it reads.\<close>

lemma decide_frame:
  "fst (snd (ikcp_flush_decide resent rtomin (k\<lparr>xmit := x, state := st\<rparr>) s False 0)) =
   fst (snd (ikcp_flush_decide resent rtomin k s False 0))"
  by (simp add: ikcp_flush_decide_def Let_def)

lemma seg_frame [simp]:
  "seg_lost (k\<lparr>xmit := x, state := st\<rparr>) s = seg_lost k s"
  "seg_fast resent (k\<lparr>xmit := x, state := st\<rparr>) s = seg_fast resent k s"
  "seg_due resent (k\<lparr>xmit := x, state := st\<rparr>) s = seg_due resent k s"
  "can_emit (k\<lparr>xmit := x, state := st\<rparr>) = can_emit k"
  by (simp_all add: seg_lost_def seg_fast_def seg_due_def can_emit_def)

lemma seg_next_frame [simp]:
  "seg_next resent rtomin wnd (k\<lparr>xmit := x, state := st\<rparr>) s = seg_next resent rtomin wnd k s"
  by (simp add: seg_next_def decide_frame)

definition dead_seg :: "kcpcb \<Rightarrow> ikcpseg \<Rightarrow> bool" where
  "dead_seg k s \<longleftrightarrow> seg_xmit s \<ge> dead_link k"

lemma flush_emit_holds:
  assumes c: "can_emit k" and h: "em_holds (mtu_of k) segs em"
    and ok: "seg_ok s" and fit: "24 + length (seg_data s) \<le> mtu_of k"
    and s': "s' = s\<lparr>seg_ts := current k, seg_wnd := wnd, seg_una := rcv_nxt k\<rparr>"
  shows "\<exists>em'. ikcp_flush_emit wnd k s em =
      Inr (s', if dead_seg k s' then k\<lparr>state := - 1\<rparr> else k, em') \<and>
    em_holds (mtu_of k) (segs @ [s']) em'"
proof -
  have ok': "seg_ok s'" using ok by (simp add: s' seg_ok_def)
  have "unat (IKCP_OVERHEAD + seg_len s) = 24 + length (seg_data s)"
    using ok fit c by (simp add: seg_ok_def kcp_defs unat_word_ariths can_emit_def)
  then have need: "sint (IKCP_OVERHEAD + seg_len s) = 24 + int (length (seg_data s))"
    using fit c by (subst sint_small) (simp_all add: can_emit_def)
  have "0 \<le> sint (IKCP_OVERHEAD + seg_len s)" "sint (IKCP_OVERHEAD + seg_len s) \<le> int (mtu_of k)"
    using fit by (simp_all add: need)
  from make_room_holds [OF h c this] obtain em1 where
    em1: "ikcp_make_room k (sint (IKCP_OVERHEAD + seg_len s)) em = Inr em1" "em_holds (mtu_of k) segs em1"
    "length (em_ptr em1) + length (packed s') \<le> mtu_of k"
    unfolding need by (auto simp: length_packed s')
  from write_seg_holds [OF em1(2) c em1(3) ok'] obtain em2 em' where w:
    "ikcp_write_hdr k s' em1 = Inr em2"
    "(if seg_len s' > 0 then ikcp_write k (take (unat (seg_len s')) (seg_data s')) em2 else Inr em2) = Inr em'"
    "em_holds (mtu_of k) (segs @ [s']) em'"
    by (auto simp: err_bind_Inr)
  have "ikcp_flush_emit wnd k s em = Inr (s', if dead_seg k s' then k\<lparr>state := - 1\<rparr> else k, em')"
    unfolding ikcp_flush_emit_def Let_def s' [symmetric]
    using em1(1) w(1,2) by (simp add: s' dead_seg_def)
  with w(3) show ?thesis by blast
qed


lemma decide_not_due:
  assumes "\<not> seg_due resent k s"
  shows "fst (snd (ikcp_flush_decide resent rtomin k s lost change)) = s"
proof -
  have "seg_xmit s \<noteq> 0" "\<not> itimediff (current k) (seg_resendts s) \<ge> 0"
    "seg_fastack s \<ge> resent \<Longrightarrow> \<not> (sint (seg_xmit s) \<le> fastlimit k \<or> fastlimit k \<le> 0)"
    using assms unfolding seg_due_def seg_lost_def seg_fast_def by linarith+
  then show ?thesis by (simp add: ikcp_flush_decide_def)
qed

lemma flush_data_holds:
  assumes c: "can_emit k" and fit: "\<forall>s \<in> set p. seg_ok s \<and> 24 + length (seg_data s) \<le> mtu_of k"
    and h: "em_holds (mtu_of k) segs em"
  shows "\<exists>em'. ikcp_flush_data resent rtomin wnd p (k\<lparr>xmit := x, state := st\<rparr>) em lost change =
      Inr (map (seg_next resent rtomin wnd k) p,
           k\<lparr>xmit := x + of_nat (length (filter (seg_lost k) p)),
             state := (if \<exists>s \<in> set p. seg_due resent k s \<and> dead_seg k (seg_next resent rtomin wnd k s)
                       then - 1 else st)\<rparr>,
           em', lost \<or> (\<exists>s \<in> set p. seg_lost k s), change + length (filter (seg_fast resent k) p)) \<and>
    em_holds (mtu_of k) (segs @ map (seg_next resent rtomin wnd k) (filter (seg_due resent k) p)) em'"
  using fit h
proof (induction p arbitrary: segs em x st lost change)
  case Nil
  then show ?case by simp
next
  case (Cons s p)
  let ?k = "k\<lparr>xmit := x, state := st\<rparr>" and ?x = "x + of_nat (length (filter (seg_lost k) [s]))"
  let ?lost = "lost \<or> seg_lost k s" and ?change = "change + (if seg_fast resent k s then 1 else 0)"
  define d where "d = fst (snd (ikcp_flush_decide resent rtomin k s False 0))"
  have keep: "seg_ok d = seg_ok s" "seg_data d = seg_data s"
    using flush_decide_keeps [OF d_def] by (simp_all add: seg_ok_def)
  have dec: "ikcp_flush_decide resent rtomin ?k s lost change =
      (seg_due resent k s, d, k\<lparr>xmit := ?x, state := st\<rparr>, ?lost, ?change)"
    by (subst flush_decide_spec) (simp add: decide_frame d_def)
  have fitp: "\<forall>s \<in> set p. seg_ok s \<and> 24 + length (seg_data s) \<le> mtu_of k" using Cons.prems(1) by simp
  show ?case
  proof (cases "seg_due resent k s")
    case False
    have n: "seg_next resent rtomin wnd k s = s" using False by (simp add: seg_next_def)
    have ds: "d = s" unfolding d_def by (rule decide_not_due [OF False])
    have "ikcp_flush_data resent rtomin wnd (s # p) ?k em lost change =
        err_bind (ikcp_flush_data resent rtomin wnd p (k\<lparr>xmit := ?x, state := st\<rparr>) em ?lost ?change)
          (\<lambda>(q, k, em, lost, change). Inr (s # q, k, em, lost, change))"
      unfolding ikcp_flush_data.simps dec Let_def using False by (simp add: ds)
    moreover have "\<not> seg_lost k s" "\<not> seg_fast resent k s" using False by (simp_all add: seg_due_def)
    ultimately show ?thesis
      using Cons.IH [OF fitp Cons.prems(2), where x = x and st = st and lost = lost and change = change] False n
      by auto
  next
    case True
    let ?s = "seg_next resent rtomin wnd k s"
    have n: "?s = d\<lparr>seg_ts := current k, seg_wnd := wnd, seg_una := rcv_nxt k\<rparr>"
      using True by (simp add: seg_next_def d_def)
    let ?k1 = "k\<lparr>xmit := ?x, state := st\<rparr>"
    have "can_emit ?k1" "em_holds (mtu_of ?k1) segs em" "seg_ok d" "24 + length (seg_data d) \<le> mtu_of ?k1"
      "?s = d\<lparr>seg_ts := current ?k1, seg_wnd := wnd, seg_una := rcv_nxt ?k1\<rparr>"
      using c Cons.prems keep n by simp_all
    from flush_emit_holds [OF this] obtain em1 where e:
      "ikcp_flush_emit wnd ?k1 d em = Inr (?s, k\<lparr>xmit := ?x, state := if dead_seg k ?s then - 1 else st\<rparr>, em1)"
      "em_holds (mtu_of k) (segs @ [?s]) em1"
      by (auto simp: dead_seg_def split: if_splits)
    let ?st = "if dead_seg k ?s then - 1 else st"
    have step: "ikcp_flush_data resent rtomin wnd (s # p) ?k em lost change =
        err_bind (ikcp_flush_data resent rtomin wnd p (k\<lparr>xmit := ?x, state := ?st\<rparr>) em1 ?lost ?change)
          (\<lambda>(q, k, em, lost, change). Inr (?s # q, k, em, lost, change))"
      unfolding ikcp_flush_data.simps dec Let_def using True e(1) by simp
    obtain em' where IH: "ikcp_flush_data resent rtomin wnd p (k\<lparr>xmit := ?x, state := ?st\<rparr>) em1 ?lost ?change =
        Inr (map (seg_next resent rtomin wnd k) p,
           k\<lparr>xmit := ?x + of_nat (length (filter (seg_lost k) p)),
             state := (if \<exists>s \<in> set p. seg_due resent k s \<and> dead_seg k (seg_next resent rtomin wnd k s)
                       then - 1 else ?st)\<rparr>,
           em', ?lost \<or> (\<exists>s \<in> set p. seg_lost k s), ?change + length (filter (seg_fast resent k) p))"
      "em_holds (mtu_of k) ((segs @ [?s]) @ map (seg_next resent rtomin wnd k) (filter (seg_due resent k) p)) em'"
      using Cons.IH [OF fitp e(2), where x = ?x and st = ?st and lost = ?lost and change = ?change] by blast
    have st: "(if \<exists>s \<in> set p. seg_due resent k s \<and> dead_seg k (seg_next resent rtomin wnd k s) then - 1 else ?st) =
      (if \<exists>s \<in> set (s # p). seg_due resent k s \<and> dead_seg k (seg_next resent rtomin wnd k s) then - 1 else st)"
      using True by auto
    have "ikcp_flush_data resent rtomin wnd (s # p) ?k em lost change = Inr (map (seg_next resent rtomin wnd k) (s # p),
           k\<lparr>xmit := x + of_nat (length (filter (seg_lost k) (s # p))),
             state := (if \<exists>s \<in> set (s # p). seg_due resent k s \<and> dead_seg k (seg_next resent rtomin wnd k s)
                       then - 1 else st)\<rparr>,
           em', lost \<or> (\<exists>s \<in> set (s # p). seg_lost k s), change + length (filter (seg_fast resent k) (s # p)))"
      unfolding step IH(1) st by (simp add: add.assoc)
    moreover have "em_holds (mtu_of k) (segs @ map (seg_next resent rtomin wnd k) (filter (seg_due resent k) (s # p))) em'"
      using IH(2) True by simp
    ultimately show ?thesis by (intro exI [of _ em'] conjI)
  qed
qed

section \<open>The whole flush\<close>

text \<open>What a flush should write, phase by phase, as lists of segments.\<close>

definition flush_acks_out :: "kcpcb \<Rightarrow> ikcpseg list" where
  "flush_acks_out k = ack_segs k [0..<unat (ackcount k)] (ikcp_flush_seg k)"

definition flush_probed :: "kcpcb \<Rightarrow> kcpcb" where
  "flush_probed k = ikcp_flush_probe (k\<lparr>ackcount := 0\<rparr>)"

definition flush_probes_out :: "kcpcb \<Rightarrow> ikcpseg list" where
  "flush_probes_out k =
     (let seg = last (ikcp_flush_seg k # flush_acks_out k) in
      ask_segs (flush_probed k) IKCP_ASK_SEND IKCP_CMD_WASK seg @
      ask_segs (flush_probed k) IKCP_ASK_TELL IKCP_CMD_WINS seg)"

definition flush_wnd :: "kcpcb \<Rightarrow> u32" where
  "flush_wnd k = to_u32 (ikcp_wnd_unused k)"

definition flush_moved :: "kcpcb \<Rightarrow> kcpcb" where
  "flush_moved k =
     ikcp_flush_move (ikcp_flush_cwnd (flush_probed k)) (flush_wnd k) (flush_probed k\<lparr>probe := 0\<rparr>)"

definition flush_resent :: "kcpcb \<Rightarrow> u32" where
  "flush_resent k = (if fastresend k > 0 then to_u32 (fastresend k) else 0xffffffff)"

definition flush_rtomin :: "kcpcb \<Rightarrow> u32" where
  "flush_rtomin k = (if nodelay k = 0 then to_u32 (rx_rto k div 8) else 0)"

definition flush_next :: "kcpcb \<Rightarrow> ikcpseg \<Rightarrow> ikcpseg" where
  "flush_next k = seg_next (flush_resent k) (flush_rtomin k) (flush_wnd k) (flush_moved k)"

definition flush_due :: "kcpcb \<Rightarrow> ikcpseg list" where
  "flush_due k = filter (seg_due (flush_resent k) (flush_moved k)) (snd_buf (flush_moved k))"

definition flush_segs :: "kcpcb \<Rightarrow> ikcpseg list" where
  "flush_segs k = flush_acks_out k @ flush_probes_out k @ map (flush_next k) (flush_due k)"

text \<open>The state it should leave.\<close>

definition flush_after :: "kcpcb \<Rightarrow> kcpcb" where
  "flush_after k =
     (let m = flush_moved k; buf = snd_buf m in
      ikcp_flush_finish (ikcp_flush_cwnd (flush_probed k)) (flush_resent k)
        (\<exists>s \<in> set buf. seg_lost m s) (length (filter (seg_fast (flush_resent k) m) buf))
        (m\<lparr>xmit := xmit m + of_nat (length (filter (seg_lost m) buf)),
           state := (if \<exists>s \<in> set (flush_due k). dead_seg m (flush_next k s) then - 1 else state m),
           snd_buf := map (flush_next k) buf\<rparr>))"

text \<open>Fields that no phase touches.\<close>

lemma flush_probe_frame:
  "\<exists>w t p. ikcp_flush_probe k = k\<lparr>probe_wait := w, ts_probe := t, probe := p\<rparr>"
  by (cases k) (simp add: ikcp_flush_probe_def Let_def)

lemma flush_move_frame:
  "\<exists>q b nq nb n. ikcp_flush_move w wnd k =
     k\<lparr>snd_queue := q, snd_buf := b, nsnd_que := nq, nsnd_buf := nb, snd_nxt := n\<rparr>"
proof (induction "length (snd_queue k)" arbitrary: k)
  case 0
  then show ?case by (cases k) (subst ikcp_flush_move.simps, simp)
next
  case (Suc m)
  obtain s rest where q: "snd_queue k = s # rest" using Suc.hyps(2) by (cases "snd_queue k") auto
  show ?case
  proof (cases "itimediff (snd_nxt k) (snd_una k + w) < 0")
    case False
    then show ?thesis by (cases k) (subst ikcp_flush_move.simps, simp)
  next
    case True
    then have "ikcp_flush_move w wnd k = ikcp_flush_move w wnd (move_step wnd k s rest)"
      using q by (subst ikcp_flush_move.simps) simp
    then show ?thesis using Suc.hyps(1) [of "move_step wnd k s rest"] Suc.hyps(2) q by auto
  qed
qed

lemma flush_moved_frame:
  "\<exists>w t q b nq nb n. flush_moved k = k\<lparr>ackcount := 0, probe_wait := w, ts_probe := t, probe := 0,
     snd_queue := q, snd_buf := b, nsnd_que := nq, nsnd_buf := nb, snd_nxt := n\<rparr>"
proof -
  obtain w t p where 1: "flush_probed k = k\<lparr>ackcount := 0, probe_wait := w, ts_probe := t, probe := p\<rparr>"
    using flush_probe_frame [of "k\<lparr>ackcount := 0\<rparr>"] by (auto simp: flush_probed_def)
  then have 2: "flush_probed k\<lparr>probe := 0\<rparr> = k\<lparr>ackcount := 0, probe_wait := w, ts_probe := t, probe := 0\<rparr>"
    by simp
  show ?thesis
    using flush_move_frame [of "ikcp_flush_cwnd (flush_probed k)" "flush_wnd k" "flush_probed k\<lparr>probe := 0\<rparr>"]
    unfolding flush_moved_def 2 by blast
qed

lemma flush_moved_fields [simp]:
  "fastresend (flush_moved k) = fastresend k" "nodelay (flush_moved k) = nodelay k"
  "rx_rto (flush_moved k) = rx_rto k" "current (flush_moved k) = current k"
  "mtu (flush_moved k) = mtu k" "can_emit (flush_moved k) = can_emit k"
  "rcv_nxt (flush_moved k) = rcv_nxt k" "conv (flush_moved k) = conv k"
  "rcv_queue (flush_moved k) = rcv_queue k" "rcv_buf (flush_moved k) = rcv_buf k"
  "snd_una (flush_moved k) = snd_una k" "dead_link (flush_moved k) = dead_link k"
  "state (flush_moved k) = state k" "updated (flush_moved k) = updated k"
  using flush_moved_frame [of k] by (auto simp: can_emit_def)

lemma flush_probed_fields [simp]:
  "can_emit (flush_probed k) = can_emit k" "mtu (flush_probed k) = mtu k"
  "snd_buf (flush_probed k) = snd_buf k" "snd_queue (flush_probed k) = snd_queue k"
  "snd_una (flush_probed k) = snd_una k" "snd_nxt (flush_probed k) = snd_nxt k"
  using flush_probe_frame [of "k\<lparr>ackcount := 0\<rparr>"] by (auto simp: can_emit_def flush_probed_def)

lemma kcp_wf_ackcount_0: "kcp_wf k \<Longrightarrow> kcp_wf (k\<lparr>ackcount := 0\<rparr>)"
  by (simp add: kcp_wf_defs)

lemma flush_probed_wf: "kcp_wf k \<Longrightarrow> kcp_wf (flush_probed k)"
  using flush_probe_frame [of "k\<lparr>ackcount := 0\<rparr>"] kcp_wf_ackcount_0 [of k]
  by (auto simp: flush_probed_def)

lemma flush_moved_wf: "kcp_wf k \<Longrightarrow> kcp_wf (flush_moved k)"
  unfolding flush_moved_def
  by (intro flush_move_wf flush_cwnd_le flush_probed_wf) (simp add: flush_probed_wf)

text \<open>The segments in the buffer after the move were queued or in flight before.\<close>

lemma flush_moved_data:
  assumes "kcp_wf k" and "s \<in> set (snd_buf (flush_moved k))"
  shows "seg_ok s \<and> seg_data s \<in> seg_data ` set (snd_buf k @ snd_queue k)"
proof -
  let ?p = "flush_probed k\<lparr>probe := 0\<rparr>" and ?w = "ikcp_flush_cwnd (flush_probed k)"
  have "in_flight ?p \<le> 65535" "unat ?w \<le> 65535"
    using kcp_wfD(1) [OF assms(1)] flush_cwnd_le [OF flush_probed_wf [OF assms(1)]]
    by (simp_all add: snd_core_def)
  from flush_move_spec [OF this, of "flush_wnd k"]
  have b: "snd_buf (flush_moved k) = snd_buf k @ new_flight (flush_wnd k) ?p (move_count ?w ?p)"
    by (simp add: flush_moved_def Let_def)
  have "move_count ?w ?p \<le> length (snd_queue k)" by (simp add: move_count_def)
  then have "seg_data x \<in> seg_data ` set (snd_queue k)"
    if "x \<in> set (new_flight (flush_wnd k) ?p (move_count ?w ?p))" for x
  proof -
    from that obtain i where i: "i < move_count ?w ?p" "seg_data x = seg_data (snd_queue k ! i)"
      by (auto simp: new_flight_def ikcp_flush_newseg_def)
    then have "snd_queue k ! i \<in> set (snd_queue k)"
      using \<open>move_count ?w ?p \<le> length (snd_queue k)\<close> by simp
    then show ?thesis unfolding i(2) by (rule imageI)
  qed
  then have "seg_data s \<in> seg_data ` set (snd_buf k @ snd_queue k)"
    using assms(2) unfolding b by auto
  moreover have "seg_ok s"
    using kcp_wfD(6) [OF flush_moved_wf [OF assms(1)]] assms(2) by (auto simp: segs_wf_def)
  ultimately show ?thesis by simp
qed


text \<open>Everything in the send queue and in flight fits into one datagram.\<close>

definition segs_fit :: "kcpcb \<Rightarrow> bool" where
  "segs_fit k \<longleftrightarrow> (\<forall>s \<in> set (snd_buf k) \<union> set (snd_queue k). length (seg_data s) \<le> unat (mss k))"

lemma last_ack_segs:
  "seg_data (last (seg # ack_segs k is seg)) = seg_data seg \<and> seg_wnd (last (seg # ack_segs k is seg)) = seg_wnd seg"
  by (induction "is" rule: rev_induct) (simp_all add: ack_segs_def)

lemma kcpcb_same: "m\<lparr>xmit := xmit m, state := state m\<rparr> = m" for m :: kcpcb
  by simp

lemma flush_due_ex: "(\<exists>s \<in> set (flush_due k). P s) \<longleftrightarrow>
    (\<exists>s \<in> set (snd_buf (flush_moved k)). seg_due (flush_resent k) (flush_moved k) s \<and> P s)"
  by (auto simp: flush_due_def)

lemma flush_spec:
  assumes wf: "kcp_wf k" and up: "updated k \<noteq> 0" and c: "can_emit k" and fit: "segs_fit k"
    and n: "unat (ackcount k) < 2147483648"
  shows "\<exists>groups. ikcp_flush k = Inr (flush_after k, map packet groups) \<and> concat groups = flush_segs k \<and>
    [] \<notin> set groups \<and> (\<forall>g \<in> set groups. length (packet g) \<le> mtu_of k)"
proof -
  let ?seg = "last (ikcp_flush_seg k # flush_acks_out k)"
  let ?p = "flush_probed k" and ?m = "flush_moved k"
  have cnt: "[0..<nat (sint (ackcount k))] = [0..<unat (ackcount k)]" using n by (simp add: sint_small)
  have "seg_data (ikcp_flush_seg k) = []" by (simp add: ikcp_flush_seg_def)
  from flush_acks_holds [OF c kcp_wfD(4) [OF wf] em_holds_start this, of "[0..<unat (ackcount k)]"]
  obtain em1 where a: "ikcp_flush_acks k [0..<unat (ackcount k)] (ikcp_flush_seg k) \<lparr>em_ptr = [], em_sent = []\<rparr> =
      Inr (?seg, em1)" "em_holds (mtu_of k) (flush_acks_out k) em1"
    by (auto simp: flush_acks_out_def)
  have seg: "seg_data ?seg = []" "seg_wnd ?seg = flush_wnd k"
    using last_ack_segs [of "ikcp_flush_seg k" k "[0..<unat (ackcount k)]"]
    by (simp_all add: flush_acks_out_def ikcp_flush_seg_def flush_wnd_def)
  have cp: "can_emit ?p" "em_holds (mtu_of ?p) (flush_acks_out k) em1" using c a(2) by simp_all
  from flush_ask_holds [OF cp seg(1)] obtain em2 where
    e2: "ikcp_flush_ask ?p IKCP_ASK_SEND IKCP_CMD_WASK ?seg em1 = Inr em2"
    "em_holds (mtu_of ?p) (flush_acks_out k @ ask_segs ?p IKCP_ASK_SEND IKCP_CMD_WASK ?seg) em2" by blast
  from flush_ask_holds [OF cp(1) e2(2) seg(1)] obtain em3 where
    e3: "ikcp_flush_ask ?p IKCP_ASK_TELL IKCP_CMD_WINS ?seg em2 = Inr em3"
    "em_holds (mtu_of k) (flush_acks_out k @ flush_probes_out k) em3"
    by (auto simp: flush_probes_out_def Let_def)
  have m24: "24 + unat (mss k) = mtu_of k" "24 \<le> mtu_of k"
    using cfg_mss [OF kcp_wfD(5) [OF wf]] c by (simp_all add: can_emit_def)
  have cm: "can_emit ?m" "em_holds (mtu_of ?m) (flush_acks_out k @ flush_probes_out k) em3"
    using c e3(2) by simp_all
  have fm: "\<forall>s \<in> set (snd_buf ?m). seg_ok s \<and> 24 + length (seg_data s) \<le> mtu_of ?m"
  proof
    fix s assume "s \<in> set (snd_buf ?m)"
    from flush_moved_data [OF wf this] have "seg_ok s" "length (seg_data s) \<le> unat (mss k)"
      using fit by (auto simp: segs_fit_def)
    then show "seg_ok s \<and> 24 + length (seg_data s) \<le> mtu_of ?m" using m24 by simp
  qed
  obtain em4 where e4: "ikcp_flush_data (flush_resent k) (flush_rtomin k) (flush_wnd k) (snd_buf ?m) ?m em3 False 0 =
      Inr (map (flush_next k) (snd_buf ?m),
        ?m\<lparr>xmit := xmit ?m + of_nat (length (filter (seg_lost ?m) (snd_buf ?m))),
           state := (if \<exists>s \<in> set (flush_due k). dead_seg ?m (flush_next k s) then - 1 else state ?m)\<rparr>,
        em4, False \<or> (\<exists>s \<in> set (snd_buf ?m). seg_lost ?m s),
        0 + length (filter (seg_fast (flush_resent k) ?m) (snd_buf ?m)))"
    "em_holds (mtu_of ?m) ((flush_acks_out k @ flush_probes_out k) @ map (flush_next k) (flush_due k)) em4"
    using flush_data_holds [OF cm(1) fm cm(2), where x = "xmit ?m" and st = "state ?m" and lost = False
      and change = 0 and resent = "flush_resent k" and rtomin = "flush_rtomin k" and wnd = "flush_wnd k",
      unfolded kcpcb_same]
    unfolding flush_due_ex flush_next_def [abs_def] flush_due_def [symmetric] by blast
  note e4h = e4(2) [unfolded append_assoc, folded flush_segs_def, unfolded flush_moved_fields]
  have "output_set k" using c by (simp add: can_emit_def)
  from em_flush_out [OF e4h this] obtain em5 where
    e5: "(if em_ptr em4 \<noteq> [] then ikcp_output k em4 else Inr em4) = Inr em5"
    "em_holds (mtu_of k) (flush_segs k) (em5\<lparr>em_ptr := []\<rparr>)"
  proof (cases "em_ptr em4 = []")
    case True
    then have "em4\<lparr>em_ptr := []\<rparr> = em4" by (cases em4) simp
    then have "em_holds (mtu_of k) (flush_segs k) (em4\<lparr>em_ptr := []\<rparr>)" using e4h by (simp only:)
    then show ?thesis using that [of em4] True by simp
  qed auto
  obtain groups where g: "em_sent em5 = map packet groups" "concat groups = flush_segs k" "[] \<notin> set groups"
    "\<forall>p \<in> set (em_sent em5). length p \<le> mtu_of k"
    using e5(2) unfolding em_holds_def by (auto dest!: sym [where s = "[]"])
  have os: "output_set ?m = output_set k" using flush_moved_frame [of k] by auto
  have out: "ikcp_output (?m\<lparr>xmit := x, state := st, snd_buf := b\<rparr>) em = ikcp_output k em" for x st b em
    by (simp add: ikcp_output_def os)
  have rt: "(if fastresend k > 0 then to_u32 (fastresend k) else 0xffffffff) = flush_resent k"
    "(if nodelay k = 0 then to_u32 (rx_rto k div 8) else 0) = flush_rtomin k"
    by (simp_all add: flush_resent_def flush_rtomin_def)
  have cw: "ikcp_flush_cwnd (?p\<lparr>probe := 0\<rparr>) = ikcp_flush_cwnd ?p"
    by (simp add: ikcp_flush_cwnd_def Let_def)
  have mv: "ikcp_flush_move (ikcp_flush_cwnd (?p\<lparr>probe := 0\<rparr>)) (seg_wnd ?seg) (?p\<lparr>probe := 0\<rparr>) = ?m"
    unfolding flush_moved_def cw seg(2) by (rule refl)
  define s1 where "s1 = ?seg"
  note a1 = a(1) [folded s1_def] and e21 = e2(1) [folded s1_def] and e31 = e3(1) [folded s1_def]
    and mv1 = mv [folded s1_def] and s1 = seg(2) [folded s1_def]
  have "ikcp_flush k = Inr (flush_after k, em_sent em5)"
    unfolding ikcp_flush_def Let_def cnt flush_probed_def [symmetric]
    using up e5(1) os
    by (simp add: a1 e21 e31 flush_moved_def [symmetric] cw s1 rt e4(1) out flush_after_def Let_def
        cong: if_cong split del: if_split)
  then show ?thesis using g by auto
qed

lemma flush_finish_wf: "kcp_wf k \<Longrightarrow> kcp_wf (ikcp_flush_finish w resent lost change k)"
  by (simp add: ikcp_flush_finish_def Let_def)

lemma flush_after_wf:
  assumes "kcp_wf k" shows "kcp_wf (flush_after k)"
proof -
  let ?m = "flush_moved k"
  have "kcp_wf (?m\<lparr>snd_buf := map (flush_next k) (snd_buf ?m)\<rparr>)"
    by (intro kcp_wf_snd_buf_map flush_moved_wf assms) (simp_all add: flush_next_def)
  then have "kcp_wf (?m\<lparr>xmit := x, state := st, snd_buf := map (flush_next k) (snd_buf ?m)\<rparr>)" for st x
    by (simp add: kcp_wf_defs)
  then show ?thesis
    unfolding flush_after_def Let_def by (rule flush_finish_wf)
qed

lemma can_emit_wf:
  assumes "kcp_wf k" and "output_set k" and "mtu_of k \<le> 1431655741"
  shows "can_emit k"
proof -
  have "mtu_of k < 2147483648" "50 \<le> mtu_of k" "buffer k = (mtu k + 24) * 3"
    using kcp_wfD(5) [OF assms(1)] by (simp_all add: cfg_wf_def)
  moreover from this assms(3) have "unat (buffer k) = (mtu_of k + 24) * 3"
    by (simp add: unat_word_ariths)
  ultimately show ?thesis using assms(2) by (simp add: can_emit_def)
qed

text \<open>
  When a flush is well behaved: an output callback, a first \<open>ikcp_update\<close>, a buffer size that does
  not wrap, segments that fit the current \<^verbatim>\<open>mss\<close>, and fewer than \<open>2 ^ 31\<close> acknowledgements.
\<close>

definition flush_ready :: "kcpcb \<Rightarrow> bool" where
  "flush_ready k \<longleftrightarrow> kcp_wf k \<and> output_set k \<and> updated k \<noteq> 0 \<and> mtu_of k \<le> 1431655741 \<and>
     segs_fit k \<and> unat (ackcount k) < 2147483648"

lemma flush_ready_spec:
  assumes "flush_ready k"
  shows "kcp_wf k" and "\<exists>groups. ikcp_flush k = Inr (flush_after k, map packet groups) \<and>
    concat groups = flush_segs k \<and> [] \<notin> set groups \<and> (\<forall>g \<in> set groups. length (packet g) \<le> mtu_of k)"
  using assms flush_spec [of k] can_emit_wf [of k] by (simp_all add: flush_ready_def)


text \<open>A block with one queued segment, about to be flushed.\<close>

definition ready0 :: kcpcb where
  "ready0 = kcp0\<lparr>output_set := True, updated := 1, cwnd := 1, nsnd_que := 1,
     snd_queue := [seg0\<lparr>seg_len := 2, seg_data := [1, 2]\<rparr>]\<rparr>"

lemma ready0_wf [simp]: "kcp_wf ready0"
proof -
  have "kcp_wf kcp0" by simp
  then show ?thesis by (simp add: ready0_def kcp_wf_defs seg_ok_def seg0_def del: kcp0_wf)
qed

lemma ready0_flush_ready [simp]: "flush_ready ready0"
proof -
  have "output_set ready0" "updated ready0 \<noteq> 0" "mtu_of ready0 \<le> 1431655741" "segs_fit ready0"
    "unat (ackcount ready0) < 2147483648"
    by (simp_all add: ready0_def segs_fit_def seg0_def)
  then show ?thesis by (simp add: flush_ready_def)
qed



lemma flush_after_stream:
  assumes wf: "kcp_wf k"
  shows "map seg_data (snd_buf (flush_after k) @ snd_queue (flush_after k)) =
      map seg_data (snd_buf k @ snd_queue k) \<and>
    (\<exists>n. map seg_sn (snd_buf (flush_after k)) =
        map seg_sn (snd_buf k) @ map (\<lambda>i. snd_nxt k + of_nat i) [0..<n] \<and>
      snd_nxt (flush_after k) = snd_nxt k + of_nat n) \<and>
    snd_una (flush_after k) = snd_una k \<and>
    in_flight (flush_after k) \<le> max (in_flight k) (unat (ikcp_flush_cwnd k))"
proof -
  let ?p = "flush_probed k\<lparr>probe := 0\<rparr>" and ?w = "ikcp_flush_cwnd (flush_probed k)"
  have cw: "?w = ikcp_flush_cwnd k"
    using flush_probe_frame [of "k\<lparr>ackcount := 0\<rparr>"] by (auto simp: flush_probed_def ikcp_flush_cwnd_def Let_def)
  have pre: "in_flight ?p \<le> 65535" "unat ?w \<le> 65535"
    using kcp_wfD(1) [OF wf] flush_cwnd_le [OF flush_probed_wf [OF wf]] by (simp_all add: snd_core_def)
  define n where "n = move_count ?w ?p"
  have m: "snd_buf (flush_moved k) = snd_buf k @ new_flight (flush_wnd k) ?p n"
    "snd_queue (flush_moved k) = drop n (snd_queue k)" "snd_nxt (flush_moved k) = snd_nxt k + of_nat n"
    using flush_move_spec [OF pre, of "flush_wnd k"] by (simp_all add: flush_moved_def Let_def n_def)
  have fin: "snd_queue (ikcp_flush_finish a b c d x) = snd_queue x" "snd_buf (ikcp_flush_finish a b c d x) = snd_buf x"
    "snd_nxt (ikcp_flush_finish a b c d x) = snd_nxt x" "snd_una (ikcp_flush_finish a b c d x) = snd_una x" for a b c d x
    by (simp_all add: ikcp_flush_finish_def Let_def)
  have n: "n \<le> length (snd_queue k)" "in_flight k + n \<le> max (in_flight k) (unat ?w)"
    by (auto simp: n_def move_count_def)
  have "map seg_data (new_flight (flush_wnd k) ?p n) = take n (map seg_data (snd_queue k))"
    using n(1) by (intro nth_equalityI) (simp_all add: new_flight_def ikcp_flush_newseg_def)
  moreover have "map seg_sn (new_flight (flush_wnd k) ?p n) = map (\<lambda>i. snd_nxt k + of_nat i) [0..<n]"
    by (simp add: new_flight_def comp_def)
  moreover have "in_flight (flush_moved k) \<le> max (in_flight k) (unat (ikcp_flush_cwnd k))"
  proof -
    have "unat (of_nat n :: u32) = n" "in_flight k + n < 4294967296"
      using n(2) pre by (auto simp: unat_of_nat_u32)
    then have "seqoff (snd_una k) (snd_nxt k + of_nat n) = in_flight k + n"
      using seqoff_plus [of "snd_una k" "snd_nxt k" "of_nat n"] by simp
    then show ?thesis using n(2) by (simp add: m(3) cw)
  qed
  moreover have "map seg_data (snd_buf (flush_after k)) = map seg_data (snd_buf (flush_moved k))"
    "map seg_sn (snd_buf (flush_after k)) = map seg_sn (snd_buf (flush_moved k))"
    "snd_queue (flush_after k) = snd_queue (flush_moved k)" "snd_nxt (flush_after k) = snd_nxt (flush_moved k)"
    "snd_una (flush_after k) = snd_una k"
    by (simp_all add: flush_after_def Let_def fin flush_next_def comp_def)
  ultimately show ?thesis by (auto simp: m simp flip: take_map drop_map intro!: exI [of _ n])
qed

text \<open>
  C17: A flush keeps the byte stream: the segments in flight followed by those still queued carry
  the same data, in the same order, as before; new ones enter flight with consecutive numbers,
  and never so many that the flight exceeds the smallest of the send window, the peer's window
  and (unless switched off) the congestion window.
\<close>

theorem flush_keeps_stream:
  assumes "flush_ready k"
  shows "\<exists>k' ps n. ikcp_flush k = Inr (k', ps) \<and>
    map seg_data (snd_buf k' @ snd_queue k') = map seg_data (snd_buf k @ snd_queue k) \<and>
    map seg_sn (snd_buf k') = map seg_sn (snd_buf k) @ map (\<lambda>i. snd_nxt k + of_nat i) [0..<n] \<and>
    snd_nxt k' = snd_nxt k + of_nat n \<and> snd_una k' = snd_una k \<and>
    in_flight k' \<le> max (in_flight k) (unat (ikcp_flush_cwnd k))"
  using flush_after_stream [OF flush_ready_spec(1) [OF assms]] flush_ready_spec(2) [OF assms] by blast

theorem flush_keeps_stream_witness:
  "\<exists>k' ps. ikcp_flush ready0 = Inr (k', ps) \<and> in_flight k' \<le> 1 \<and>
   map seg_data (snd_buf k' @ snd_queue k') = [[1, 2]]"
  using flush_keeps_stream [OF ready0_flush_ready]
  by (auto simp: ready0_def seg0_def ikcp_flush_cwnd_def imin_def)

section \<open>Retransmission, congestion, probing\<close>

lemma flush_finish_cc:
  assumes "k' = ikcp_flush_finish w resent lost change k"
  shows "1 \<le> cwnd k'"
    and "lost \<Longrightarrow> cwnd k' = 1 \<and> ssthresh k' = imax (w div 2) 2 \<and> incr k' = mss k"
    and "\<not> lost \<Longrightarrow> change = 0 \<Longrightarrow> ssthresh k' = ssthresh k \<and> (cwnd k \<noteq> 0 \<longrightarrow> cwnd k' = cwnd k)"
    and "\<not> lost \<Longrightarrow> change \<noteq> 0 \<Longrightarrow> ssthresh k' = imax ((snd_nxt k - snd_una k) div 2) 2 \<and>
      (ssthresh k' + resent \<noteq> 0 \<longrightarrow> cwnd k' = ssthresh k' + resent)"
proof -
  have one: "x < 1 \<longleftrightarrow> x = 0" "1 \<le> x \<longleftrightarrow> x \<noteq> 0" for x :: u32
    by (simp_all add: word_le_nat_alt word_less_nat_alt unat_eq_0 Suc_le_eq unat_gt_0)
  show "1 \<le> cwnd k'" by (simp add: assms ikcp_flush_finish_def Let_def one)
  show "lost \<Longrightarrow> cwnd k' = 1 \<and> ssthresh k' = imax (w div 2) 2 \<and> incr k' = mss k"
    by (auto simp: assms ikcp_flush_finish_def Let_def one kcp_defs imax_def)
  show "\<not> lost \<Longrightarrow> change = 0 \<Longrightarrow> ssthresh k' = ssthresh k \<and> (cwnd k \<noteq> 0 \<longrightarrow> cwnd k' = cwnd k)"
    by (simp add: assms ikcp_flush_finish_def Let_def one)
  show "\<not> lost \<Longrightarrow> change \<noteq> 0 \<Longrightarrow> ssthresh k' = imax ((snd_nxt k - snd_una k) div 2) 2 \<and>
      (ssthresh k' + resent \<noteq> 0 \<longrightarrow> cwnd k' = ssthresh k' + resent)"
    by (auto simp: assms ikcp_flush_finish_def Let_def one kcp_defs imax_def)
qed

text \<open>
  After a flush the congestion window is at least one segment. When some segment in flight
  had timed out it is exactly one, and the slow start threshold is half the window used (at
  least 2); otherwise, when a segment was resent because later ones were acknowledged, the
  threshold is half the flight (at least 2); otherwise a window of one or more is kept.
\<close>

theorem flush_congestion:
  assumes "flush_ready k"
  shows "\<exists>k' ps. ikcp_flush k = Inr (k', ps) \<and> 1 \<le> cwnd k' \<and>
    (let m = flush_moved k; lost = (\<exists>s \<in> set (snd_buf m). seg_lost m s);
         fast = (\<exists>s \<in> set (snd_buf m). seg_fast (flush_resent k) m s) in
     if lost then cwnd k' = 1 \<and> ssthresh k' = imax (ikcp_flush_cwnd k div 2) 2
     else if fast then ssthresh k' = imax ((snd_nxt k' - snd_una k') div 2) 2
     else ssthresh k' = ssthresh k \<and> (cwnd k \<noteq> 0 \<longrightarrow> cwnd k' = cwnd k))"
proof -
  let ?m = "flush_moved k"
  have cw: "ikcp_flush_cwnd (flush_probed k) = ikcp_flush_cwnd k"
    using flush_probe_frame [of "k\<lparr>ackcount := 0\<rparr>"] by (auto simp: flush_probed_def ikcp_flush_cwnd_def Let_def)
  have m: "cwnd ?m = cwnd k" "ssthresh ?m = ssthresh k" using flush_moved_frame [of k] by auto
  have seq: "snd_nxt (ikcp_flush_finish a b c d x) = snd_nxt x" "snd_una (ikcp_flush_finish a b c d x) = snd_una x" for a b c d x
    by (simp_all add: ikcp_flush_finish_def Let_def)
  note fin = flush_finish_cc [OF flush_after_def [of k, unfolded Let_def]]
  have f: "filter (seg_fast (flush_resent k) ?m) (snd_buf ?m) = [] \<longleftrightarrow>
      \<not> (\<exists>s \<in> set (snd_buf ?m). seg_fast (flush_resent k) ?m s)"
    by (auto simp: filter_empty_conv)
  have sq: "snd_nxt (flush_after k) = snd_nxt ?m" "snd_una (flush_after k) = snd_una ?m"
    by (simp_all add: flush_after_def Let_def seq)
  obtain groups where "ikcp_flush k = Inr (flush_after k, map packet groups)"
    using flush_ready_spec(2) [OF assms] by blast
  then show ?thesis
    using fin by (intro exI [of _ "flush_after k"] exI [of _ "map packet groups"])
      (simp add: Let_def f cw m sq)
qed

theorem flush_congestion_witness:
  "\<exists>k' ps. ikcp_flush ready0 = Inr (k', ps) \<and> 1 \<le> cwnd k'"
  using flush_congestion [OF ready0_flush_ready] by blast



definition probe_ok :: "kcpcb \<Rightarrow> bool" where
  "probe_ok k \<longleftrightarrow> probe_wait k = 0 \<or> 7000 \<le> unat (probe_wait k) \<and> unat (probe_wait k) \<le> 120000"

text \<open>
  Window probing. While the peer's window is closed the waiting time starts at 7 seconds,
  grows by half whenever it has elapsed (a probe is then asked for) and is capped at 120 seconds;
  an open window switches probing off. Before the time has elapsed nothing changes.
\<close>

theorem window_probing:
  assumes "probe_ok k"
  shows "let k' = ikcp_flush_probe k in probe_ok k' \<and>
    (if rmt_wnd k \<noteq> 0 then probe_wait k' = 0 \<and> probe k' = probe k
     else if probe_wait k = 0 then probe_wait k' = 7000 \<and> ts_probe k' = current k + 7000 \<and> probe k' = probe k
     else if itimediff (current k) (ts_probe k) < 0 then k' = k
     else unat (probe_wait k') = min 120000 (unat (probe_wait k) + unat (probe_wait k) div 2) \<and>
       ts_probe k' = current k + probe_wait k' \<and> probe k' = probe k OR IKCP_ASK_SEND)"
proof (cases "rmt_wnd k = 0 \<and> probe_wait k \<noteq> 0 \<and> \<not> itimediff (current k) (ts_probe k) < 0")
  case False
  then show ?thesis
    using assms by (auto simp: ikcp_flush_probe_def Let_def probe_ok_def kcp_defs)
next
  case True
  then have w: "7000 \<le> unat (probe_wait k)" "unat (probe_wait k) \<le> 120000"
    using assms by (simp_all add: probe_ok_def)
  let ?w = "probe_wait k + probe_wait k div 2"
  have n: "\<not> probe_wait k < 7000" using w(1) by (simp add: word_less_nat_alt)
  have u: "unat ?w = unat (probe_wait k) + unat (probe_wait k) div 2"
    using w(2) by (simp add: unat_word_ariths unat_div)
  have c: "unat (if ?w > 120000 then 120000 else ?w) = min 120000 (unat ?w)"
    by (simp add: word_less_nat_alt min_def)
  have e: "ikcp_flush_probe k = k\<lparr>probe_wait := (if ?w > 120000 then 120000 else ?w),
      ts_probe := current k + (if ?w > 120000 then 120000 else ?w), probe := probe k OR IKCP_ASK_SEND\<rparr>"
    using True n by (simp add: ikcp_flush_probe_def Let_def kcp_defs)
  show ?thesis
    using True w c u by (simp add: e probe_ok_def Let_def del: unat_add_lem)
qed

theorem window_probing_witness:
  "probe_wait (ikcp_flush_probe (kcp0\<lparr>rmt_wnd := 0\<rparr>)) = 7000"
  using window_probing [of "kcp0\<lparr>rmt_wnd := 0\<rparr>"] by (simp add: probe_ok_def Let_def)

end
