(* ===== verification/Kcp_Update.thy ===== *)
theory Kcp_Update
  imports Kcp_Flush
begin

text \<open>
  \<^verbatim>\<open>ikcp_update\<close> drives the protocol: called with the time it decides whether a flush is due.
  \<^verbatim>\<open>ikcp_check\<close> tells the caller when to call it next.
\<close>

section \<open>The model\<close>

definition ikcp_update :: "kcpcb \<Rightarrow> u32 \<Rightarrow> flush_error + kcpcb \<times> bytes list" where
  "ikcp_update k now =
     (let k = k\<lparr>current := now\<rparr>;
          k = (if updated k = 0 then k\<lparr>updated := 1, ts_flush := current k\<rparr> else k);
          slap = itimediff (current k) (ts_flush k);
          (k, slap) = (if slap \<ge> 10000 \<or> slap < -10000 then (k\<lparr>ts_flush := current k\<rparr>, 0) else (k, slap))
      in if slap \<ge> 0
         then let k = k\<lparr>ts_flush := ts_flush k + interval k\<rparr>;
                  k = (if itimediff (current k) (ts_flush k) \<ge> 0
                       then k\<lparr>ts_flush := current k + interval k\<rparr> else k)
              in ikcp_flush k
         else Inr (k, []))"

text \<open>The loop of \<^verbatim>\<open>ikcp_check\<close>: \<^const>\<open>None\<close> is the early return.\<close>

fun ikcp_check_loop :: "u32 \<Rightarrow> ikcpseg list \<Rightarrow> int \<Rightarrow> int option" where
  "ikcp_check_loop now [] tm_packet = Some tm_packet"
| "ikcp_check_loop now (seg # p) tm_packet =
     (let diff = itimediff (seg_resendts seg) now in
      if diff \<le> 0 then None
      else ikcp_check_loop now p (if diff < tm_packet then diff else tm_packet))"

definition ikcp_check :: "kcpcb \<Rightarrow> u32 \<Rightarrow> u32" where
  "ikcp_check k now =
     (if updated k = 0 then now
      else
        let ts = (if itimediff now (ts_flush k) \<ge> 10000 \<or> itimediff now (ts_flush k) < -10000
                  then now else ts_flush k)
        in if itimediff now ts \<ge> 0 then now
           else
             let tm_flush = itimediff ts now in
             case ikcp_check_loop now (snd_buf k) 0x7fffffff of
               None \<Rightarrow> now
             | Some tm_packet \<Rightarrow>
                 let minimal = to_u32 (if tm_packet < tm_flush then tm_packet else tm_flush);
                     minimal = (if minimal \<ge> interval k then interval k else minimal)
                 in now + minimal)"

section \<open>The clock\<close>

lemma itimediff_swap:
  assumes "- 10000 \<le> itimediff a b" and "itimediff a b < 0"
  shows "itimediff b a = - itimediff a b" and "int (seqoff a b) = - itimediff a b"
proof -
  have "b - a = word_of_int (- sint (a - b))" by (simp add: of_int_sint)
  then have e: "b - a = word_of_int (- itimediff a b)" by (simp add: itimediff_def)
  then show "itimediff b a = - itimediff a b"
    using assms unfolding itimediff_def [of b a] by (simp only:) (intro sint_of_int_small; linarith)
  have "b - a = to_u32 (- itimediff a b)" using e by (simp add: to_u32_def)
  then have "unat (b - a) = nat (- itimediff a b)" using assms by (simp only:) (intro unat_to_u32; linarith)
  then show "int (seqoff a b) = - itimediff a b" using assms by (simp add: seqoff_def)
qed

lemma check_loop_bound:
  "ikcp_check_loop now p tm = Some r \<Longrightarrow> r \<le> tm \<and> (0 < tm \<longrightarrow> 0 < r)"
proof (induction p arbitrary: tm)
  case (Cons s p)
  let ?d = "itimediff (seg_resendts s) now"
  from Cons.IH [of ?d] Cons.IH [of tm] Cons.prems show ?case by (auto simp: Let_def split: if_splits)
qed simp

lemma check_cases:
  assumes "kcp_wf k"
  obtains "ikcp_check k now = now"
  | w where "ikcp_check k now = now + w" "updated k \<noteq> 0" "0 < unat w" "unat w \<le> unat (interval k)"
    "- 10000 \<le> itimediff now (ts_flush k)" "int (unat w) \<le> - itimediff now (ts_flush k)"
proof -
  have iv: "10 \<le> unat (interval k)" "unat (interval k) \<le> 5000"
    using kcp_wfD(5) [OF assms] by (simp_all add: cfg_wf_def)
  consider "ikcp_check k now = now"
    | tp where "updated k \<noteq> 0" "- 10000 \<le> itimediff now (ts_flush k)" "itimediff now (ts_flush k) < 0"
      "ikcp_check_loop now (snd_buf k) 2147483647 = Some tp"
  proof (cases "updated k = 0 \<or> 0 \<le> itimediff now (ts_flush k) \<or> itimediff now (ts_flush k) < - 10000")
    case True
    then show ?thesis using that(1) by (auto simp: ikcp_check_def Let_def)
  next
    case False
    show ?thesis
    proof (cases "ikcp_check_loop now (snd_buf k) 2147483647")
      case None
      with False show ?thesis using that(1) by (simp add: ikcp_check_def Let_def)
    next
      case (Some tp)
      with False show ?thesis using that(2) by simp
    qed
  qed
  then show ?thesis
  proof cases
    case 1
    then show ?thesis by (rule that(1))
  next
    case (2 tp)
    define m where "m = (if tp < itimediff (ts_flush k) now then tp else itimediff (ts_flush k) now)"
    have sw: "itimediff (ts_flush k) now = - itimediff now (ts_flush k)"
      using itimediff_swap(1) [OF 2(2,3)] .
    have m: "0 < m" "m \<le> - itimediff now (ts_flush k)" "m < 4294967296"
      using check_loop_bound [OF 2(4)] 2 by (auto simp: m_def sw)
    let ?w = "if to_u32 m \<ge> interval k then interval k else to_u32 m"
    have u: "unat (to_u32 m) = nat m" using m by (simp add: unat_to_u32)
    have "ikcp_check k now = now + ?w"
      using 2 by (simp add: ikcp_check_def Let_def m_def)
    moreover have "0 < unat ?w" "unat ?w \<le> unat (interval k)" "int (unat ?w) \<le> - itimediff now (ts_flush k)"
      using iv m u by (auto simp: word_le_nat_alt)
    ultimately show ?thesis using that(2) 2 by blast
  qed
qed

text \<open>
  \<open>ikcp_check\<close> tells when to call \<open>ikcp_update\<close> next: never later than one interval from now,
  and nothing is missed by waiting, since an update at any earlier time only records the time
  and sends nothing.
\<close>

theorem check_is_safe:
  assumes "kcp_wf k"
  shows "seqoff now (ikcp_check k now) \<le> unat (interval k) \<and>
    (\<forall>d < seqoff now (ikcp_check k now).
       ikcp_update k (now + of_nat d) = Inr (k\<lparr>current := now + of_nat d\<rparr>, []))"
  using assms
proof (cases rule: check_cases [where now = now])
  case 1
  then show ?thesis by simp
next
  case (2 w)
  have neg: "itimediff now (ts_flush k) < 0" using 2 by linarith
  have off: "int (seqoff now (ts_flush k)) = - itimediff now (ts_flush k)"
    by (rule itimediff_swap(2) [OF 2(5) neg])
  have "ikcp_update k (now + of_nat d) = Inr (k\<lparr>current := now + of_nat d\<rparr>, [])" if "d < unat w" for d
  proof -
    have d: "int d < - itimediff now (ts_flush k)" "d < 10000" using that 2 by linarith+
    then have "seqoff now (now + of_nat d) = d" by (simp add: unat_of_nat_u32)
    then have "itimediff (now + of_nat d) (ts_flush k) = int d - int (seqoff now (ts_flush k))"
      using itimediff_window [of now "now + of_nat d" "ts_flush k"] d off 2(5) by simp
    then have "itimediff (now + of_nat d) (ts_flush k) < 0" "- 10000 \<le> itimediff (now + of_nat d) (ts_flush k)"
      using d off 2(5) by linarith+
    then show ?thesis using 2(2) by (simp add: ikcp_update_def Let_def)
  qed
  then show ?thesis using 2 by simp
qed

theorem check_is_safe_witness:
  "ikcp_update (kcp0\<lparr>updated := 1\<rparr>) (0 + of_nat 99) = Inr (kcp0\<lparr>updated := 1, current := 99\<rparr>, [])"
proof -
  have "ikcp_check (kcp0\<lparr>updated := 1\<rparr>) 0 = 100"
    by (simp add: ikcp_check_def itimediff_def to_u32_def)
  then have "99 < seqoff 0 (ikcp_check (kcp0\<lparr>updated := 1\<rparr>) 0)" by (simp add: seqoff_def)
  then show ?thesis
    using check_is_safe [of "kcp0\<lparr>updated := 1\<rparr>" 0, THEN conjunct2, rule_format, of 99] by simp
qed

lemma flush_after_clock:
  "current (flush_after k) = current k" "updated (flush_after k) = updated k"
  "ts_flush (flush_after k) = ts_flush k"
proof -
  have "current (ikcp_flush_finish a b c d x) = current x" "updated (ikcp_flush_finish a b c d x) = updated x"
    "ts_flush (ikcp_flush_finish a b c d x) = ts_flush x" for a b c d x
    by (simp_all add: ikcp_flush_finish_def Let_def)
  moreover have "ts_flush (flush_moved k) = ts_flush k" using flush_moved_frame [of k] by auto
  ultimately show "current (flush_after k) = current k" "updated (flush_after k) = updated k"
    "ts_flush (flush_after k) = ts_flush k"
    by (simp_all add: flush_after_def Let_def)
qed

lemma flush_ready_clock:
  "flush_ready k \<Longrightarrow> u \<noteq> 0 \<Longrightarrow> flush_ready (k\<lparr>current := c, updated := u, ts_flush := t\<rparr>)"
  by (simp add: flush_ready_def segs_fit_def)

lemma itimediff_add: "unat w < 2147483648 \<Longrightarrow> itimediff (b + w) b = int (unat w)"
  by (simp add: itimediff_def sint_small)

lemma update_flushes:
  assumes "updated k = 0 \<or> 0 \<le> itimediff now (ts_flush k) \<or> itimediff now (ts_flush k) < - 10000"
    and "kcp_wf (k\<lparr>updated := 1\<rparr>)"
  obtains T u where "ikcp_update k now = ikcp_flush (k\<lparr>current := now, updated := u, ts_flush := T\<rparr>)"
    and "u \<noteq> 0" and "0 < itimediff T now" and "itimediff T now \<le> 10000"
proof -
  let ?x = "itimediff now (ts_flush k)"
  define t0 where "t0 = (if updated k = 0 \<or> ?x \<ge> 10000 \<or> ?x < - 10000 then now else ts_flush k)"
  define u where "u = (if updated k = 0 then 1 else updated k)"
  define T where "T = (if itimediff now (t0 + interval k) \<ge> 0 then now + interval k else t0 + interval k)"
  have iv: "10 \<le> unat (interval k)" "unat (interval k) \<le> 5000"
    using kcp_wfD(5) [OF assms(2)] by (simp_all add: cfg_wf_def)
  have s: "0 \<le> itimediff now t0" "itimediff now t0 < 10000" using assms(1) by (auto simp: t0_def)
  have T: "0 < itimediff T now \<and> itimediff T now \<le> 10000"
  proof (cases "itimediff now (t0 + interval k) \<ge> 0")
    case True
    then show ?thesis using iv by (simp add: T_def itimediff_add)
  next
    case False
    have o: "seqoff t0 now < 2147483648" using s(1) by (simp add: itimediff_nonneg)
    then have "itimediff now (t0 + interval k) = int (seqoff t0 now) - int (unat (interval k))"
      "itimediff (t0 + interval k) now = int (unat (interval k)) - int (seqoff t0 now)"
      using itimediff_window [of t0 now "t0 + interval k"] itimediff_window [of t0 "t0 + interval k" now] iv by simp_all
    then show ?thesis using False iv by (simp add: T_def)
  qed
  have "ikcp_update k now = ikcp_flush (k\<lparr>current := now, updated := u, ts_flush := T\<rparr>)"
    using assms(1) by (auto simp: ikcp_update_def Let_def t0_def u_def T_def)
  then show ?thesis using that [of T u] T by (simp add: u_def)
qed



end
