(* ===== verification/Kcp_Api.thy ===== *)
theory Kcp_Api
  imports Kcp_Input Kcp_Update
begin

text \<open>
  All the calls a program can make on a control block, as one transition system: its runs start
  with \<^verbatim>\<open>ikcp_create\<close>, and the well-formedness invariant holds after every call that returns,
  whatever the arguments, the received bytes, and the order of the calls.
\<close>

section \<open>Every call that returns keeps the invariant\<close>

lemma ack_push_wf:
  assumes wf: "kcp_wf k" and p: "ikcp_ack_push k sn ts = Some k'"
  shows "kcp_wf k'"
proof (cases "unat (ackcount k) < 2147483648")
  case True
  obtain cells blk where k': "k' = k\<lparr>acklist := cells, ackblock := blk, ackcount := ackcount k + 1\<rparr>" "ack_wf k'"
    using ack_push_spec [OF kcp_wfD(4) [OF wf] True, of sn ts] p by auto
  then show ?thesis
    using wf by (simp add: kcp_wf_def snd_core_def una_exact_def rcv_core_def cfg_wf_def segs_wf_def)
next
  case False
  have ab: "ackcount k \<le> ackblock k" "unat (ackblock k) \<le> 2147483648"
    using kcp_wfD(4) [OF wf] by (simp_all add: ack_wf_def)
  then have "unat (ackcount k) = 2147483648" using False by (simp add: word_le_nat_alt)
  then have u: "unat (ackcount k + 1) = 2147483649" by (simp add: unat_word_ariths)
  then have "ackcount k + 1 > ackblock k" using ab(2) by (simp add: word_less_nat_alt)
  then obtain r where "ikcp_ack_newblock (ackcount k + 1) 8 = Some r"
    using p by (auto simp: ikcp_ack_push_def Let_def bind_eq_Some_conv)
  from ack_newblock_sound [OF this] have "2147483649 \<le> unat r" "unat r \<le> 2147483648"
    using pow2_word_8 pow2_word_le by (auto simp: word_le_nat_alt u)
  then show ?thesis by simp
qed

lemma nat_sint: "nat (sint (w :: u32)) = (if unat w < 2147483648 then unat w else 0)"
  using unat_u32_less [of w] by (simp add: sint_eq_unat_if)

lemma input_newseg_seg_ok:
  assumes "ikcp_input_newseg junk h data = Some seg" shows "seg_ok seg"
proof (cases "hdr_len h > 0")
  case True
  then have "length data \<ge> unat (hdr_len h)"
    using assms by (auto simp: ikcp_input_newseg_def Let_def split: if_splits)
  moreover have "seg_data seg = memcpy_at (seg_data (ikcp_segment_new junk (nat (sint (hdr_len h))))) 0 data (unat (hdr_len h))"
    "seg_len seg = hdr_len h"
    using assms True by (auto simp: ikcp_input_newseg_def Let_def split: if_splits)
  ultimately show ?thesis by (auto simp: seg_ok_def memcpy_at_def nat_sint)
next
  case False
  then have "hdr_len h = 0" by (simp add: word_less_nat_alt unat_eq_0)
  then show ?thesis using assms by (auto simp: ikcp_input_newseg_def Let_def seg_ok_def)
qed

lemma input_push_keeps_wf:
  "kcp_wf k \<Longrightarrow> ikcp_input_push junk k h data = Some k' \<Longrightarrow> kcp_wf k'"
  by (auto simp: ikcp_input_push_def Let_def bind_eq_Some_conv split: if_splits
      intro: parse_data_wf ack_push_wf input_newseg_seg_ok)

lemma input_seg_keeps_wf:
  assumes wf: "kcp_wf k" and s: "ikcp_input_seg junk k a h data = Some (k', a')"
  shows "kcp_wf k'"
proof -
  define k1 where "k1 = ikcp_shrink_buf (ikcp_parse_una (k\<lparr>rmt_wnd := ucast (hdr_wnd h)\<rparr>) (hdr_una h))"
  have "kcp_wf k1" unfolding k1_def by (intro parse_una_wf kcp_wf_rmt_wnd wf unat_wnd)
  moreover from this have "ikcp_input_ack k1 a (hdr_sn h) (hdr_ts h) = (k', a') \<Longrightarrow> kcp_wf k'"
    using input_ack_wf [of k1 a "hdr_sn h" "hdr_ts h"] by (metis fst_conv)
  ultimately show ?thesis
    using s by (auto simp: ikcp_input_seg_def Let_def k1_def [symmetric] input_push_keeps_wf split: if_splits)
qed

lemma input_keeps_wf:
  assumes wf: "kcp_wf k" and i: "ikcp_input junk k data n = Some (r, k')"
  shows "kcp_wf k'"
proof -
  have "kcp_wf k1" if "ikcp_input_loop junk k a bs n = Some (r1, k1, a1)" for a bs r1 k1 a1
    using input_loop_keeps [where P = kcp_wf, OF input_seg_keeps_wf wf that] .
  then show ?thesis
    using i wf
    by (auto simp: ikcp_input_def Let_def input_cwnd_wf parse_fastack_wf split: option.splits if_splits)
qed

lemma flush_emit_keeps:
  assumes "ikcp_flush_emit wnd k s em = Inr (s', k', em')"
  shows "seg_sn s' = seg_sn s \<and> (seg_ok s \<longrightarrow> seg_ok s') \<and> (k' = k \<or> k' = k\<lparr>state := - 1\<rparr>)"
  using assms by (auto simp: ikcp_flush_emit_def Let_def err_bind_Inr seg_ok_def split: if_splits)

lemma flush_data_keeps:
  assumes "ikcp_flush_data resent rtomin wnd p k em lost change = Inr (q, k', em', lost', change')"
  shows "map seg_sn q = map seg_sn p \<and> ((\<forall>s \<in> set p. seg_ok s) \<longrightarrow> (\<forall>s \<in> set q. seg_ok s)) \<and>
    (\<exists>x st. k' = k\<lparr>xmit := x, state := st\<rparr>)"
  using assms
proof (induction p arbitrary: q k em lost change)
  case Nil
  then have "q = [] \<and> k' = k\<lparr>xmit := xmit k, state := state k\<rparr>" by simp
  then show ?case by (metis list.simps(8) list.set(1) empty_iff)
next
  case (Cons s p)
  define d where "d = fst (snd (ikcp_flush_decide resent rtomin k s False 0))"
  define k1 where "k1 = (if seg_lost k s then k\<lparr>xmit := xmit k + 1\<rparr> else k)"
  have keep: "seg_sn d = seg_sn s" "seg_ok d = seg_ok s"
    using flush_decide_keeps [OF d_def] by (simp_all add: seg_ok_def)
  obtain s1 k2 em1 q1 where e: "(if seg_due resent k s then ikcp_flush_emit wnd k1 d em else Inr (d, k1, em)) = Inr (s1, k2, em1)"
    and r: "ikcp_flush_data resent rtomin wnd p k2 em1 (lost \<or> seg_lost k s)
        (change + (if seg_fast resent k s then 1 else 0)) = Inr (q1, k', em', lost', change')"
    and q: "q = s1 # q1"
    using Cons.prems
    unfolding ikcp_flush_data.simps flush_decide_spec [of resent rtomin k s lost change] d_def [symmetric] k1_def [symmetric]
    by (auto simp: err_bind_Inr Let_def)
  have s1: "seg_sn s1 = seg_sn s" "seg_ok s \<longrightarrow> seg_ok s1" "k2 = k1 \<or> k2 = k1\<lparr>state := - 1\<rparr>"
    using e keep flush_emit_keeps [of wnd k1 d em s1 k2 em1] by (auto split: if_splits)
  obtain x st where IH: "map seg_sn q1 = map seg_sn p" "(\<forall>s \<in> set p. seg_ok s) \<longrightarrow> (\<forall>s \<in> set q1. seg_ok s)"
    "k' = k2\<lparr>xmit := x, state := st\<rparr>"
    using Cons.IH [OF r] by blast
  have "k' = k\<lparr>xmit := x, state := st\<rparr>" using IH(3) s1(3) by (auto simp: k1_def split: if_splits)
  then show ?case using IH s1 q by auto
qed

lemma flush_keeps_wf:
  assumes wf: "kcp_wf k" and f: "ikcp_flush k = Inr (k', ps)"
  shows "kcp_wf k'"
proof (cases "updated k = 0")
  case True
  then show ?thesis using assms by (simp add: ikcp_flush_def)
next
  case False
  obtain w wnd resent rtomin q k2 em em' em'' lost change where
    d: "ikcp_flush_data resent rtomin wnd (snd_buf (ikcp_flush_move w wnd (flush_probed k\<lparr>probe := 0\<rparr>)))
        (ikcp_flush_move w wnd (flush_probed k\<lparr>probe := 0\<rparr>)) em False 0 = Inr (q, k2, em', lost, change)"
    and w: "w = ikcp_flush_cwnd (flush_probed k\<lparr>probe := 0\<rparr>)"
    and k': "k' = ikcp_flush_finish w resent lost change (k2\<lparr>snd_buf := q\<rparr>)"
    using f False unfolding ikcp_flush_def Let_def flush_probed_def [symmetric]
    by (auto simp: err_bind_Inr split_beta)
  let ?m = "ikcp_flush_move w wnd (flush_probed k\<lparr>probe := 0\<rparr>)"
  have wp: "kcp_wf (flush_probed k\<lparr>probe := 0\<rparr>)" using flush_probed_wf [OF wf] by simp
  have wm: "kcp_wf ?m" unfolding w by (intro flush_move_wf flush_cwnd_le wp)
  obtain x st where k2: "k2 = ?m\<lparr>xmit := x, state := st\<rparr>" and q: "map seg_sn q = map seg_sn (snd_buf ?m)"
    "\<forall>s \<in> set q. seg_ok s"
    using flush_data_keeps [OF d] kcp_wfD(6) [OF wm] by (auto simp: segs_wf_def)
  have len: "length q = length (snd_buf ?m)" using q(1) map_eq_imp_length_eq by blast
  have "\<forall>s \<in> set q. \<exists>t \<in> set (snd_buf ?m). seg_sn t = seg_sn s"
    using q(1) by (metis (mono_tags) imageE image_set imageI)
  then have "snd_core (?m\<lparr>xmit := x, state := st, snd_buf := q\<rparr>)"
    using kcp_wfD(1) [OF wm] window_sorted_same_sn [OF q(1)] len by (auto simp: snd_core_def) metis
  moreover have "una_exact (?m\<lparr>xmit := x, state := st, snd_buf := q\<rparr>)"
    using kcp_wfD(2) [OF wm] q(1)
    by (cases q; cases "snd_buf ?m") (auto simp: una_exact_def una_ok_def first_sn_def)
  ultimately have "kcp_wf (?m\<lparr>xmit := x, state := st, snd_buf := q\<rparr>)"
    using wm q(2) by (auto simp: kcp_wf_def rcv_core_def ack_wf_def cfg_wf_def segs_wf_def)
  then show ?thesis unfolding k' k2 by (rule flush_finish_wf)
qed

lemma update_keeps_wf:
  assumes "kcp_wf k" and "ikcp_update k now = Inr (k', ps)"
  shows "kcp_wf k'"
proof -
  have "kcp_wf (k\<lparr>current := now\<rparr>)" using assms(1) by simp
  then show ?thesis
    using assms by (auto simp: ikcp_update_def Let_def split: if_splits dest!: flush_keeps_wf [rotated])
qed

section \<open>The calls as a transition system\<close>

datatype api_call =
    Call_send "nat \<Rightarrow> ikcpseg" "bytes option" int
  | Call_recv bool int
  | Call_input "int \<Rightarrow> ikcpseg" "bytes option" int
  | Call_update u32
  | Call_flush
  | Call_setmtu bool int
  | Call_nodelay int int int int
  | Call_wndsize int int
  | Call_interval int
  | Call_setoutput bool

text \<open>The state after a call; \<^const>\<open>None\<close> for one that does not return normally.\<close>

fun api_step :: "api_call \<Rightarrow> kcpcb \<Rightarrow> kcpcb option" where
  "api_step (Call_send junk buf len) k = map_option snd (ikcp_send junk k buf len)"
| "api_step (Call_recv has_buf len) k = map_option (snd \<circ> snd) (ikcp_recv k has_buf len)"
| "api_step (Call_input junk data n) k = map_option snd (ikcp_input junk k data n)"
| "api_step (Call_update now) k = (case ikcp_update k now of Inl _ \<Rightarrow> None | Inr (k, ps) \<Rightarrow> Some k)"
| "api_step Call_flush k = (case ikcp_flush k of Inl _ \<Rightarrow> None | Inr (k, ps) \<Rightarrow> Some k)"
| "api_step (Call_setmtu ok m) k = Some (snd (ikcp_setmtu ok k m))"
| "api_step (Call_nodelay nd iv resend nc) k = Some (snd (ikcp_nodelay k nd iv resend nc))"
| "api_step (Call_wndsize s r) k = Some (snd (ikcp_wndsize k s r))"
| "api_step (Call_interval iv) k = Some (snd (ikcp_interval k iv))"
| "api_step (Call_setoutput cb) k = Some (ikcp_setoutput k cb)"

text \<open>The arguments are C values: an \<^verbatim>\<open>int\<close> is below \<open>2 ^ 31\<close>, a buffer as long as announced.\<close>

fun api_ok :: "api_call \<Rightarrow> bool" where
  "api_ok (Call_send junk buf len) = (len < 2147483648 \<and> valid_buf buf len)"
| "api_ok (Call_setmtu ok m) = (m < 2147483648)"
| "api_ok (Call_wndsize s r) = (s < 2147483648 \<and> r < 2147483648)"
| "api_ok _ = True"

interpretation api: safe_steps api_step api_ok kcp_wf
proof unfold_locales
  fix s a s'
  assume "kcp_wf s" "api_ok a" "api_step a s = Some s'"
  then show "kcp_wf s'"
  proof (cases a)
    case (Call_send junk buf len)
    with \<open>api_step a s = Some s'\<close> obtain r where "ikcp_send junk s buf len = Some (r, s')" by auto
    with Call_send \<open>api_ok a\<close> \<open>kcp_wf s\<close> show ?thesis by (auto dest: send_wf)
  next
    case (Call_recv has_buf len)
    with \<open>api_step a s = Some s'\<close> obtain r out where "ikcp_recv s has_buf len = Some (r, out, s')" by auto
    from recv_wf [OF \<open>kcp_wf s\<close> this] show ?thesis .
  next
    case (Call_input junk data n)
    with \<open>api_step a s = Some s'\<close> obtain r where "ikcp_input junk s data n = Some (r, s')" by auto
    from input_keeps_wf [OF \<open>kcp_wf s\<close> this] show ?thesis .
  next
    case (Call_update now)
    with \<open>api_step a s = Some s'\<close> obtain ps where "ikcp_update s now = Inr (s', ps)"
      by (auto split: sum.splits)
    from update_keeps_wf [OF \<open>kcp_wf s\<close> this] show ?thesis .
  next
    case Call_flush
    with \<open>api_step a s = Some s'\<close> obtain ps where "ikcp_flush s = Inr (s', ps)"
      by (auto split: sum.splits)
    from flush_keeps_wf [OF \<open>kcp_wf s\<close> this] show ?thesis .
  qed (auto intro: setmtu_wf nodelay_wf wndsize_wf interval_wf setoutput_wf)
qed

text \<open>
  C4: The invariant of the protocol. Every state that a program can bring a control block into,
  starting with \<^verbatim>\<open>ikcp_create\<close> and making any calls in any order with any received bytes, is
  well formed: the send buffer is sorted and lies between \<^verbatim>\<open>snd_una\<close> and \<^verbatim>\<open>snd_nxt\<close>, the
  reordering buffer is sorted above \<^verbatim>\<open>rcv_nxt\<close>, the counters are the lengths of the queues,
  the acknowledgement array is large enough, and the timers are in their ranges.
\<close>

theorem reachable_states_well_formed:
  assumes "ikcp_create True True c = Some k0" and "list_all api_ok calls"
    and "run_steps api_step calls k0 = Some k"
  shows "kcp_wf k"
  using api.run_safe [OF create_wf [OF assms(1)] assms(2,3)] .

theorem reachable_states_well_formed_witness:
  "kcp_wf (ikcp_setoutput kcp0 True)"
  using reachable_states_well_formed [OF kcp0_create, of "[Call_setoutput True]"] by simp

end
