(* ===== verification/Kcp_Transfer.thy ===== *)
theory Kcp_Transfer
  imports Kcp_Api
begin

text \<open>
  Two control blocks and the network between them: what a flush sends, what an input accepts, and the invariant of
  sender, wire and receiver under which the bytes that come out are a prefix of the bytes that went in.
\<close>

section \<open>What any successful flush sends\<close>

text \<open>The part of a segment that stays the same while it is in flight.\<close>

definition seg_id :: "ikcpseg \<Rightarrow> u32 \<times> bytes \<times> u32 \<times> u32 \<times> u32" where
  "seg_id s = (seg_sn s, seg_data s, seg_len s, seg_conv s, seg_cmd s)"

lemma seg_id_ok: "seg_id s = seg_id t \<Longrightarrow> seg_ok s = seg_ok t"
  by (simp add: seg_id_def seg_ok_def)

text \<open>An emission without the size bounds: whole segments, grouped into datagrams.\<close>

definition em_groups :: "ikcpseg list \<Rightarrow> emission \<Rightarrow> bool" where
  "em_groups segs em \<longleftrightarrow>
     (\<exists>groups cur. em_sent em = map packet groups \<and> em_ptr em = packet cur \<and> concat groups @ cur = segs)"

lemma em_groups_start: "em_groups [] \<lparr>em_ptr = [], em_sent = []\<rparr>"
  unfolding em_groups_def by (rule exI [of _ "[]"], rule exI [of _ "[]"]) simp

lemma output_groups:
  assumes "em_groups segs em" and "ikcp_output k em = Inr em'"
  shows "em_groups segs (em'\<lparr>em_ptr := []\<rparr>)"
proof -
  obtain groups cur where g: "em_sent em = map packet groups" "em_ptr em = packet cur"
    "concat groups @ cur = segs"
    using assms(1) unfolding em_groups_def by blast
  show ?thesis
  proof (cases "em_ptr em = []")
    case True
    then have "cur = []" using g(2) by simp
    then have "em_sent em' = map packet groups" "concat groups @ [] = segs"
      using assms(2) True g by (auto simp: ikcp_output_def split: if_splits)
    then show ?thesis unfolding em_groups_def
      by (intro exI [of _ groups] exI [of _ "[] :: ikcpseg list"]) simp
  next
    case False
    then have "em_sent em' = map packet (groups @ [cur])"
      using assms(2) g by (auto simp: ikcp_output_def split: if_splits)
    then show ?thesis using g(3) unfolding em_groups_def
      by (intro exI [of _ "groups @ [cur]"] exI [of _ "[] :: ikcpseg list"]) simp
  qed
qed

lemma make_room_groups:
  "em_groups segs em \<Longrightarrow> ikcp_make_room k need em = Inr em' \<Longrightarrow> em_groups segs em'"
  by (auto simp: ikcp_make_room_def err_bind_Inr split: if_splits dest: output_groups)

lemma add_groups:
  assumes "em_groups segs em" and "em_ptr em' = em_ptr em @ packed s" and "em_sent em' = em_sent em"
  shows "em_groups (segs @ [s]) em'"
proof -
  obtain groups cur where g: "em_sent em = map packet groups" "em_ptr em = packet cur"
    "concat groups @ cur = segs"
    using assms(1) unfolding em_groups_def by blast
  then show ?thesis using assms(2,3) unfolding em_groups_def
    by (intro exI [of _ groups] exI [of _ "cur @ [s]"]) auto
qed

lemma write_hdr_groups:
  "em_groups segs em \<Longrightarrow> ikcp_write_hdr k s em = Inr em' \<Longrightarrow> seg_data s = [] \<Longrightarrow> em_groups (segs @ [s]) em'"
  by (erule add_groups) (auto simp: ikcp_write_hdr_def ikcp_write_def packed_def split: if_splits)

text \<open>Acknowledgements and probes carry no data.\<close>

definition control_seg :: "u32 \<Rightarrow> ikcpseg \<Rightarrow> bool" where
  "control_seg c s \<longleftrightarrow> seg_conv s = c \<and> seg_data s = [] \<and> seg_len s = 0 \<and>
     seg_cmd s \<in> {IKCP_CMD_ACK, IKCP_CMD_WASK, IKCP_CMD_WINS}"

lemma control_seg_upd [simp]:
  "control_seg c (s\<lparr>seg_sn := x, seg_ts := y\<rparr>) = control_seg c s"
  "control_seg c s \<Longrightarrow> cmd \<in> {IKCP_CMD_ACK, IKCP_CMD_WASK, IKCP_CMD_WINS} \<Longrightarrow> control_seg c (s\<lparr>seg_cmd := cmd\<rparr>)"
  by (auto simp: control_seg_def)

lemma flush_acks_groups:
  assumes "ikcp_flush_acks k is seg em = Inr (seg', em')" and "em_groups segs em" and "control_seg c seg"
  shows "control_seg c seg' \<and> (\<exists>out. em_groups (segs @ out) em' \<and> list_all (control_seg c) out)"
  using assms
proof (induction "is" arbitrary: seg em segs)
  case Nil
  then show ?case by (auto intro!: exI [of _ "[]"])
next
  case (Cons i "is")
  obtain em1 sn ts em2 where e: "ikcp_make_room k 24 em = Inr em1" "ikcp_ack_get k i = Some (sn, ts)"
    "ikcp_write_hdr k (seg\<lparr>seg_sn := sn, seg_ts := ts\<rparr>) em1 = Inr em2"
    "ikcp_flush_acks k is (seg\<lparr>seg_sn := sn, seg_ts := ts\<rparr>) em2 = Inr (seg', em')"
    using Cons.prems(1) by (auto simp: err_bind_Inr Let_def split: option.splits)
  let ?s = "seg\<lparr>seg_sn := sn, seg_ts := ts\<rparr>"
  have "em_groups (segs @ [?s]) em2"
    using write_hdr_groups [OF make_room_groups [OF Cons.prems(2) e(1)] e(3)] Cons.prems(3)
    by (simp add: control_seg_def)
  from Cons.IH [OF e(4) this] Cons.prems(3) obtain out where
    "control_seg c seg'" "em_groups ((segs @ [?s]) @ out) em'" "list_all (control_seg c) out" by auto
  then show ?case using Cons.prems(3) by (auto intro!: exI [of _ "?s # out"])
qed

lemma flush_ask_groups:
  assumes "ikcp_flush_ask k ask cmd seg em = Inr em'" and "em_groups segs em" and "control_seg c seg"
    and "cmd \<in> {IKCP_CMD_ACK, IKCP_CMD_WASK, IKCP_CMD_WINS}"
  shows "\<exists>out. em_groups (segs @ out) em' \<and> list_all (control_seg c) out"
proof (cases "probe k AND ask = 0")
  case True
  then show ?thesis using assms(1,2) by (auto simp: ikcp_flush_ask_def intro!: exI [of _ "[]"])
next
  case False
  then obtain em1 where e: "ikcp_make_room k 24 em = Inr em1" "ikcp_write_hdr k (seg\<lparr>seg_cmd := cmd\<rparr>) em1 = Inr em'"
    using assms(1) by (auto simp: ikcp_flush_ask_def err_bind_Inr)
  have "em_groups (segs @ [seg\<lparr>seg_cmd := cmd\<rparr>]) em'"
    using write_hdr_groups [OF make_room_groups [OF assms(2) e(1)] e(2)] assms(3) by (simp add: control_seg_def)
  then show ?thesis using assms(3,4) by (auto intro!: exI [of _ "[seg\<lparr>seg_cmd := cmd\<rparr>]"])
qed

lemma flush_emit_groups:
  assumes "ikcp_flush_emit wnd k s em = Inr (s', k', em')" and "em_groups segs em" and "seg_ok s"
  shows "em_groups (segs @ [s']) em' \<and> seg_id s' = seg_id s \<and> (k' = k \<or> k' = k\<lparr>state := - 1\<rparr>)"
proof -
  let ?s = "s\<lparr>seg_ts := current k, seg_wnd := wnd, seg_una := rcv_nxt k\<rparr>"
  obtain em1 em2 where e: "ikcp_make_room k (sint (IKCP_OVERHEAD + seg_len ?s)) em = Inr em1"
    "ikcp_write_hdr k ?s em1 = Inr em2"
    "(if seg_len ?s > 0 then ikcp_write k (take (unat (seg_len ?s)) (seg_data ?s)) em2 else Inr em2) = Inr em'"
    "s' = ?s" "k' = k \<or> k' = k\<lparr>state := - 1\<rparr>"
    using assms(1) by (auto simp: ikcp_flush_emit_def Let_def err_bind_Inr split: if_splits)
  have "seg_data s = []" if "\<not> seg_len s > 0"
    using that assms(3) by (simp add: seg_ok_def word_less_nat_alt)
  then have "em_ptr em' = em_ptr em1 @ packed ?s" "em_sent em' = em_sent em1"
    using e(2,3) assms(3)
    by (auto simp: ikcp_write_hdr_def ikcp_write_def packed_def seg_ok_def split: if_splits)
  then have "em_groups (segs @ [s']) em'"
    unfolding e(4) using make_room_groups [OF assms(2) e(1)] by (intro add_groups)
  then show ?thesis using e(4,5) by (simp add: seg_id_def)
qed

lemma flush_data_groups:
  assumes "ikcp_flush_data resent rtomin wnd p k em lost change = Inr (q, k', em', lost', change')"
    and "em_groups segs em" and "\<forall>s \<in> set p. seg_ok s"
  shows "map seg_id q = map seg_id p \<and> (\<exists>out. em_groups (segs @ out) em' \<and> set out \<subseteq> set q)"
  using assms
proof (induction p arbitrary: q k em lost change segs)
  case Nil
  then show ?case by (auto intro!: exI [of _ "[]"])
next
  case (Cons s p)
  define d where "d = fst (snd (ikcp_flush_decide resent rtomin k s False 0))"
  define k1 where "k1 = (if seg_lost k s then k\<lparr>xmit := xmit k + 1\<rparr> else k)"
  have keep: "seg_id d = seg_id s"
    using flush_decide_keeps [OF d_def] by (simp add: seg_id_def)
  obtain s1 k2 em1 q1 where e: "(if seg_due resent k s then ikcp_flush_emit wnd k1 d em else Inr (d, k1, em)) = Inr (s1, k2, em1)"
    and r: "ikcp_flush_data resent rtomin wnd p k2 em1 (lost \<or> seg_lost k s)
        (change + (if seg_fast resent k s then 1 else 0)) = Inr (q1, k', em', lost', change')"
    and q: "q = s1 # q1"
    using Cons.prems(1)
    unfolding ikcp_flush_data.simps flush_decide_spec [of resent rtomin k s lost change] d_def [symmetric] k1_def [symmetric]
    by (auto simp: err_bind_Inr Let_def)
  have okd: "seg_ok d" using Cons.prems(3) seg_id_ok [OF keep] by simp
  obtain out1 where o: "em_groups (segs @ out1) em1" "set out1 \<subseteq> {s1}" "seg_id s1 = seg_id s"
  proof (cases "seg_due resent k s")
    case True
    then show ?thesis using that [of "[s1]"] flush_emit_groups [OF _ Cons.prems(2) okd] e keep by fastforce
  next
    case False
    then show ?thesis using that [of "[]"] e keep Cons.prems(2) by auto
  qed
  obtain out where "em_groups ((segs @ out1) @ out) em'" "set out \<subseteq> set q1" "map seg_id q1 = map seg_id p"
    using Cons.IH [OF r o(1)] Cons.prems(3) by auto
  then show ?case using o q by (auto intro!: exI [of _ "out1 @ out"])
qed


text \<open>The receiving side of a control block, which sending does not touch.\<close>

definition rcv_view :: "kcpcb \<Rightarrow> u32 \<times> ikcpseg list \<times> ikcpseg list" where
  "rcv_view k = (rcv_nxt k, rcv_queue k, rcv_buf k)"

definition snd_view :: "kcpcb \<Rightarrow> u32 \<times> ikcpseg list \<times> ikcpseg list" where
  "snd_view k = (snd_nxt k, snd_queue k, snd_buf k)"

text \<open>The phases of a flush that succeeded.\<close>

lemma flush_phases:
  assumes "ikcp_flush k = Inr (k', ps)" and "updated k \<noteq> 0"
  obtains seg em1 em2 em3 m resent rtomin q k2 em4 lost change em5 w where
    "ikcp_flush_acks k [0..<nat (sint (ackcount k))] (ikcp_flush_seg k) \<lparr>em_ptr = [], em_sent = []\<rparr> = Inr (seg, em1)"
    and "ikcp_flush_ask (flush_probed k) IKCP_ASK_SEND IKCP_CMD_WASK seg em1 = Inr em2"
    and "ikcp_flush_ask (flush_probed k) IKCP_ASK_TELL IKCP_CMD_WINS seg em2 = Inr em3"
    and "w = ikcp_flush_cwnd (flush_probed k\<lparr>probe := 0\<rparr>)"
    and "m = ikcp_flush_move w (seg_wnd seg) (flush_probed k\<lparr>probe := 0\<rparr>)"
    and "ikcp_flush_data resent rtomin (seg_wnd seg) (snd_buf m) m em3 False 0 = Inr (q, k2, em4, lost, change)"
    and "(if em_ptr em4 \<noteq> [] then ikcp_output (k2\<lparr>snd_buf := q\<rparr>) em4 else Inr em4) = Inr em5"
    and "k' = ikcp_flush_finish w resent lost change (k2\<lparr>snd_buf := q\<rparr>)"
    and "ps = em_sent em5"
proof -
  from assms obtain seg em1 em2 em3 where 1:
    "ikcp_flush_acks k [0..<nat (sint (ackcount k))] (ikcp_flush_seg k) \<lparr>em_ptr = [], em_sent = []\<rparr> = Inr (seg, em1)"
    "ikcp_flush_ask (flush_probed k) IKCP_ASK_SEND IKCP_CMD_WASK seg em1 = Inr em2"
    "ikcp_flush_ask (flush_probed k) IKCP_ASK_TELL IKCP_CMD_WINS seg em2 = Inr em3"
    unfolding ikcp_flush_def Let_def flush_probed_def [symmetric]
    by (auto simp: err_bind_Inr split_beta)
  define w where "w = ikcp_flush_cwnd (flush_probed k\<lparr>probe := 0\<rparr>)"
  define m where "m = ikcp_flush_move w (seg_wnd seg) (flush_probed k\<lparr>probe := 0\<rparr>)"
  define resent where "resent = (if fastresend m > 0 then to_u32 (fastresend m) else 0xffffffff)"
  define rtomin where "rtomin = (if nodelay m = 0 then to_u32 (rx_rto m div 8) else 0)"
  have "err_bind (ikcp_flush_data resent rtomin (seg_wnd seg) (snd_buf m) m em3 False 0)
      (\<lambda>(q, k, em, lost, change).
        err_bind (if em_ptr em \<noteq> [] then ikcp_output (k\<lparr>snd_buf := q\<rparr>) em else Inr em) (\<lambda>em.
          Inr (ikcp_flush_finish w resent lost change (k\<lparr>snd_buf := q\<rparr>), em_sent em))) = Inr (k', ps)"
    using assms 1 unfolding ikcp_flush_def Let_def flush_probed_def [symmetric] w_def m_def resent_def rtomin_def
    by simp
  then obtain q k2 em4 lost change em5 where
    "ikcp_flush_data resent rtomin (seg_wnd seg) (snd_buf m) m em3 False 0 = Inr (q, k2, em4, lost, change)"
    "(if em_ptr em4 \<noteq> [] then ikcp_output (k2\<lparr>snd_buf := q\<rparr>) em4 else Inr em4) = Inr em5"
    "k' = ikcp_flush_finish w resent lost change (k2\<lparr>snd_buf := q\<rparr>)" "ps = em_sent em5"
    by (auto simp: err_bind_Inr split: prod.splits)
  from that [OF 1 w_def m_def this] show ?thesis .
qed

lemma flush_groups:
  assumes wf: "kcp_wf k" and f: "ikcp_flush k = Inr (k', ps)"
  shows "\<exists>n news groups. ps = map packet groups \<and> n \<le> length (snd_queue k) \<and>
    snd_queue k' = drop n (snd_queue k) \<and> snd_nxt k' = snd_nxt k + of_nat n \<and>
    map seg_id (snd_buf k') = map seg_id (snd_buf k) @ news \<and>
    news = map (\<lambda>i. (snd_nxt k + of_nat i, seg_data (snd_queue k ! i), seg_len (snd_queue k ! i), conv k, IKCP_CMD_PUSH)) [0..<n] \<and>
    (\<forall>s \<in> set (concat groups). control_seg (conv k) s \<or> s \<in> set (snd_buf k')) \<and>
    rcv_view k' = rcv_view k \<and> conv k' = conv k"
proof (cases "updated k = 0")
  case True
  then have "k' = k" "ps = []" using f by (simp_all add: ikcp_flush_def)
  then show ?thesis by (intro exI [of _ "0::nat"] exI [of _ "[]"]) simp
next
  case False
  let ?p = "flush_probed k\<lparr>probe := 0\<rparr>"
  from f False obtain seg em1 em2 em3 m resent rtomin q k2 em4 lost change em5 w where
    a: "ikcp_flush_acks k [0..<nat (sint (ackcount k))] (ikcp_flush_seg k) \<lparr>em_ptr = [], em_sent = []\<rparr> = Inr (seg, em1)"
    and b: "ikcp_flush_ask (flush_probed k) IKCP_ASK_SEND IKCP_CMD_WASK seg em1 = Inr em2"
    and c: "ikcp_flush_ask (flush_probed k) IKCP_ASK_TELL IKCP_CMD_WINS seg em2 = Inr em3"
    and w: "w = ikcp_flush_cwnd ?p" and m: "m = ikcp_flush_move w (seg_wnd seg) ?p"
    and d: "ikcp_flush_data resent rtomin (seg_wnd seg) (snd_buf m) m em3 False 0 = Inr (q, k2, em4, lost, change)"
    and e: "(if em_ptr em4 \<noteq> [] then ikcp_output (k2\<lparr>snd_buf := q\<rparr>) em4 else Inr em4) = Inr em5"
    and k': "k' = ikcp_flush_finish w resent lost change (k2\<lparr>snd_buf := q\<rparr>)" and ps: "ps = em_sent em5"
    by (rule flush_phases)
  have wp: "kcp_wf ?p" using flush_probed_wf [OF wf] by simp
  have pre: "in_flight ?p \<le> 65535" "unat w \<le> 65535"
    using kcp_wfD(1) [OF wp] flush_cwnd_le [OF wp] by (simp_all add: snd_core_def w)
  define n where "n = move_count w ?p"
  have mv: "m = ?p\<lparr>snd_queue := drop n (snd_queue k), snd_buf := snd_buf k @ new_flight (seg_wnd seg) ?p n,
       nsnd_que := nsnd_que ?p - of_nat n, nsnd_buf := nsnd_buf ?p + of_nat n, snd_nxt := snd_nxt k + of_nat n\<rparr>"
    using flush_move_spec [OF pre, of "seg_wnd seg"] by (simp add: m n_def Let_def)
  have n: "n \<le> length (snd_queue k)" by (simp add: n_def move_count_def)
  have pf: "rcv_view ?p = rcv_view k" "conv ?p = conv k"
    using flush_probe_frame [of "k\<lparr>ackcount := 0\<rparr>"] by (auto simp: flush_probed_def rcv_view_def)
  have ctl: "control_seg (conv k) (ikcp_flush_seg k)" by (simp add: control_seg_def ikcp_flush_seg_def)
  obtain o1 where o1: "control_seg (conv k) seg" "em_groups o1 em1" "list_all (control_seg (conv k)) o1"
    using flush_acks_groups [OF a em_groups_start ctl] by auto
  obtain o2 where o2: "em_groups (o1 @ o2) em2" "list_all (control_seg (conv k)) o2"
    using flush_ask_groups [OF b o1(2,1)] by auto
  obtain o3 where o3: "em_groups ((o1 @ o2) @ o3) em3" "list_all (control_seg (conv k)) o3"
    using flush_ask_groups [OF c o2(1) o1(1)] by auto
  have "kcp_wf m" unfolding m by (rule flush_move_wf [OF wp pre(2)])
  then have "\<forall>s \<in> set (snd_buf m). seg_ok s" using kcp_wfD(6) by (auto simp: segs_wf_def)
  from flush_data_groups [OF d o3(1) this] obtain o4 where
    o4: "map seg_id q = map seg_id (snd_buf m)" "em_groups (((o1 @ o2) @ o3) @ o4) em4" "set o4 \<subseteq> set q" by blast
  obtain x st where k2: "k2 = m\<lparr>xmit := x, state := st\<rparr>" using flush_data_keeps [OF d] by blast
  have "em_groups (((o1 @ o2) @ o3) @ o4) (em5\<lparr>em_ptr := []\<rparr>)"
  proof (cases "em_ptr em4 = []")
    case True
    have same: "em5 = em4" using e True by simp
    have "em4\<lparr>em_ptr := []\<rparr> = em4" using True by (cases em4) simp
    with same show ?thesis using o4(2) by simp
  next
    case False
    then show ?thesis using e o4(2) by (auto intro: output_groups)
  qed
  then obtain groups cur where g: "em_sent em5 = map packet groups" "packet cur = []"
    "concat groups @ cur = ((o1 @ o2) @ o3) @ o4"
    unfolding em_groups_def by (fastforce dest: sym)
  have kk: "snd_queue k' = drop n (snd_queue k)" "snd_nxt k' = snd_nxt k + of_nat n" "snd_buf k' = q"
    "rcv_view k' = rcv_view k" "conv k' = conv k"
    using pf by (simp_all add: k' k2 mv ikcp_flush_finish_def Let_def rcv_view_def)
  have "map seg_id (new_flight (seg_wnd seg) ?p n) = map (\<lambda>i. (snd_nxt k + of_nat i, seg_data (snd_queue k ! i),
      seg_len (snd_queue k ! i), conv k, IKCP_CMD_PUSH)) [0..<n]"
    using pf by (simp add: new_flight_def ikcp_flush_newseg_def seg_id_def)
  then have ids: "map seg_id (snd_buf k') = map seg_id (snd_buf k) @ map (\<lambda>i. (snd_nxt k + of_nat i,
      seg_data (snd_queue k ! i), seg_len (snd_queue k ! i), conv k, IKCP_CMD_PUSH)) [0..<n]"
    by (simp add: kk o4(1) mv)
  have "\<forall>s \<in> set (concat groups). control_seg (conv k) s \<or> s \<in> set (snd_buf k')"
    using g(2,3) o1(3) o2(2) o3(2) o4(3) by (auto simp: kk list_all_iff)
  then show ?thesis using ids kk n g(1) ps by blast
qed

section \<open>The receiver, on genuine datagrams\<close>

text \<open>
  The segments of a sender are numbered by the list \<open>log\<close> of their contents. A genuine segment is a control
  segment or carries the contents that its number has in the log.
\<close>

definition authentic :: "u32 \<Rightarrow> bytes list \<Rightarrow> ikcpseg \<Rightarrow> bool" where
  "authentic c log s \<longleftrightarrow> seg_conv s = c \<and> seg_cmd s = IKCP_CMD_PUSH \<and> unat (seg_sn s) < length log \<and>
     seg_data s = log ! unat (seg_sn s) \<and> unat (seg_len s) = length (seg_data s)"

definition genuine :: "u32 \<Rightarrow> bytes list \<Rightarrow> ikcpseg \<Rightarrow> bool" where
  "genuine c log s \<longleftrightarrow> control_seg c s \<or> authentic c log s"

text \<open>A receiver that has handed over \<open>out\<close>.\<close>

definition rcv_inv :: "bytes list \<Rightarrow> bytes \<Rightarrow> kcpcb \<Rightarrow> bool" where
  "rcv_inv log out k \<longleftrightarrow>
     (\<exists>m n. m \<le> n \<and> n \<le> length log \<and> rcv_nxt k = of_nat n \<and> out = concat (take m log) \<and>
        map seg_data (rcv_queue k) = drop m (take n log)) \<and>
     (\<forall>s \<in> set (rcv_buf k). unat (seg_sn s) < length log \<and> seg_data s = log ! unat (seg_sn s))"

lemma rcv_inv_view: "rcv_view k = rcv_view k' \<Longrightarrow> rcv_inv log out k = rcv_inv log out k'"
  by (simp add: rcv_inv_def rcv_view_def)

lemma rcv_inv_prefix: "rcv_inv log out k \<Longrightarrow> \<exists>rest. concat log = out @ rest"
  by (auto simp: rcv_inv_def) (metis append_take_drop_id concat_append)

lemma rcv_inv_more:
  assumes "rcv_inv log out k" shows "rcv_inv (log @ xs) out k"
proof -
  obtain m n where mn: "m \<le> n" "n \<le> length log" "rcv_nxt k = of_nat n" "out = concat (take m log)"
    "map seg_data (rcv_queue k) = drop m (take n log)"
    using assms by (auto simp: rcv_inv_def)
  then have "m \<le> n \<and> n \<le> length (log @ xs) \<and> rcv_nxt k = of_nat n \<and> out = concat (take m (log @ xs)) \<and>
      map seg_data (rcv_queue k) = drop m (take n (log @ xs))" by simp
  moreover have "\<forall>s \<in> set (rcv_buf k). unat (seg_sn s) < length (log @ xs) \<and> seg_data s = (log @ xs) ! unat (seg_sn s)"
    using assms by (auto simp: rcv_inv_def nth_append)
  ultimately show ?thesis unfolding rcv_inv_def by blast
qed

lemma rcv_inv_move_ready:
  assumes "rcv_inv log out k" and "length log < 4294967296"
  shows "rcv_inv log out (ikcp_move_ready k)"
proof (rule move_ready_induct [where P = "rcv_inv log out", OF assms(1)])
  fix k seg rest
  assume inv: "rcv_inv log out k" and b: "rcv_buf k = seg # rest" and sn: "seg_sn seg = rcv_nxt k"
  obtain m n where mn: "m \<le> n" "n \<le> length log" "rcv_nxt k = of_nat n" "out = concat (take m log)"
    "map seg_data (rcv_queue k) = drop m (take n log)"
    using inv by (auto simp: rcv_inv_def)
  have seg: "unat (seg_sn seg) < length log" "seg_data seg = log ! unat (seg_sn seg)"
    using inv b by (auto simp: rcv_inv_def)
  have "unat (seg_sn seg) = n" using sn mn(2,3) assms(2) by (simp add: unat_of_nat_u32)
  with seg have n: "n < length log" "seg_data seg = log ! n" by simp_all
  have "map seg_data (rcv_queue k @ [seg]) = drop m (take (Suc n) log)"
    using mn(1,5) n by (simp add: take_Suc_conv_app_nth)
  moreover have "rcv_nxt k + 1 = of_nat (Suc n)" using mn(3) by simp
  ultimately show "rcv_inv log out (k\<lparr>rcv_buf := rest, nrcv_buf := nrcv_buf k - 1, rcv_queue := rcv_queue k @ [seg],
           nrcv_que := nrcv_que k + 1, rcv_nxt := rcv_nxt k + 1\<rparr>)"
    using mn(1,4) n(1) inv b unfolding rcv_inv_def
    by (intro conjI exI [of _ m] exI [of _ "Suc n"]) auto
qed

lemma rcv_inv_parse_data:
  assumes inv: "rcv_inv log out k" and log: "length log < 4294967296"
    and s: "unat (seg_sn s) < length log" "seg_data s = log ! unat (seg_sn s)"
  shows "rcv_inv log out (ikcp_parse_data k s)"
proof -
  have "rcv_inv log out (k\<lparr>rcv_buf := take i (rcv_buf k) @ [s] @ drop i (rcv_buf k), nrcv_buf := nb\<rparr>)" for i nb
    using inv s by (auto simp: rcv_inv_def dest: in_set_takeD in_set_dropD)
  then have "rcv_inv log out (ikcp_move_ready (k\<lparr>rcv_buf := take i (rcv_buf k) @ [s] @ drop i (rcv_buf k), nrcv_buf := nb\<rparr>))" for i nb
    using rcv_inv_move_ready log by blast
  moreover have "rcv_inv log out (ikcp_move_ready k)" by (rule rcv_inv_move_ready [OF inv log])
  ultimately show ?thesis
    using inv by (auto simp: ikcp_parse_data_def Let_def split: prod.split)
qed

text \<open>The parts of the input that leave the receiving side alone.\<close>

lemma rcv_view_simps [simp]:
  "rcv_view (k\<lparr>rmt_wnd := w\<rparr>) = rcv_view k" "rcv_view (k\<lparr>probe := p\<rparr>) = rcv_view k"
  "rcv_view (ikcp_parse_una k una) = rcv_view k" "rcv_view (ikcp_shrink_buf k) = rcv_view k"
  "rcv_view (ikcp_parse_ack k sn) = rcv_view k" "rcv_view (ikcp_parse_fastack k sn ts) = rcv_view k"
  "rcv_view (ikcp_update_ack k rtt) = rcv_view k" "rcv_view (ikcp_input_cwnd prev k) = rcv_view k"
  by (simp_all add: rcv_view_def ikcp_parse_una_def ikcp_shrink_buf_def ikcp_parse_ack_def ikcp_parse_fastack_def
      ikcp_update_ack_def ikcp_input_cwnd_def Let_def split: prod.split list.split)

lemma conv_simps [simp]:
  "conv (ikcp_parse_una k una) = conv k" "conv (ikcp_shrink_buf k) = conv k"
  "conv (ikcp_parse_ack k sn) = conv k" "conv (ikcp_parse_fastack k sn ts) = conv k"
  "conv (ikcp_update_ack k rtt) = conv k" "conv (ikcp_input_cwnd prev k) = conv k"
  by (simp_all add: ikcp_parse_una_def ikcp_shrink_buf_def ikcp_parse_ack_def ikcp_parse_fastack_def
      ikcp_update_ack_def ikcp_input_cwnd_def Let_def split: prod.split list.split)

lemma input_ack_view: "ikcp_input_ack k a sn ts = (k', a') \<Longrightarrow> rcv_view k' = rcv_view k \<and> conv k' = conv k"
  by (auto simp: ikcp_input_ack_def Let_def)

lemma ack_push_view: "ikcp_ack_push k sn ts = Some k' \<Longrightarrow> rcv_view k' = rcv_view k \<and> conv k' = conv k"
  by (auto simp: ikcp_ack_push_def Let_def rcv_view_def bind_eq_Some_conv split: if_splits)

lemma move_ready_conv [simp]: "conv (ikcp_move_ready k) = conv k"
  using move_ready_spec [of k] by auto

lemma parse_data_conv [simp]: "conv (ikcp_parse_data k s) = conv k"
  by (auto simp: ikcp_parse_data_def Let_def split: prod.split)

lemma newseg_fields:
  "ikcp_input_newseg junk h data = Some s \<Longrightarrow> seg_sn s = hdr_sn h"
  by (auto simp: ikcp_input_newseg_def Let_def split: if_splits)

lemma newseg_data:
  assumes "ikcp_input_newseg junk h (d @ rest) = Some s" and "unat (hdr_len h) = length d" and "length d < 2147483648"
  shows "seg_data s = d"
proof (cases "hdr_len h > 0")
  case True
  then have "seg_data s = memcpy_at (seg_data (ikcp_segment_new junk (nat (sint (hdr_len h))))) 0 (d @ rest) (length d)"
    using assms by (auto simp: ikcp_input_newseg_def Let_def split: if_splits)
  then show ?thesis using assms by (simp add: nat_sint memcpy_at_def)
next
  case False
  then have "d = []" using assms(2) by (simp add: word_less_nat_alt)
  moreover have "seg_data s = seg_data (ikcp_segment_new junk (length d))"
    using assms False by (auto simp: ikcp_input_newseg_def Let_def nat_sint split: if_splits)
  ultimately show ?thesis by (metis length_segment_new length_0_conv list.size(3))
qed

lemma rcv_inv_push:
  assumes inv: "rcv_inv log out k" and log: "length log < 4294967296"
    and s: "authentic c log s" "length (seg_data s) < 2147483648"
    and p: "ikcp_input_push junk k (wire_hdr s) (seg_data s @ rest) = Some k'"
  shows "rcv_inv log out k' \<and> conv k' = conv k"
proof -
  have step: "rcv_inv log out (ikcp_parse_data k1 t) \<and> conv (ikcp_parse_data k1 t) = conv k"
    if "ikcp_ack_push k (hdr_sn (wire_hdr s)) (hdr_ts (wire_hdr s)) = Some k1"
      and t: "ikcp_input_newseg junk (wire_hdr s) (seg_data s @ rest) = Some t" for k1 t
  proof -
    have "rcv_view k1 = rcv_view k" "conv k1 = conv k" using ack_push_view [OF that(1)] by simp_all
    moreover have "seg_sn t = seg_sn s" using newseg_fields [OF t] by (simp add: wire_hdr_def)
    moreover have "seg_data t = seg_data s"
      using newseg_data [OF t _ s(2)] s(1) by (simp add: wire_hdr_def authentic_def)
    ultimately show ?thesis
      using rcv_inv_parse_data [OF _ log, of out k1 t] rcv_inv_view [of k1 k] inv s(1)
      by (simp add: authentic_def)
  qed
  consider "k' = k"
    | k1 where "ikcp_ack_push k (hdr_sn (wire_hdr s)) (hdr_ts (wire_hdr s)) = Some k1" "k' = k1"
    | k1 t where "ikcp_ack_push k (hdr_sn (wire_hdr s)) (hdr_ts (wire_hdr s)) = Some k1"
        "ikcp_input_newseg junk (wire_hdr s) (seg_data s @ rest) = Some t" "k' = ikcp_parse_data k1 t"
    using p unfolding ikcp_input_push_def Let_def by (auto simp: bind_eq_Some_conv split: if_splits)
  then show ?thesis
  proof cases
    case 2
    then show ?thesis using ack_push_view [OF 2(1)] rcv_inv_view [of k1 k] inv by simp
  next
    case 3
    show ?thesis unfolding 3(3) by (rule step [OF 3(1,2)])
  next
    case 1
    then show ?thesis using inv by simp
  qed
qed

lemma rcv_inv_input_seg:
  assumes inv: "rcv_inv log out k" and log: "length log < 4294967296"
    and s: "genuine c log s" "length (seg_data s) < 2147483648"
    and i: "ikcp_input_seg junk k a (wire_hdr s) (seg_data s @ rest) = Some (k', a')"
  shows "rcv_inv log out k' \<and> conv k' = conv k"
proof -
  let ?k1 = "ikcp_shrink_buf (ikcp_parse_una (k\<lparr>rmt_wnd := ucast (hdr_wnd (wire_hdr s))\<rparr>) (hdr_una (wire_hdr s)))"
  have k1: "rcv_view ?k1 = rcv_view k" "conv ?k1 = conv k" by simp_all
  have inv1: "rcv_inv log out ?k1" using inv rcv_inv_view [OF k1(1)] by simp
  have cmd: "(ucast (hdr_cmd (wire_hdr s)) :: u32) = seg_cmd s"
    using s(1) by (intro cmd_on_wire) (auto simp: genuine_def control_seg_def authentic_def)
  consider "seg_cmd s = IKCP_CMD_ACK" "ikcp_input_ack ?k1 a (hdr_sn (wire_hdr s)) (hdr_ts (wire_hdr s)) = (k', a')"
    | "seg_cmd s = IKCP_CMD_PUSH" "ikcp_input_push junk ?k1 (wire_hdr s) (seg_data s @ rest) = Some k'"
    | "k' = ?k1\<lparr>probe := probe ?k1 OR IKCP_ASK_TELL\<rparr> \<or> k' = ?k1"
    using i cmd by (auto simp: ikcp_input_seg_def Let_def split: if_splits)
  then show ?thesis
  proof cases
    case 1
    then show ?thesis using input_ack_view [OF 1(2)] rcv_inv_view [of k' ?k1] inv1 k1 by simp
  next
    case 2
    then have "authentic c log s" using s(1) by (auto simp: genuine_def control_seg_def kcp_defs)
    from rcv_inv_push [OF inv1 log this s(2) 2(2)] show ?thesis using k1 by simp
  next
    case 3
    then show ?thesis using rcv_inv_view [of k' k] inv by auto
  qed
qed

text \<open>A segment that is too long for the receiver ends the parsing of its datagram.\<close>

lemma input_loop_too_long:
  assumes "seg_conv s = conv k" and "unat (seg_len s) = length (seg_data s)" and "\<not> length (seg_data s) < 2147483648"
  shows "ikcp_input_loop junk k a (packed s @ rest) (24 + int n) = Some (-2, k, a)"
proof -
  have c: "ikcp_decode32u (packed s @ rest) = Some (conv k, drop 4 (packed s @ rest))"
    using assms(1) unfolding packed_def encode_seg_fields append_assoc
    by (subst f32.dec_enc_nil) (simp add: f32.enc_length)
  have h: "ikcp_decode_hdr (packed s @ rest) = Some (wire_hdr s, seg_data s @ rest)"
    by (simp add: packed_def decode_hdr_encode_seg)
  have "sint (hdr_len (wire_hdr s)) < 0"
    using assms(2,3) unat_u32_less [of "seg_len s"] by (simp add: wire_hdr_def sint_eq_unat_if)
  then show ?thesis by (subst ikcp_input_loop.simps) (simp add: c h)
qed

lemma genuine_len: "genuine c log s \<Longrightarrow> seg_conv s = c \<and> unat (seg_len s) = length (seg_data s) \<and>
    seg_cmd s \<in> {IKCP_CMD_PUSH, IKCP_CMD_ACK, IKCP_CMD_WASK, IKCP_CMD_WINS}"
  by (auto simp: genuine_def control_seg_def authentic_def)

lemma rcv_inv_input_loop:
  assumes "ikcp_input_loop junk k a (packet segs @ rest) (int (length (packet segs))) = Some (r, k', a')"
    and "rcv_inv log out k" and "length log < 4294967296" and "\<forall>s \<in> set segs. genuine (conv k) log s"
  shows "rcv_inv log out k' \<and> conv k' = conv k"
  using assms
proof (induction segs arbitrary: k a)
  case Nil
  then show ?case by (simp add: ikcp_input_loop.simps)
next
  case (Cons s segs)
  have s: "genuine (conv k) log s" using Cons.prems by simp
  note g = genuine_len [OF s]
  have p: "packet (s # segs) @ rest = packed s @ packet segs @ rest" by (simp add: packet_def)
  have len: "int (length (packet (s # segs))) = 24 + int (length (seg_data s) + length (packet segs))"
    by (simp add: packet_def length_packed)
  show ?case
  proof (cases "length (seg_data s) < 2147483648")
    case False
    have "ikcp_input_loop junk k a (packet (s # segs) @ rest) (int (length (packet (s # segs)))) = Some (-2, k, a)"
      unfolding p len using g by (intro input_loop_too_long [OF _ _ False]) simp_all
    then show ?thesis using Cons.prems by simp
  next
    case True
    then have pr: "proper_seg k s" using g by (simp add: proper_seg_def)
    obtain k1 a1 where st: "ikcp_input_seg (junk (24 + int (length (seg_data s)) + int (length (packet segs)))) k a (wire_hdr s) (seg_data s @ packet segs @ rest) = Some (k1, a1)"
      "ikcp_input_loop junk k1 a1 (packet segs @ rest) (int (length (packet segs))) = Some (r, k', a')"
      using Cons.prems(1) g input_loop_encoded_rest [OF pr, where d = "seg_data s" and rest = "packet segs @ rest" and n = "length (packet segs)" and junk = junk and a = a]
      unfolding p len by (auto simp: packed_def add.assoc split: option.splits)
    from rcv_inv_input_seg [OF Cons.prems(2,3) s True st(1)] have k1: "rcv_inv log out k1" "conv k1 = conv k" by simp_all
    from Cons.IH [OF st(2) k1(1) Cons.prems(3)] Cons.prems(4) k1(2) show ?thesis by simp
  qed
qed


text \<open>A whole datagram, with whatever follows it in the receive buffer.\<close>

lemma rcv_inv_input:
  assumes i: "ikcp_input junk k (Some (packet segs @ rest)) (int (length (packet segs))) = Some (r, k')"
    and inv: "rcv_inv log out k" and log: "length log < 4294967296" and g: "\<forall>s \<in> set segs. genuine (conv k) log s"
  shows "rcv_inv log out k' \<and> conv k' = conv k"
proof -
  consider "k' = k" | r1 k1 a1 where
    "ikcp_input_loop junk k \<lparr>ack_flag = False, ack_maxack = 0, ack_latest_ts = 0\<rparr> (packet segs @ rest) (int (length (packet segs))) = Some (r1, k1, a1)"
    "rcv_view k' = rcv_view k1" "conv k' = conv k1"
    using i by (auto simp: ikcp_input_def Let_def split: if_splits option.splits)
  then show ?thesis
  proof cases
    case 2
    then show ?thesis using rcv_inv_input_loop [OF 2(1) inv log g] rcv_inv_view by metis
  qed (use inv in simp)
qed

text \<open>What \<^verbatim>\<open>ikcp_recv\<close> hands over is the next part of the log.\<close>

lemma rcv_inv_recv:
  assumes r: "ikcp_recv k True len = Some (r, out', k')" and inv: "rcv_inv log out k"
    and log: "length log < 4294967296" and wf: "kcp_wf k"
  shows "rcv_inv log (if len < 0 then out else out @ out') k' \<and> conv k' = conv k"
proof -
  let ?m = "ikcp_recv_merge (len < 0) True (rcv_queue k) k 0 []"
  have ok: "\<forall>s \<in> set (rcv_queue k). seg_ok s" using kcp_wfD(6) [OF wf] by (simp add: segs_wf_def)
  define k1 where "k1 = (if len < 0 then k else k\<lparr>rcv_queue := after_message (rcv_queue k),
      nrcv_que := nrcv_que k - of_nat (length (head_message (rcv_queue k)))\<rparr>)"
  have m: "snd ?m = (message_bytes (rcv_queue k), k1)" using recv_merge_spec [OF ok refl] by (simp add: k1_def)
  obtain m n where mn: "m \<le> n" "n \<le> length log" "rcv_nxt k = of_nat n" "out = concat (take m log)"
    "map seg_data (rcv_queue k) = drop m (take n log)"
    using inv by (auto simp: rcv_inv_def)
  have keep: "rcv_inv log (if len < 0 then out else out @ message_bytes (rcv_queue k)) k1"
  proof (cases "len < 0")
    case True
    then show ?thesis using inv by (simp add: k1_def)
  next
    case False
    let ?h = "length (head_message (rcv_queue k))"
    have "?h \<le> n - m" using head_message_length [of "rcv_queue k"] mn(2,5) by (metis length_drop length_map length_take min_absorb2)
    then have h: "m + ?h \<le> n" using mn(1) by simp
    have "take ?h (map seg_data (rcv_queue k)) = map seg_data (head_message (rcv_queue k))"
      by (metis head_message_split append_eq_conv_conj take_map)
    then have "map seg_data (head_message (rcv_queue k)) = take ?h (drop m log)"
      using mn(5) h by (simp add: drop_take take_map)
    then have "out @ message_bytes (rcv_queue k) = concat (take (m + ?h) log)"
      by (simp add: mn(4) message_bytes_def take_add)
    moreover have "map seg_data (after_message (rcv_queue k)) = drop (m + ?h) (take n log)"
      using mn(5) by (simp add: after_message_def flip: drop_map) (simp add: add.commute drop_map)
    ultimately show ?thesis
      using False h mn(2,3) inv unfolding rcv_inv_def k1_def
      by (intro conjI exI [of _ "m + ?h"] exI [of _ n]) auto
  qed
  have "(k' = k \<and> out' = []) \<or> (\<exists>c. k' = recv_settle c k1 \<and> out' = message_bytes (rcv_queue k))"
    using r m by (auto simp: ikcp_recv_def Let_def recv_settle_def split: if_splits prod.splits)
  moreover have "rcv_inv log o' (recv_settle c k1)" if "rcv_inv log o' k1" for c o'
    using rcv_inv_move_ready [OF that log] rcv_inv_view [of "ikcp_move_ready k1" "ikcp_move_ready k1\<lparr>probe := p\<rparr>" for p]
    by (auto simp: recv_settle_def Let_def)
  moreover have "conv (recv_settle c k1) = conv k" for c by (simp add: recv_settle_def Let_def k1_def)
  ultimately show ?thesis using keep inv by (auto split: if_splits)
qed

section \<open>The sender, whatever it receives\<close>

definition snd_inv :: "bytes list \<Rightarrow> bytes \<Rightarrow> kcpcb \<Rightarrow> bool" where
  "snd_inv log acc k \<longleftrightarrow> snd_nxt k = of_nat (length log) \<and> (\<forall>s \<in> set (snd_buf k). authentic (conv k) log s) \<and>
     concat log @ concat (map seg_data (snd_queue k)) = acc"

text \<open>Acknowledgements, and anything else that comes in, at most take segments out of the send buffer.\<close>

definition shrunk :: "kcpcb \<Rightarrow> kcpcb \<Rightarrow> bool" where
  "shrunk k k' \<longleftrightarrow> snd_nxt k' = snd_nxt k \<and> snd_queue k' = snd_queue k \<and> conv k' = conv k \<and>
     seg_id ` set (snd_buf k') \<subseteq> seg_id ` set (snd_buf k)"

lemma shrunk_refl [simp]: "shrunk k k"
  by (simp add: shrunk_def)

lemma shrunk_trans: "shrunk k k1 \<Longrightarrow> shrunk k1 k2 \<Longrightarrow> shrunk k k2"
proof -
  assume a: "shrunk k k1" "shrunk k1 k2"
  then have "seg_id ` set (snd_buf k2) \<subseteq> seg_id ` set (snd_buf k)"
    unfolding shrunk_def by (elim conjE) (rule order_trans)
  with a show "shrunk k k2" by (simp add: shrunk_def)
qed

lemma shrunk_same: "snd_view k' = snd_view k \<Longrightarrow> conv k' = conv k \<Longrightarrow> shrunk k k'"
  by (simp add: shrunk_def snd_view_def)

lemma authentic_id: "seg_id s = seg_id t \<Longrightarrow> authentic c log s = authentic c log t"
  by (simp add: authentic_def seg_id_def)

lemma snd_inv_shrunk:
  assumes "snd_inv log acc k" and "shrunk k k'"
  shows "snd_inv log acc k'"
proof -
  have "authentic (conv k) log s" if "s \<in> set (snd_buf k')" for s
  proof -
    have "seg_id s \<in> seg_id ` set (snd_buf k)" using that assms(2) by (auto simp: shrunk_def)
    then obtain t where "t \<in> set (snd_buf k)" "seg_id s = seg_id t" by blast
    then show ?thesis using assms(1) authentic_id [of s t] by (simp add: snd_inv_def)
  qed
  then show ?thesis using assms by (simp add: snd_inv_def shrunk_def)
qed

lemma shrunk_una_loop: "set (fst (ikcp_parse_una_loop una p n)) \<subseteq> set p"
  by (induction una p n rule: ikcp_parse_una_loop.induct) auto

lemma shrunk_ack_loop: "set (fst (ikcp_parse_ack_loop sn p n)) \<subseteq> set p"
  by (induction sn p n rule: ikcp_parse_ack_loop.induct) (auto split: prod.splits)

lemma fastack_loop_ids: "map seg_id (ikcp_parse_fastack_loop sn ts p) = map seg_id p"
  by (induction p) (simp_all add: seg_id_def)

lemma shrunk_fastack_loop: "seg_id ` set (ikcp_parse_fastack_loop sn ts p) \<subseteq> seg_id ` set p"
  using fastack_loop_ids [of sn ts p] by (metis list.set_map subset_refl)

lemma shrunk_ops:
  "shrunk k (ikcp_parse_una k una)" "shrunk k (ikcp_shrink_buf k)" "shrunk k (ikcp_parse_ack k sn)"
  "shrunk k (ikcp_parse_fastack k sn ts)" "shrunk k (ikcp_update_ack k rtt)" "shrunk k (ikcp_input_cwnd prev k)"
  "shrunk k (k\<lparr>rmt_wnd := w\<rparr>)" "shrunk k (k\<lparr>probe := p\<rparr>)" "shrunk k (ikcp_move_ready k)" "shrunk k (ikcp_parse_data k s)"
proof -
  show "shrunk k (ikcp_parse_una k una)"
    using shrunk_una_loop [of una "snd_buf k" "nsnd_buf k"]
    by (auto simp: shrunk_def ikcp_parse_una_def split: prod.split)
  show "shrunk k (ikcp_parse_ack k sn)"
    using shrunk_ack_loop [of sn "snd_buf k" "nsnd_buf k"]
    by (auto simp: shrunk_def ikcp_parse_ack_def split: prod.split)
  show "shrunk k (ikcp_parse_fastack k sn ts)"
    using shrunk_fastack_loop [of sn ts "snd_buf k"] by (auto simp: shrunk_def ikcp_parse_fastack_def)
  have mv: "shrunk k (ikcp_move_ready k)" for k
    using move_ready_spec [of k] by (auto simp: shrunk_def)
  then show "shrunk k (ikcp_move_ready k)" .
  have "shrunk k (k\<lparr>rcv_buf := b, nrcv_buf := n\<rparr>)" for b n by (simp add: shrunk_def)
  then have "shrunk k (ikcp_move_ready (k\<lparr>rcv_buf := b, nrcv_buf := n\<rparr>))" for b n
    using mv shrunk_trans by blast
  then show "shrunk k (ikcp_parse_data k s)"
    using mv [of k] by (auto simp: ikcp_parse_data_def Let_def split: prod.split)
qed (auto simp: shrunk_def ikcp_shrink_buf_def ikcp_update_ack_def ikcp_input_cwnd_def Let_def split: list.split)

lemma shrunk_input_ack: "ikcp_input_ack k a sn ts = (k', a') \<Longrightarrow> shrunk k k'"
proof -
  assume i: "ikcp_input_ack k a sn ts = (k', a')"
  let ?k1 = "if itimediff (current k) ts \<ge> 0 then ikcp_update_ack k (itimediff (current k) ts) else k"
  have "k' = ikcp_shrink_buf (ikcp_parse_ack ?k1 sn)" using i by (auto simp: ikcp_input_ack_def Let_def)
  moreover have "shrunk k ?k1" using shrunk_ops(5) by simp
  ultimately show "shrunk k k'" using shrunk_trans shrunk_ops(2,3) by metis
qed

lemma shrunk_ack_push: "ikcp_ack_push k sn ts = Some k' \<Longrightarrow> shrunk k k'"
  by (auto simp: ikcp_ack_push_def Let_def shrunk_def bind_eq_Some_conv split: if_splits)

lemma shrunk_input_push: "ikcp_input_push junk k h d = Some k' \<Longrightarrow> shrunk k k'"
  by (auto simp: ikcp_input_push_def Let_def bind_eq_Some_conv split: if_splits
      intro: shrunk_ack_push shrunk_trans [OF shrunk_ack_push shrunk_ops(10)])

lemma shrunk_input_seg:
  assumes "ikcp_input_seg junk k a h d = Some (k', a')"
  shows "shrunk k k'"
proof -
  define k1 where "k1 = ikcp_shrink_buf (ikcp_parse_una (k\<lparr>rmt_wnd := ucast (hdr_wnd h)\<rparr>) (hdr_una h))"
  have "shrunk k k1" unfolding k1_def
    by (rule shrunk_trans [OF shrunk_trans [OF shrunk_ops(7) shrunk_ops(1)] shrunk_ops(2)])
  moreover have "shrunk k1 k'"
  proof -
    have r: "(if (ucast (hdr_cmd h) :: u32) = IKCP_CMD_ACK then Some (ikcp_input_ack k1 a (hdr_sn h) (hdr_ts h))
         else if (ucast (hdr_cmd h) :: u32) = IKCP_CMD_PUSH
         then map_option (\<lambda>k. (k, a)) (ikcp_input_push junk k1 h d)
         else if (ucast (hdr_cmd h) :: u32) = IKCP_CMD_WASK then Some (k1\<lparr>probe := probe k1 OR IKCP_ASK_TELL\<rparr>, a)
         else Some (k1, a)) = Some (k', a')"
      using assms unfolding ikcp_input_seg_def Let_def k1_def .
    show ?thesis
    proof (cases "(ucast (hdr_cmd h) :: u32) = IKCP_CMD_ACK")
      case True
      then show ?thesis using r shrunk_input_ack by (simp del: )
    next
      case not_ack: False
      show ?thesis
      proof (cases "(ucast (hdr_cmd h) :: u32) = IKCP_CMD_PUSH")
        case True
        then show ?thesis using r not_ack shrunk_input_push by fastforce
      next
        case False
        then have "k' = k1\<lparr>probe := probe k1 OR IKCP_ASK_TELL\<rparr> \<or> k' = k1"
          using r not_ack by (simp split: if_splits)
        then show ?thesis using shrunk_ops(8) by auto
      qed
    qed
  qed
  ultimately show ?thesis by (rule shrunk_trans)
qed

lemma shrunk_input:
  assumes "ikcp_input junk k data n = Some (r, k')"
  shows "shrunk k k'"
proof -
  have loop: "shrunk k k1" if "ikcp_input_loop junk k a d n = Some (r1, k1, a1)" for a d r1 k1 a1
    by (rule input_loop_keeps [where P = "shrunk k", OF _ shrunk_refl that])
       (rule shrunk_trans [OF _ shrunk_input_seg])
  have grow: "shrunk k (ikcp_input_cwnd p k1)" "shrunk k (ikcp_input_cwnd p (ikcp_parse_fastack k1 m t))"
    if "shrunk k k1" for k1 p m t
    using shrunk_trans [OF that shrunk_ops(6)] shrunk_trans [OF shrunk_trans [OF that shrunk_ops(4)] shrunk_ops(6)] by blast+
  show ?thesis
    using assms grow by (auto simp: ikcp_input_def Let_def split: option.splits if_splits dest!: loop)
qed

lemma shrunk_recv:
  assumes "ikcp_recv k b len = Some (r, out, k')"
  shows "shrunk k k'"
proof -
  obtain x y k1 where m: "ikcp_recv_merge (len < 0) b (rcv_queue k) k 0 [] = (x, y, k1)" by (metis prod.exhaust)
  have "shrunk k k1" using recv_merge_state [OF refl, of "len < 0" b k 0 "[]"] m by (auto simp: shrunk_def split: if_splits)
  moreover have "shrunk k1 (recv_settle c k1)" for c
    using shrunk_ops(9) [of k1] shrunk_trans [OF shrunk_ops(9) shrunk_ops(8), of k1]
    by (auto simp: recv_settle_def Let_def)
  moreover have "k' = k \<or> (\<exists>c. k' = recv_settle c k1)"
    using assms m by (auto simp: ikcp_recv_def Let_def recv_settle_def split: if_splits)
  ultimately show ?thesis using shrunk_trans by (metis shrunk_refl)
qed

text \<open>Accepting bytes, in either mode.\<close>

lemma snd_inv_send:
  assumes inv: "snd_inv log acc k" and wf: "kcp_wf k" and b: "length b < 2147483648"
    and call: "ikcp_send junk k (Some b) (int (length b)) = Some (r, k')"
  shows "snd_inv log (acc @ take (nat r) b) k'"
proof -
  obtain q n where only: "k' = k\<lparr>snd_queue := q, nsnd_que := n\<rparr>" using send_only [OF call] by blast
  have "concat (map seg_data (snd_queue k')) = concat (map seg_data (snd_queue k)) @ take (nat r) b"
  proof (cases "stream k = 0")
    case True
    then show ?thesis using send_message_holds [OF wf True b, of junk] call by (auto simp: Let_def split: if_splits)
  next
    case False
    then show ?thesis using send_stream_holds [OF wf False b, of junk] call by auto
  qed
  then show ?thesis using inv only by (auto simp: snd_inv_def)
qed

text \<open>A flush numbers the segments it moves, and sends only genuine ones.\<close>

lemma snd_inv_flush:
  assumes inv: "snd_inv log acc k" and wf: "kcp_wf k" and f: "ikcp_flush k = Inr (k', ps)"
    and log': "log' = log @ map seg_data (take (length (snd_queue k) - length (snd_queue k')) (snd_queue k))"
    and small: "length log' < 4294967296"
  shows "snd_inv log' acc k' \<and> conv k' = conv k \<and> rcv_view k' = rcv_view k \<and>
    (\<forall>p \<in> set ps. \<exists>segs. p = packet segs \<and> (\<forall>s \<in> set segs. genuine (conv k) log' s))"
proof -
  obtain n news groups where ps: "ps = map packet groups" and n: "n \<le> length (snd_queue k)"
    and q: "snd_queue k' = drop n (snd_queue k)" and nxt: "snd_nxt k' = snd_nxt k + of_nat n"
    and ids: "map seg_id (snd_buf k') = map seg_id (snd_buf k) @ news"
    and news: "news = map (\<lambda>i. (snd_nxt k + of_nat i, seg_data (snd_queue k ! i), seg_len (snd_queue k ! i), conv k, IKCP_CMD_PUSH)) [0..<n]"
    and gs: "\<forall>s \<in> set (concat groups). control_seg (conv k) s \<or> s \<in> set (snd_buf k')"
    and same: "rcv_view k' = rcv_view k" "conv k' = conv k"
    using flush_groups [OF wf f] by blast
  have l: "log' = log @ map seg_data (take n (snd_queue k))" using log' q n by simp
  have len: "length log' = length log + n" using l n by simp
  have ok: "\<forall>s \<in> set (snd_queue k). seg_ok s" using kcp_wfD(6) [OF wf] by (simp add: segs_wf_def)
  have auth: "authentic (conv k) log' s" if "s \<in> set (snd_buf k')" for s
  proof -
    have "seg_id s \<in> set (map seg_id (snd_buf k) @ news)" using that ids by (metis imageI list.set_map)
    then consider t where "t \<in> set (snd_buf k)" "seg_id t = seg_id s" | "seg_id s \<in> set news" by auto
    then show ?thesis
    proof cases
      case 1
      then have "authentic (conv k) log t" using inv by (simp add: snd_inv_def)
      then have "authentic (conv k) log' t" by (auto simp: authentic_def l nth_append)
      then show ?thesis using authentic_id [OF 1(2)] by simp
    next
      case 2
      then obtain i where i: "i < n" "seg_id s = (snd_nxt k + of_nat i, seg_data (snd_queue k ! i),
          seg_len (snd_queue k ! i), conv k, IKCP_CMD_PUSH)" by (auto simp: news)
      have "snd_nxt k + of_nat i = (of_nat (length log + i) :: u32)" using inv by (simp add: snd_inv_def)
      moreover have "unat (of_nat (length log + i) :: u32) = length log + i"
        using small i(1) len by (intro unat_of_nat_u32) simp
      moreover have "seg_ok (snd_queue k ! i)" using ok i(1) n by simp
      ultimately show ?thesis
        using i n by (simp add: authentic_def seg_id_def seg_ok_def l nth_append)
    qed
  qed
  have "concat log' @ concat (map seg_data (snd_queue k')) = acc"
    using inv by (simp add: l q snd_inv_def flip: concat_append map_append)
  then have "snd_inv log' acc k'"
    using auth inv same(2) by (simp add: snd_inv_def nxt len)
  moreover have "\<forall>p \<in> set ps. \<exists>segs. p = packet segs \<and> (\<forall>s \<in> set segs. genuine (conv k) log' s)"
    using gs auth by (auto simp: ps genuine_def)
  ultimately show ?thesis using same by blast
qed

lemma snd_inv_current: "snd_inv log acc (k\<lparr>current := c\<rparr>) = snd_inv log acc k"
  "snd_inv log acc (k\<lparr>current := c, updated := u, ts_flush := t\<rparr>) = snd_inv log acc k"
  by (simp_all add: snd_inv_def)

text \<open>An update is a flush of the block with another clock, or nothing.\<close>

lemma update_cases:
  assumes "ikcp_update k now = Inr (k', ps)"
  obtains u t where "ikcp_flush (k\<lparr>current := now, updated := u, ts_flush := t\<rparr>) = Inr (k', ps)"
  | u t where "k' = k\<lparr>current := now, updated := u, ts_flush := t\<rparr>" and "ps = []"
proof -
  have a: "k\<lparr>current := now\<rparr> = k\<lparr>current := now, updated := updated k, ts_flush := ts_flush k\<rparr>" by simp
  define P where "P x \<longleftrightarrow> (\<exists>u t. x = k\<lparr>current := now, updated := u, ts_flush := t\<rparr>)" for x
  have P1: "P (k\<lparr>current := now\<rparr>)" unfolding P_def by (metis a)
  have P2: "P (x\<lparr>updated := u, ts_flush := t\<rparr>)" "P (x\<lparr>ts_flush := t\<rparr>)" if "P x" for x u t
    using that unfolding P_def by auto (metis kcpcb.update_convs)+
  have "(\<exists>x. P x \<and> ikcp_flush x = Inr (k', ps)) \<or> (\<exists>x. P x \<and> k' = x \<and> ps = [])"
    using assms P1 P2 unfolding ikcp_update_def Let_def by (auto split: if_splits)
  then show ?thesis using that unfolding P_def by blast
qed

section \<open>Two parties and a network\<close>

text \<open>
  A sender and a receiver with control blocks of one conversation, the datagrams that the sender has
  produced, the contents of the numbered segments, and what the upper levels see: the bytes that the
  sender's calls accepted and the messages that the receiver's calls returned.
\<close>

record link =
  l_snd :: kcpcb
  l_rcv :: kcpcb
  wire :: "bytes list"
  seg_log :: "bytes list"
  accepted :: bytes
  delivered :: "bytes list"

text \<open>
  The network loses, repeats, reorders and joins datagrams: an input takes any datagrams of the wire, in any
  order, followed by whatever was in the buffer. The sender may receive arbitrary bytes.
\<close>

datatype link_act =
    Snd_send "nat \<Rightarrow> ikcpseg" bytes
  | Snd_update u32
  | Snd_flush
  | Snd_other api_call
  | Rcv_input "int \<Rightarrow> ikcpseg" "nat list" bytes
  | Rcv_recv int
  | Rcv_other api_call

definition link_sent :: "link \<Rightarrow> kcpcb \<Rightarrow> bytes list \<Rightarrow> link" where
  "link_sent l k ps = l\<lparr>l_snd := k, wire := wire l @ ps,
     seg_log := seg_log l @ map seg_data
       (take (length (snd_queue (l_snd l)) - length (snd_queue k)) (snd_queue (l_snd l)))\<rparr>"

fun link_step :: "link_act \<Rightarrow> link \<Rightarrow> link option" where
  "link_step (Snd_send junk b) l =
     map_option (\<lambda>(r, k). l\<lparr>l_snd := k, accepted := accepted l @ take (nat r) b\<rparr>)
       (ikcp_send junk (l_snd l) (Some b) (int (length b)))"
| "link_step (Snd_update now) l =
     (case ikcp_update (l_snd l) now of Inl _ \<Rightarrow> None | Inr (k, ps) \<Rightarrow> Some (link_sent l k ps))"
| "link_step Snd_flush l =
     (case ikcp_flush (l_snd l) of Inl _ \<Rightarrow> None | Inr (k, ps) \<Rightarrow> Some (link_sent l k ps))"
| "link_step (Snd_other call) l = map_option (\<lambda>k. l\<lparr>l_snd := k\<rparr>) (api_step call (l_snd l))"
| "link_step (Rcv_input junk is rest) l =
     (if list_all (\<lambda>i. i < length (wire l)) is
      then let d = concat (map (nth (wire l)) is) in
           map_option (\<lambda>(r, k). l\<lparr>l_rcv := k\<rparr>) (ikcp_input junk (l_rcv l) (Some (d @ rest)) (int (length d)))
      else Some l)"
| "link_step (Rcv_recv len) l =
     map_option (\<lambda>(r, out, k). l\<lparr>l_rcv := k, delivered := delivered l @ (if len < 0 \<or> r < 0 then [] else [out])\<rparr>)
       (ikcp_recv (l_rcv l) True len)"
| "link_step (Rcv_other call) l = map_option (\<lambda>k. l\<lparr>l_rcv := k\<rparr>) (api_step call (l_rcv l))"

fun link_ok :: "link_act \<Rightarrow> bool" where
  "link_ok (Snd_send junk b) = (length b < 2147483648)"
| "link_ok (Snd_other call) = (api_ok call \<and>
     (case call of Call_send _ _ _ \<Rightarrow> False | Call_update _ \<Rightarrow> False | Call_flush \<Rightarrow> False | _ \<Rightarrow> True))"
| "link_ok (Rcv_other call) = (api_ok call \<and> (case call of Call_recv _ _ \<Rightarrow> False | Call_input _ _ _ \<Rightarrow> False | _ \<Rightarrow> True))"
| "link_ok _ = True"

definition link_start :: "kcpcb \<Rightarrow> kcpcb \<Rightarrow> link" where
  "link_start s r = \<lparr>l_snd = s, l_rcv = r, wire = [], seg_log = [], accepted = [], delivered = []\<rparr>"

text \<open>The invariant: as long as no segment number has been used twice.\<close>

definition link_inv :: "link \<Rightarrow> bool" where
  "link_inv l \<longleftrightarrow> kcp_wf (l_snd l) \<and> kcp_wf (l_rcv l) \<and> conv (l_rcv l) = conv (l_snd l) \<and>
     (length (seg_log l) < 4294967296 \<longrightarrow>
        snd_inv (seg_log l) (accepted l) (l_snd l) \<and> rcv_inv (seg_log l) (concat (delivered l)) (l_rcv l) \<and>
        (\<forall>p \<in> set (wire l). \<exists>segs. p = packet segs \<and> (\<forall>s \<in> set segs. genuine (conv (l_snd l)) (seg_log l) s)))"

lemma genuine_more: "genuine c log s \<Longrightarrow> genuine c (log @ xs) s"
  by (auto simp: genuine_def authentic_def nth_append)

lemma link_inv_sent:
  assumes inv: "link_inv l" and f: "ikcp_flush k1 = Inr (k, ps)" and wf: "kcp_wf k1"
    and k1: "\<And>log acc. snd_inv log acc k1 = snd_inv log acc (l_snd l)" "snd_queue k1 = snd_queue (l_snd l)" "conv k1 = conv (l_snd l)"
  shows "link_inv (link_sent l k ps)"
proof -
  define log' where "log' = seg_log l @ map seg_data (take (length (snd_queue (l_snd l)) - length (snd_queue k)) (snd_queue (l_snd l)))"
  have k: "kcp_wf k" "conv k = conv (l_snd l)" using flush_keeps_wf [OF wf f] flush_groups [OF wf f] k1(3) by auto
  show ?thesis
  proof (cases "length log' < 4294967296")
    case True
    then have old: "length (seg_log l) < 4294967296" by (simp add: log'_def)
    have "snd_inv (seg_log l) (accepted l) k1" using inv old k1(1) by (simp add: link_inv_def)
    from snd_inv_flush [OF this wf f, of log'] True have new: "snd_inv log' (accepted l) k"
      "\<forall>p \<in> set ps. \<exists>segs. p = packet segs \<and> (\<forall>s \<in> set segs. genuine (conv (l_snd l)) log' s)"
      by (simp_all add: log'_def k1)
    have "rcv_inv log' (concat (delivered l)) (l_rcv l)"
      using inv old rcv_inv_more by (auto simp: link_inv_def log'_def)
    moreover have "\<exists>segs. p = packet segs \<and> (\<forall>s \<in> set segs. genuine (conv (l_snd l)) log' s)" if "p \<in> set (wire l)" for p
      using inv old that genuine_more unfolding link_inv_def log'_def by blast
    ultimately show ?thesis
      using inv k new by (auto simp: link_inv_def link_sent_def log'_def [symmetric])
  next
    case False
    then show ?thesis using inv k by (auto simp: link_inv_def link_sent_def log'_def [symmetric])
  qed
qed

lemma concat_packets:
  "(\<forall>i \<in> set is. \<exists>segs. ps ! i = packet segs \<and> (\<forall>s \<in> set segs. P s)) \<Longrightarrow>
   \<exists>segs. concat (map (nth ps) is) = packet segs \<and> (\<forall>s \<in> set segs. P s)"
proof (induction "is")
  case Nil
  then show ?case by (intro exI [of _ "[]"]) simp
next
  case (Cons i "is")
  then obtain s1 s2 where "ps ! i = packet s1" "\<forall>s \<in> set s1. P s" "concat (map (nth ps) is) = packet s2" "\<forall>s \<in> set s2. P s"
    by auto
  then show ?case by (intro exI [of _ "s1 @ s2"]) auto
qed

lemma config_views:
  "snd_view (snd (ikcp_setmtu ok k m)) = snd_view k" "rcv_view (snd (ikcp_setmtu ok k m)) = rcv_view k"
  "conv (snd (ikcp_setmtu ok k m)) = conv k"
  "snd_view (snd (ikcp_nodelay k nd iv rs nc)) = snd_view k" "rcv_view (snd (ikcp_nodelay k nd iv rs nc)) = rcv_view k"
  "conv (snd (ikcp_nodelay k nd iv rs nc)) = conv k"
  "snd_view (snd (ikcp_wndsize k sw rw)) = snd_view k" "rcv_view (snd (ikcp_wndsize k sw rw)) = rcv_view k"
  "conv (snd (ikcp_wndsize k sw rw)) = conv k"
  "snd_view (snd (ikcp_interval k iv)) = snd_view k" "rcv_view (snd (ikcp_interval k iv)) = rcv_view k"
  "conv (snd (ikcp_interval k iv)) = conv k"
  "snd_view (ikcp_setoutput k cb) = snd_view k" "rcv_view (ikcp_setoutput k cb) = rcv_view k"
  "conv (ikcp_setoutput k cb) = conv k"
  by (simp_all add: snd_view_def rcv_view_def ikcp_setmtu_def ikcp_nodelay_def ikcp_wndsize_def ikcp_interval_def
      ikcp_setoutput_def Let_def)

lemma other_sender:
  assumes "api_step call k = Some k'" and "link_ok (Snd_other call)"
  shows "shrunk k k'"
proof (cases call)
  case (Call_recv b n)
  then show ?thesis using assms shrunk_recv by auto
next
  case (Call_input junk d n)
  then show ?thesis using assms shrunk_input by auto
qed (use assms in \<open>auto intro!: shrunk_same simp: config_views\<close>)

lemma other_receiver:
  assumes "api_step call k = Some k'" and "link_ok (Rcv_other call)" and wf: "kcp_wf k"
  shows "rcv_view k' = rcv_view k \<and> conv k' = conv k"
proof (cases call)
  case (Call_send junk b n)
  then show ?thesis using assms by (auto simp: rcv_view_def dest!: send_only)
next
  case Call_flush
  then obtain ps where "ikcp_flush k = Inr (k', ps)" using assms(1) by (auto split: sum.splits)
  then show ?thesis using flush_groups [OF wf] by blast
next
  case (Call_update now)
  then obtain ps where u: "ikcp_update k now = Inr (k', ps)" using assms(1) by (auto split: sum.splits)
  then show ?thesis
  proof (cases rule: update_cases)
    case (1 u t)
    have "kcp_wf (k\<lparr>current := now, updated := u, ts_flush := t\<rparr>)" using wf by (simp add: kcp_wf_defs)
    from flush_groups [OF this 1] show ?thesis by (auto simp: rcv_view_def)
  next
    case (2 u t)
    then show ?thesis by (simp add: rcv_view_def)
  qed
qed (use assms in \<open>auto simp: config_views\<close>)


text \<open>A refused receive hands over nothing.\<close>

lemma recv_failed:
  assumes "ikcp_recv k b len = Some (r, out, k')" and "r < 0"
  shows "out = []"
  using assms by (auto simp: ikcp_recv_def Let_def split: if_splits prod.splits)

interpretation transfer: safe_steps link_step link_ok link_inv
proof unfold_locales
  fix l a l'
  assume inv: "link_inv l" and ok: "link_ok a" and step: "link_step a l = Some l'"
  have wf: "kcp_wf (l_snd l)" "kcp_wf (l_rcv l)" and cv: "conv (l_rcv l) = conv (l_snd l)"
    using inv by (simp_all add: link_inv_def)
  show "link_inv l'"
  proof (cases a)
    case (Snd_send junk b)
    then obtain r k where s: "ikcp_send junk (l_snd l) (Some b) (int (length b)) = Some (r, k)"
      and l': "l' = l\<lparr>l_snd := k, accepted := accepted l @ take (nat r) b\<rparr>" using step by auto
    have b: "length b < 2147483648" using ok Snd_send by simp
    have "kcp_wf k" using b by (intro send_wf [OF wf(1) _ _ s]) (simp_all add: valid_buf_def)
    moreover have "conv k = conv (l_snd l)" using send_only [OF s] by auto
    ultimately show ?thesis using inv snd_inv_send [OF _ wf(1) b s] by (auto simp: link_inv_def l')
  next
    case Snd_flush
    then obtain k ps where f: "ikcp_flush (l_snd l) = Inr (k, ps)" "l' = link_sent l k ps"
      using step by (auto split: sum.splits)
    show ?thesis unfolding f(2) by (rule link_inv_sent [OF inv f(1) wf(1)]) simp_all
  next
    case (Snd_update now)
    then obtain k ps where u: "ikcp_update (l_snd l) now = Inr (k, ps)" and l': "l' = link_sent l k ps"
      using step by (auto split: sum.splits)
    from u show ?thesis
    proof (cases rule: update_cases)
      case (1 u t)
      have "kcp_wf (l_snd l\<lparr>current := now, updated := u, ts_flush := t\<rparr>)" using wf(1) by (simp add: kcp_wf_defs)
      then show ?thesis unfolding l' by (rule link_inv_sent [OF inv 1]) (simp_all add: snd_inv_current)
    next
      case (2 u t)
      then have "kcp_wf k" using wf(1) by (simp add: kcp_wf_defs)
      then show ?thesis using inv 2 by (auto simp: link_inv_def l' link_sent_def snd_inv_current)
    qed
  next
    case (Snd_other call)
    then obtain k where s: "api_step call (l_snd l) = Some k" and l': "l' = l\<lparr>l_snd := k\<rparr>" using step by auto
    have "shrunk (l_snd l) k" using other_sender [OF s] ok Snd_other by simp
    moreover have "kcp_wf k" using api.step_safe [OF wf(1) _ s] ok Snd_other by simp
    ultimately show ?thesis using inv snd_inv_shrunk by (auto simp: link_inv_def l' shrunk_def)
  next
    case (Rcv_input junk "is" rest)
    show ?thesis
    proof (cases "list_all (\<lambda>i. i < length (wire l)) is")
      case False
      then show ?thesis using step inv Rcv_input by simp
    next
      case True
      define d where "d = concat (map (nth (wire l)) is)"
      obtain r k where i: "ikcp_input junk (l_rcv l) (Some (d @ rest)) (int (length d)) = Some (r, k)"
        and l': "l' = l\<lparr>l_rcv := k\<rparr>" using step True Rcv_input by (auto simp: d_def Let_def)
      have k: "kcp_wf k" by (rule input_keeps_wf [OF wf(2) i])
      show ?thesis
      proof (cases "length (seg_log l) < 4294967296")
        case small: True
        then obtain segs where d: "d = packet segs" and g: "\<forall>s \<in> set segs. genuine (conv (l_rcv l)) (seg_log l) s"
          using inv True concat_packets [of "is" "wire l" "genuine (conv (l_rcv l)) (seg_log l)"]
          unfolding d_def by (fastforce simp: link_inv_def list_all_iff)
        have "rcv_inv (seg_log l) (concat (delivered l)) (l_rcv l)" using inv small by (simp add: link_inv_def)
        from rcv_inv_input [OF i [unfolded d] this small g] inv k show ?thesis by (simp add: link_inv_def l')
      next
        case big: False
        have "conv k = conv (l_rcv l)" using shrunk_input [OF i] by (simp add: shrunk_def)
        then show ?thesis using inv k big by (simp add: link_inv_def l')
      qed
    qed
  next
    case (Rcv_recv len)
    then obtain r out k where c: "ikcp_recv (l_rcv l) True len = Some (r, out, k)"
      and l': "l' = l\<lparr>l_rcv := k, delivered := delivered l @ (if len < 0 \<or> r < 0 then [] else [out])\<rparr>" using step by auto
    have k: "kcp_wf k" "conv k = conv (l_snd l)"
      using recv_wf [OF wf(2) c] shrunk_recv [OF c] cv by (simp_all add: shrunk_def)
    have "r < 0 \<Longrightarrow> out = []" using c by (rule recv_failed)
    then have "concat (delivered l') = (if len < 0 then concat (delivered l) else concat (delivered l) @ out)"
      by (auto simp: l')
    moreover have "rcv_inv (seg_log l) (if len < 0 then concat (delivered l) else concat (delivered l) @ out) k"
      if "length (seg_log l) < 4294967296"
      using rcv_inv_recv [OF c _ that wf(2)] inv that by (simp only: link_inv_def)
    ultimately show ?thesis using inv k by (simp add: link_inv_def l')
  next
    case (Rcv_other call)
    then obtain k where s: "api_step call (l_rcv l) = Some k" and l': "l' = l\<lparr>l_rcv := k\<rparr>" using step by auto
    have "rcv_view k = rcv_view (l_rcv l)" "conv k = conv (l_rcv l)" using other_receiver [OF s _ wf(2)] ok Rcv_other by simp_all
    moreover have "kcp_wf k" using api.step_safe [OF wf(2) _ s] ok Rcv_other by simp
    ultimately show ?thesis using inv rcv_inv_view [of k "l_rcv l"] by (simp add: link_inv_def l')
  qed
qed


lemma link_start_inv:
  assumes "ikcp_create True True c = Some s" and "ikcp_create True True c = Some r"
  shows "link_inv (link_start s r)"
proof -
  have "snd_nxt s = 0" "snd_buf s = []" "snd_queue s = []" "rcv_nxt r = 0" "rcv_queue r = []" "rcv_buf r = []"
    "conv s = c" "conv r = c"
    using assms by (auto simp: ikcp_create_def)
  then show ?thesis
    using create_wf [OF assms(1)] create_wf [OF assms(2)]
    by (simp add: link_inv_def link_start_def snd_inv_def rcv_inv_def)
qed

lemma transfer_prefix:
  assumes "ikcp_create True True c = Some s" and "ikcp_create True True c = Some r"
    and "list_all link_ok acts" and "run_steps link_step acts (link_start s r) = Some l"
    and "length (seg_log l) < 4294967296"
  shows "\<exists>rest. accepted l = concat (delivered l) @ rest"
proof -
  have inv: "link_inv l" using transfer.run_safe [OF link_start_inv [OF assms(1,2)] assms(3,4)] .
  then have "snd_inv (seg_log l) (accepted l) (l_snd l)" "rcv_inv (seg_log l) (concat (delivered l)) (l_rcv l)"
    using assms(5) by (simp_all add: link_inv_def)
  then obtain rest where "concat (seg_log l) = concat (delivered l) @ rest" using rcv_inv_prefix by blast
  then have "accepted l = concat (delivered l) @ rest @ concat (map seg_data (snd_queue (l_snd l)))"
    using \<open>snd_inv _ _ _\<close> by (simp add: snd_inv_def)
  then show ?thesis by blast
qed

text \<open>
  C1: Reliable transfer. Two control blocks of one conversation start empty; the sender sends, flushes
  and updates, receives arbitrary bytes and is reconfigured; the receiver receives the sender's
  datagrams lost, repeated, reordered and joined in any way, receives messages, sends and is
  reconfigured; all in any order. Then what the receiver's upper level has been handed is always a
  prefix of what the sender's upper level had accepted: no byte is lost in between, repeated,
  altered or out of order. The bound says that fewer than \<open>2 ^ 32\<close> segments have been numbered.
\<close>

theorem reliable_transfer:
  assumes "ikcp_create True True c = Some s" and "ikcp_create True True c = Some r"
    and "list_all link_ok acts" and "run_steps link_step acts (link_start s r) = Some l"
    and "length (seg_log l) < 4294967296"
  shows "\<exists>rest. accepted l = concat (delivered l) @ rest"
  by (rule transfer_prefix [OF assms])

text \<open>A run in which a message arrives: configuration, a send, two updates, an input and a receive.\<close>

definition exchange :: "link_act list" where
  "exchange = [Snd_other (Call_setoutput True), Snd_send (\<lambda>_. seg0) [1, 2, 3], Snd_update 0, Snd_update 200,
     Rcv_input (\<lambda>_. seg0) [0] [], Rcv_recv 10]"

lemma exchange_runs:
  "map_option (\<lambda>l. (accepted l, delivered l, length (seg_log l))) (run_steps link_step exchange (link_start kcp0 kcp0)) =
     Some ([1, 2, 3], [[1, 2, 3]], 1)"
  unfolding exchange_def
  by (code_simp, simp add: ikcp_input_loop.simps ikcp_ack_newblock.simps ikcp_input_seg_def ikcp_input_push_def
      ikcp_parse_una_def ikcp_shrink_buf_def ikcp_ack_push_def ikcp_input_newseg_def ikcp_segment_new_def
      ikcp_parse_data_def ikcp_move_ready.simps itimediff_def memcpy_at_def ikcp_input_cwnd_def ikcp_recv_def
      ikcp_peeksize_def s32_def to_u32_def kcp_defs seg0_def Let_def)

theorem reliable_transfer_witness:
  "\<exists>l rest. run_steps link_step exchange (link_start kcp0 kcp0) = Some l \<and> delivered l = [[1, 2, 3]] \<and>
     accepted l = concat (delivered l) @ rest"
proof -
  obtain l where l: "run_steps link_step exchange (link_start kcp0 kcp0) = Some l" "delivered l = [[1, 2, 3]]"
    "length (seg_log l) = 1"
    using exchange_runs by (cases "run_steps link_step exchange (link_start kcp0 kcp0)") auto
  have "list_all link_ok exchange" by (simp add: exchange_def)
  from reliable_transfer [OF kcp0_create kcp0_create this l(1)] l show ?thesis by auto
qed

end
