(* ===== verification/Kcp_Queue.thy ===== *)
theory Kcp_Queue
  imports Kcp_Prelude
begin

text \<open>
  The intrusive queues of \<^verbatim>\<open>ikcp.h\<close>: nodes linked in a ring through their \<^verbatim>\<open>next\<close> and \<^verbatim>\<open>prev\<close> fields. The
  heap is a pair of functions from addresses to addresses, 0 is the null pointer, and each macro is the
  sequence of its assignments. The rest of the development works with lists; the predicate \<open>iqueue\<close>
  relates a ring to the list of its nodes, and the locale \<open>ring\<close> is the interface that the loops of
  \<^verbatim>\<open>ikcp.cc\<close> rely on.
\<close>

section \<open>The macros\<close>

type_synonym addr = nat

record qheap =
  nxt :: "addr \<Rightarrow> addr"
  prv :: "addr \<Rightarrow> addr"

definition set_nxt :: "addr \<Rightarrow> addr \<Rightarrow> qheap \<Rightarrow> qheap" where
  "set_nxt p v q = q\<lparr>nxt := (nxt q)(p := v)\<rparr>"

definition set_prv :: "addr \<Rightarrow> addr \<Rightarrow> qheap \<Rightarrow> qheap" where
  "set_prv p v q = q\<lparr>prv := (prv q)(p := v)\<rparr>"

definition iqueue_init :: "qheap \<Rightarrow> addr \<Rightarrow> qheap" where
  "iqueue_init q p = (let q = set_nxt p p q in set_prv p p q)"

definition iqueue_add :: "qheap \<Rightarrow> addr \<Rightarrow> addr \<Rightarrow> qheap" where
  "iqueue_add q node h =
     (let q = set_prv node h q;
          q = set_nxt node (nxt q h) q;
          q = set_prv (nxt q h) node q
      in set_nxt h node q)"

definition iqueue_add_tail :: "qheap \<Rightarrow> addr \<Rightarrow> addr \<Rightarrow> qheap" where
  "iqueue_add_tail q node h =
     (let q = set_prv node (prv q h) q;
          q = set_nxt node h q;
          q = set_nxt (prv q h) node q
      in set_prv h node q)"

definition iqueue_del :: "qheap \<Rightarrow> addr \<Rightarrow> qheap" where
  "iqueue_del q entry =
     (let q = set_prv (nxt q entry) (prv q entry) q;
          q = set_nxt (prv q entry) (nxt q entry) q;
          q = set_nxt entry 0 q
      in set_prv entry 0 q)"

definition iqueue_del_init :: "qheap \<Rightarrow> addr \<Rightarrow> qheap" where
  "iqueue_del_init q entry = iqueue_init (iqueue_del q entry) entry"

definition iqueue_is_empty :: "qheap \<Rightarrow> addr \<Rightarrow> bool" where
  "iqueue_is_empty q entry \<longleftrightarrow> entry = nxt q entry"

definition splice_nonempty :: "qheap \<Rightarrow> addr \<Rightarrow> addr \<Rightarrow> qheap" where
  "splice_nonempty q l h =
     (let first = nxt q l; last = prv q l; at = nxt q h;
          q = set_prv first h q;
          q = set_nxt h first q;
          q = set_nxt last at q
      in set_prv at last q)"

definition iqueue_splice :: "qheap \<Rightarrow> addr \<Rightarrow> addr \<Rightarrow> qheap" where
  "iqueue_splice q l h = (if \<not> iqueue_is_empty q l then splice_nonempty q l h else q)"

definition iqueue_splice_init :: "qheap \<Rightarrow> addr \<Rightarrow> addr \<Rightarrow> qheap" where
  "iqueue_splice_init q l h = (let q = iqueue_splice q l h in iqueue_init q l)"

text \<open>The loop \<^verbatim>\<open>iqueue_foreach_entry\<close>, which collects the nodes it visits; on a broken ring it need not end.\<close>

partial_function (option) iqueue_foreach :: "qheap \<Rightarrow> addr \<Rightarrow> addr \<Rightarrow> addr list option" where
  "iqueue_foreach q h pos =
     (if pos \<noteq> h
      then do { ps \<leftarrow> iqueue_foreach q h (nxt q pos); Some (pos # ps) }
      else Some [])"

section \<open>Rings and lists\<close>

fun links :: "qheap \<Rightarrow> addr list \<Rightarrow> bool" where
  "links q (x # y # zs) \<longleftrightarrow> nxt q x = y \<and> prv q y = x \<and> links q (y # zs)"
| "links q _ \<longleftrightarrow> True"

definition iqueue :: "qheap \<Rightarrow> addr \<Rightarrow> addr list \<Rightarrow> bool" where
  "iqueue q h xs \<longleftrightarrow> links q (h # xs @ [h]) \<and> distinct (h # xs) \<and> 0 \<notin> set (h # xs)"

lemma links_append: "links q (us @ p # vs) \<longleftrightarrow> links q (us @ [p]) \<and> links q (p # vs)"
proof (induction us)
  case Nil
  then show ?case by simp
next
  case (Cons u us)
  then show ?case by (cases us) auto
qed

lemma links_cong:
  "\<forall>x \<in> set (butlast xs). nxt q' x = nxt q x \<Longrightarrow> \<forall>x \<in> set (tl xs). prv q' x = prv q x \<Longrightarrow> links q' xs = links q xs"
proof (induction xs)
  case (Cons x xs)
  then show ?case by (cases xs) auto
qed simp

lemma heap_simps [simp]:
  "nxt (set_nxt p v q) = (nxt q)(p := v)" "prv (set_nxt p v q) = prv q"
  "nxt (set_prv p v q) = nxt q" "prv (set_prv p v q) = (prv q)(p := v)"
  by (simp_all add: set_nxt_def set_prv_def)

text \<open>A ring looked at around one node, or between two neighbours.\<close>

lemma iqueue_around:
  assumes "iqueue q h (xs @ n # ys)"
  obtains us p s vs where "h # xs = us @ [p]" and "ys @ [h] = s # vs" and "prv q n = p" and "nxt q n = s"
    and "links q (us @ [p])" and "links q (s # vs)" and "h # (xs @ n # ys) @ [h] = us @ p # n # s # vs"
proof -
  obtain us p where u: "h # xs = us @ [p]" by (metis append_butlast_last_id list.distinct(1))
  obtain s vs where v: "ys @ [h] = s # vs" by (cases ys) auto
  have "h # (xs @ n # ys) @ [h] = (h # xs) @ n # (ys @ [h])" by simp
  then have e: "h # (xs @ n # ys) @ [h] = us @ p # n # s # vs" unfolding u v by simp
  have "links q (us @ p # n # s # vs)" using assms unfolding e [symmetric] by (simp add: iqueue_def)
  then have "links q (us @ [p])" "nxt q p = n" "prv q n = p" "nxt q n = s" "links q (s # vs)"
    by (simp_all add: links_append [of q us p "n # s # vs"])
  then show thesis using u v e that by blast
qed

lemma iqueue_between:
  assumes "iqueue q h (xs @ ys)"
  obtains us p s vs where "h # xs = us @ [p]" and "ys @ [h] = s # vs" and "nxt q p = s" and "prv q s = p"
    and "links q (us @ [p])" and "links q (s # vs)"
proof -
  obtain us p where u: "h # xs = us @ [p]" by (metis append_butlast_last_id list.distinct(1))
  obtain s vs where v: "ys @ [h] = s # vs" by (cases ys) auto
  have "h # (xs @ ys) @ [h] = (h # xs) @ (ys @ [h])" by simp
  then have e: "h # (xs @ ys) @ [h] = us @ p # s # vs" unfolding u v by simp
  have "links q (us @ p # s # vs)" using assms unfolding e [symmetric] by (simp add: iqueue_def)
  then have "links q (us @ [p])" "nxt q p = s" "prv q s = p" "links q (s # vs)"
    by (simp_all add: links_append [of q us p "s # vs"])
  then show thesis using u v that by blast
qed

lemma linked_parts:
  assumes u: "h # xs = us @ [p]" and v: "ys @ [h] = s # vs" and d: "distinct (h # xs @ ys)"
    and l: "links q (us @ [p])" "links q (s # vs)"
    and q': "\<forall>x \<in> set (h # xs @ ys) - {p}. nxt q' x = nxt q x" "\<forall>x \<in> set (h # xs @ ys) - {s}. prv q' x = prv q x"
  shows "links q' (us @ [p]) \<and> links q' (s # vs)"
proof -
  have p: "p \<in> set (h # xs)" unfolding u by simp
  have s: "s \<in> set (ys @ [h])" unfolding v by simp
  have "links q' (us @ [p]) = links q (us @ [p])"
  proof (rule links_cong)
    have "distinct (us @ [p])" unfolding u [symmetric] using d by simp
    moreover have "set us \<subseteq> set (h # xs)" unfolding u by auto
    ultimately show "\<forall>x \<in> set (butlast (us @ [p])). nxt q' x = nxt q x" using q'(1) by auto
    have "set (tl (us @ [p])) = set xs" unfolding u [symmetric] by simp
    then show "\<forall>x \<in> set (tl (us @ [p])). prv q' x = prv q x" using q'(2) s d by auto
  qed
  moreover have "links q' (s # vs) = links q (s # vs)"
  proof (rule links_cong)
    have "set (butlast (s # vs)) = set ys" unfolding v [symmetric] by simp
    then show "\<forall>x \<in> set (butlast (s # vs)). nxt q' x = nxt q x" using q'(1) p d by auto
    have "distinct (s # vs)" unfolding v [symmetric] using d by auto
    moreover have "set vs \<subseteq> set (ys @ [h])" unfolding v by auto
    ultimately show "\<forall>x \<in> set (tl (s # vs)). prv q' x = prv q x" using q'(2) by auto
  qed
  ultimately show ?thesis using l by simp
qed

text \<open>Two neighbours joined, and a node put between two neighbours.\<close>

lemma linked_up:
  assumes u: "h # xs = us @ [p]" and v: "ys @ [h] = s # vs" and d: "distinct (h # xs @ ys)" "0 \<notin> set (h # xs @ ys)"
    and l: "links q (us @ [p])" "links q (s # vs)"
    and q': "\<forall>x \<in> set (h # xs @ ys) - {p}. nxt q' x = nxt q x" "\<forall>x \<in> set (h # xs @ ys) - {s}. prv q' x = prv q x"
    and j: "nxt q' p = s" "prv q' s = p"
  shows "iqueue q' h (xs @ ys)"
proof -
  have "h # (xs @ ys) @ [h] = (h # xs) @ (ys @ [h])" by simp
  then have "h # (xs @ ys) @ [h] = us @ p # s # vs" unfolding u v by simp
  then show ?thesis
    using linked_parts [OF u v d(1) l q'] j d by (simp add: iqueue_def links_append [of q' us p "s # vs"])
qed

lemma linked_between:
  assumes u: "h # xs = us @ [p]" and v: "ys @ [h] = s # vs" and d: "distinct (h # xs @ ys)" "0 \<notin> set (h # xs @ ys)"
    and n: "n \<notin> set (h # xs @ ys)" "n \<noteq> 0"
    and l: "links q (us @ [p])" "links q (s # vs)"
    and q': "\<forall>x \<in> set (h # xs @ ys) - {p}. nxt q' x = nxt q x" "\<forall>x \<in> set (h # xs @ ys) - {s}. prv q' x = prv q x"
    and j: "nxt q' p = n" "prv q' n = p" "nxt q' n = s" "prv q' s = n"
  shows "iqueue q' h (xs @ n # ys)"
proof -
  have "h # (xs @ n # ys) @ [h] = (h # xs) @ n # (ys @ [h])" by simp
  then have "h # (xs @ n # ys) @ [h] = us @ p # n # s # vs" unfolding u v by simp
  then show ?thesis
    using linked_parts [OF u v d(1) l q'] j d n by (simp add: iqueue_def links_append [of q' us p "n # s # vs"])
qed

lemma iqueue_init: "h \<noteq> 0 \<Longrightarrow> iqueue (iqueue_init q h) h []"
  by (simp add: iqueue_init_def iqueue_def Let_def)

lemma iqueue_distinct: "iqueue q h xs \<Longrightarrow> distinct (h # xs) \<and> 0 \<notin> set (h # xs)"
  by (simp add: iqueue_def)

lemma iqueue_del:
  assumes "iqueue q h (xs @ n # ys)"
  shows "iqueue (iqueue_del q n) h (xs @ ys) \<and> nxt (iqueue_del q n) n = 0 \<and> prv (iqueue_del q n) n = 0"
proof -
  obtain us p s vs where *: "h # xs = us @ [p]" "ys @ [h] = s # vs" "prv q n = p" "nxt q n = s"
    "links q (us @ [p])" "links q (s # vs)"
    using iqueue_around [OF assms] by metis
  have d: "distinct (h # xs @ n # ys)" "0 \<notin> set (h # xs @ n # ys)" using assms by (simp_all add: iqueue_def)
  have "p \<in> set (h # xs)" "s \<in> set (ys @ [h])" unfolding * by simp_all
  then have ps: "p \<noteq> n" "s \<noteq> n" using d by auto
  have "iqueue (iqueue_del q n) h (xs @ ys)"
    by (rule linked_up [OF *(1,2) _ _ *(5,6)])
       (use d ps in \<open>auto simp: iqueue_del_def Let_def *(3,4)\<close>)
  then show ?thesis using ps by (simp add: iqueue_del_def Let_def *(3,4))
qed

lemma iqueue_add_after:
  assumes "iqueue q h (xs @ ys)" and "n \<notin> set (h # xs @ ys)" and "n \<noteq> 0" and "p = last (h # xs)"
  shows "iqueue (iqueue_add q n p) h (xs @ n # ys)"
proof -
  obtain us p' s vs where *: "h # xs = us @ [p']" "ys @ [h] = s # vs" "nxt q p' = s" "prv q s = p'"
    "links q (us @ [p'])" "links q (s # vs)"
    using iqueue_between [OF assms(1)] by metis
  have p: "p' = p" unfolding assms(4) *(1) by simp
  have d: "distinct (h # xs @ ys)" "0 \<notin> set (h # xs @ ys)" using assms by (simp_all add: iqueue_def)
  have "p \<in> set (h # xs)" "s \<in> set (ys @ [h])" unfolding * p [symmetric] by simp_all
  then have ps: "p \<noteq> n" "s \<noteq> n" using assms(2) by auto
  show ?thesis
    by (rule linked_between [OF *(1,2) d assms(2,3) *(5,6)])
       (use assms(2) ps in \<open>auto simp: iqueue_add_def Let_def *(3) p *(3) [unfolded p]\<close>)
qed

lemma iqueue_add_tail:
  assumes "iqueue q h xs" and "n \<notin> set (h # xs)" and "n \<noteq> 0"
  shows "iqueue (iqueue_add_tail q n h) h (xs @ [n])"
proof -
  have "iqueue q h (xs @ [])" using assms(1) by simp
  then obtain us p s vs where *: "h # xs = us @ [p]" "[] @ [h] = s # vs" "nxt q p = s" "prv q s = p"
    "links q (us @ [p])" "links q (s # vs)"
    by (rule iqueue_between)
  have s: "s = h" "vs = []" using *(2) by simp_all
  have d: "distinct (h # xs @ [])" "0 \<notin> set (h # xs @ [])" "n \<notin> set (h # xs @ [])" using assms by (simp_all add: iqueue_def)
  have "p \<in> set (h # xs)" unfolding * by simp
  then have ps: "p \<noteq> n" "h \<noteq> n" using assms(2) by auto
  show ?thesis
    by (rule linked_between [OF *(1,2) d assms(3) *(5,6)])
       (use assms(2) ps in \<open>auto simp: iqueue_add_tail_def Let_def *(4) [unfolded s] s\<close>)
qed

lemma iqueue_empty: "iqueue q h xs \<Longrightarrow> iqueue_is_empty q h \<longleftrightarrow> xs = []"
  by (cases xs) (auto simp: iqueue_is_empty_def iqueue_def)

lemma iqueue_front:
  assumes "iqueue q h xs"
  shows "nxt q h = hd (xs @ [h]) \<and> prv q h = last (h # xs)"
proof
  have "links q (h # xs @ [h])" using assms by (simp add: iqueue_def)
  then show "nxt q h = hd (xs @ [h])" by (cases xs) simp_all
  have "iqueue q h (xs @ [])" using assms by simp
  then obtain us p s vs where "h # xs = us @ [p]" "[] @ [h] = s # vs" "prv q s = p"
    by (rule iqueue_between)
  then show "prv q h = last (h # xs)" by simp
qed

text \<open>The neighbours of a node, which the loops step to.\<close>

lemma iqueue_neighbours:
  assumes "iqueue q h (xs @ n # ys)"
  shows "nxt q n = hd (ys @ [h]) \<and> prv q n = last (h # xs)"
proof -
  obtain us p s vs where *: "h # xs = us @ [p]" "ys @ [h] = s # vs" "prv q n = p" "nxt q n = s"
    using iqueue_around [OF assms] by metis
  show ?thesis unfolding * by simp
qed

text \<open>An operation on one ring leaves the others alone.\<close>

lemma iqueue_frame:
  assumes "iqueue q h xs" and "\<forall>x \<in> set (h # xs). nxt q' x = nxt q x \<and> prv q' x = prv q x"
  shows "iqueue q' h xs"
proof -
  have "set (butlast (h # xs @ [h])) \<subseteq> set (h # xs)" by (simp add: butlast_append)
  then have "links q' (h # xs @ [h]) = links q (h # xs @ [h])"
    using assms(2) by (intro links_cong) auto
  then show ?thesis using assms(1) by (simp add: iqueue_def)
qed

lemma last_mem: "last (h # xs) \<in> set (h # xs)"
  by (rule last_in_set) simp

lemma del_frame:
  assumes "iqueue q h (xs @ n # ys)" and "x \<notin> set (h # xs @ n # ys)"
  shows "nxt (iqueue_del q n) x = nxt q x \<and> prv (iqueue_del q n) x = prv q x"
proof -
  have "nxt q n = hd (ys @ [h])" "prv q n = last (h # xs)" using iqueue_neighbours [OF assms(1)] by simp_all
  then have "nxt q n \<in> set (ys @ [h])" "prv q n \<in> set (h # xs)" using last_mem [of h xs] by (cases ys; simp)+
  moreover have "set (ys @ [h]) \<subseteq> set (h # xs @ n # ys)" "set (h # xs) \<subseteq> set (h # xs @ n # ys)" "n \<in> set (h # xs @ n # ys)"
    by auto
  moreover have "n \<noteq> last (h # xs)" using assms(1) by (auto simp: iqueue_def)
  ultimately show ?thesis using assms(2) by (auto simp: iqueue_del_def Let_def)
qed

lemma add_tail_frame:
  assumes "iqueue q h xs" and "n \<notin> set (h # xs)" and "x \<notin> set (h # xs)" and "x \<noteq> n"
  shows "nxt (iqueue_add_tail q n h) x = nxt q x \<and> prv (iqueue_add_tail q n h) x = prv q x"
proof -
  have p: "prv q h = last (h # xs)" using iqueue_front [OF assms(1)] by simp
  then have "prv q h \<in> set (h # xs)" using last_mem [of h xs] by simp
  then show ?thesis using assms by (auto simp: iqueue_add_tail_def Let_def)
qed

lemma add_frame:
  assumes "iqueue q h (xs @ ys)" and "n \<notin> set (h # xs @ ys)" and "p = last (h # xs)" and "x \<notin> set (h # xs @ ys)" and "x \<noteq> n"
  shows "nxt (iqueue_add q n p) x = nxt q x \<and> prv (iqueue_add q n p) x = prv q x"
proof -
  obtain us p' s vs where *: "h # xs = us @ [p']" "ys @ [h] = s # vs" "nxt q p' = s"
    using iqueue_between [OF assms(1)] by metis
  have p: "p' = p" unfolding assms(3) *(1) by simp
  have "p \<in> set (h # xs)" "s \<in> set (ys @ [h])" unfolding * p [symmetric] by simp_all
  then show ?thesis using assms *(3) p by (auto simp: iqueue_add_def Let_def)
qed

lemma iqueue_foreach:
  assumes "iqueue q h (xs @ ys)"
  shows "iqueue_foreach q h (hd (ys @ [h])) = Some ys"
  using assms
proof (induction ys arbitrary: xs)
  case Nil
  then show ?case by (subst iqueue_foreach.simps) simp
next
  case (Cons y ys)
  have "nxt q y = hd (ys @ [h])" using iqueue_neighbours [OF Cons.prems] by simp
  moreover have "y \<noteq> h" using Cons.prems by (auto simp: iqueue_def)
  moreover have "iqueue_foreach q h (hd (ys @ [h])) = Some ys" using Cons.IH [of "xs @ [y]"] Cons.prems by simp
  ultimately show ?case by (subst iqueue_foreach.simps) simp
qed

text \<open>Splicing a ring into another one.\<close>

lemma splice_nonempty:
  assumes l: "iqueue q l xs" and h: "iqueue q h ys" and d: "set (l # xs) \<inter> set (h # ys) = {}"
    and x: "xs = x # xs'" and z: "xs = us @ [z]"
  shows "iqueue (splice_nonempty q l h) h (xs @ ys)"
proof -
  obtain a vs where a: "ys @ [h] = a # vs" by (cases ys) auto
  let ?q = "splice_nonempty q l h"
  have last: "last (l # xs) = z" unfolding z by simp
  have hds: "hd (xs @ [l]) = x" "hd (ys @ [h]) = a" unfolding x a by simp_all
  have "nxt q l = x" "prv q l = z" "nxt q h = a"
    using iqueue_front [OF l] iqueue_front [OF h] last hds by simp_all
  then have q: "nxt ?q = (nxt q)(h := x, z := a)" "prv ?q = (prv q)(x := h, a := z)"
    by (simp_all add: splice_nonempty_def Let_def)
  have zx: "z \<in> set xs" unfolding z by simp
  have xx: "x \<in> set xs" unfolding x by simp
  have ay: "a \<in> set (ys @ [h])" unfolding a by simp
  have dist: "distinct xs" "distinct (ys @ [h])" "0 \<notin> set (h # xs @ ys)" "set xs \<inter> set (h # ys) = {}"
    using l h d by (auto simp: iqueue_def)
  have 1: "links q (us @ [z])"
  proof -
    have "links q ((l # us) @ z # [l])" using l by (simp add: iqueue_def z)
    then have "links q ((l # us) @ [z])" by (simp only: links_append [of q "l # us" z "[l]"])
    then show ?thesis by (cases us) simp_all
  qed
  have 2: "links q (a # vs)"
  proof -
    have "links q (h # ys @ [h])" using h by (simp add: iqueue_def)
    then show ?thesis unfolding a by simp
  qed
  have 3: "links ?q (us @ [z]) = links q (us @ [z])"
  proof (rule links_cong)
    have "distinct (us @ [z])" using dist(1) unfolding z .
    moreover have "set us \<subseteq> set xs" unfolding z by auto
    ultimately show "\<forall>u \<in> set (butlast (us @ [z])). nxt ?q u = nxt q u" using dist(4) by (auto simp: q)
    have "tl (us @ [z]) = xs'" using x z by simp
    then show "\<forall>u \<in> set (tl (us @ [z])). prv ?q u = prv q u" using dist ay x by (auto simp: q)
  qed
  have 4: "links ?q (a # vs) = links q (a # vs)"
  proof (rule links_cong)
    have "set (butlast (a # vs)) = set ys" unfolding a [symmetric] by simp
    then show "\<forall>u \<in> set (butlast (a # vs)). nxt ?q u = nxt q u" using dist zx by (auto simp: q)
    have "distinct (a # vs)" using dist(2) unfolding a .
    moreover have "set vs \<subseteq> set (ys @ [h])" unfolding a by auto
    ultimately show "\<forall>u \<in> set (tl (a # vs)). prv ?q u = prv q u" using dist xx by (auto simp: q)
  qed
  have "links ?q (h # us @ [z])"
    using 1 3 q zx xx ay dist x z by (cases us) auto
  moreover have "nxt ?q z = a" "prv ?q a = z" by (simp_all add: q)
  moreover have "h # (xs @ ys) @ [h] = (h # us) @ z # a # vs" unfolding z using a by simp
  ultimately have "links ?q (h # (xs @ ys) @ [h])"
    using 2 4 links_append [of ?q "h # us" z "a # vs"] by simp
  then show ?thesis using dist h by (auto simp: iqueue_def)
qed

lemma iqueue_splice_init:
  assumes l: "iqueue q l xs" and h: "iqueue q h ys" and d: "set (l # xs) \<inter> set (h # ys) = {}"
  shows "iqueue (iqueue_splice_init q l h) h (xs @ ys) \<and> iqueue (iqueue_splice_init q l h) l []"
proof -
  have s: "iqueue (iqueue_splice q l h) h (xs @ ys)"
  proof (cases "xs = []")
    case True
    then show ?thesis using h iqueue_empty [OF l] by (simp add: iqueue_splice_def)
  next
    case False
    then obtain x xs' us z where xs: "xs = x # xs'" "xs = us @ [z]" by (metis append_butlast_last_id list.exhaust)
    have "iqueue (splice_nonempty q l h) h (xs @ ys)" using xs by (rule splice_nonempty [OF l h d])
    then show ?thesis using iqueue_empty [OF l] False by (simp add: iqueue_splice_def)
  qed
  moreover have "l \<noteq> 0" "l \<notin> set (h # xs @ ys)" using l d by (auto simp: iqueue_def)
  ultimately show ?thesis
    using iqueue_init [of l]
    by (auto simp: iqueue_splice_init_def Let_def iqueue_init_def intro!: iqueue_frame [OF s])
qed

section \<open>The interface\<close>

text \<open>
  What the loops of the protocol rely on: rings are lists of nodes, a node can be taken out of a ring and put
  at the tail or behind another node, and the other rings do not notice.
\<close>

locale ring =
  fixes is_ring :: "'h \<Rightarrow> addr \<Rightarrow> addr list \<Rightarrow> bool"
    and take_out :: "'h \<Rightarrow> addr \<Rightarrow> 'h"
    and put_tail :: "'h \<Rightarrow> addr \<Rightarrow> addr \<Rightarrow> 'h"
    and put_after :: "'h \<Rightarrow> addr \<Rightarrow> addr \<Rightarrow> 'h"
  assumes nodes: "is_ring q h xs \<Longrightarrow> distinct (h # xs)"
    and taken: "is_ring q h (xs @ n # ys) \<Longrightarrow> is_ring (take_out q n) h (xs @ ys)"
    and put: "is_ring q h xs \<Longrightarrow> n \<notin> set (h # xs) \<Longrightarrow> n \<noteq> 0 \<Longrightarrow> is_ring (put_tail q n h) h (xs @ [n])"
    and inserted: "is_ring q h (xs @ ys) \<Longrightarrow> n \<notin> set (h # xs @ ys) \<Longrightarrow> n \<noteq> 0 \<Longrightarrow>
      is_ring (put_after q n (last (h # xs))) h (xs @ n # ys)"
    and taken_frame: "is_ring q h (xs @ n # ys) \<Longrightarrow> is_ring q g zs \<Longrightarrow> set (g # zs) \<inter> set (h # xs @ n # ys) = {} \<Longrightarrow>
      is_ring (take_out q n) g zs"
    and put_frame: "is_ring q h xs \<Longrightarrow> n \<notin> set (h # xs) \<Longrightarrow> is_ring q g zs \<Longrightarrow>
      set (g # zs) \<inter> set (n # h # xs) = {} \<Longrightarrow> is_ring (put_tail q n h) g zs"
    and inserted_frame: "is_ring q h (xs @ ys) \<Longrightarrow> n \<notin> set (h # xs @ ys) \<Longrightarrow> is_ring q g zs \<Longrightarrow>
      set (g # zs) \<inter> set (n # h # xs @ ys) = {} \<Longrightarrow> is_ring (put_after q n (last (h # xs))) g zs"
begin

text \<open>Moving the first node of one ring to the tail of another.\<close>

lemma move_first:
  assumes b: "is_ring q b (n # ns)" and r: "is_ring q r ms" and d: "set (b # n # ns) \<inter> set (r # ms) = {}" and n: "n \<noteq> 0"
  shows "is_ring (put_tail (take_out q n) n r) b ns \<and> is_ring (put_tail (take_out q n) n r) r (ms @ [n])"
proof -
  have "is_ring (take_out q n) b ns" using taken [of q b "[]" n ns] b by simp
  moreover have "is_ring (take_out q n) r ms" using taken_frame [of q b "[]" n ns r ms] b r d by auto
  moreover have "n \<notin> set (r # ms)" "set (b # ns) \<inter> set (n # r # ms) = {}" using d nodes [OF b] by auto
  ultimately show ?thesis using put put_frame n by blast
qed

text \<open>Taking out the first nodes one after the other, as the release of a queue and the cumulative acknowledgement do.\<close>

lemma take_first_nodes:
  "is_ring q h (xs @ ys) \<Longrightarrow> is_ring (foldl take_out q xs) h ys"
proof (induction xs arbitrary: q)
  case Nil
  then show ?case by simp
next
  case (Cons x xs)
  have "is_ring (take_out q x) h (xs @ ys)" using taken [of q h "[]" x "xs @ ys"] Cons.prems by simp
  then show ?case using Cons.IH by simp
qed

end

interpretation rings: ring iqueue iqueue_del iqueue_add_tail iqueue_add
proof unfold_locales
  show "iqueue q h xs \<Longrightarrow> distinct (h # xs)" for q h xs by (simp add: iqueue_def)
  show "iqueue q h (xs @ n # ys) \<Longrightarrow> iqueue (iqueue_del q n) h (xs @ ys)" for q h xs n ys
    by (simp add: iqueue_del)
  show "iqueue q h xs \<Longrightarrow> n \<notin> set (h # xs) \<Longrightarrow> n \<noteq> 0 \<Longrightarrow> iqueue (iqueue_add_tail q n h) h (xs @ [n])" for q h xs n
    by (rule iqueue_add_tail)
  show "iqueue q h (xs @ ys) \<Longrightarrow> n \<notin> set (h # xs @ ys) \<Longrightarrow> n \<noteq> 0 \<Longrightarrow>
      iqueue (iqueue_add q n (last (h # xs))) h (xs @ n # ys)" for q h xs ys n
    by (rule iqueue_add_after) simp_all
  show "iqueue (iqueue_del q n) g zs" if "iqueue q h (xs @ n # ys)" "iqueue q g zs" "set (g # zs) \<inter> set (h # xs @ n # ys) = {}"
    for q h xs n ys g zs
    using that(3) del_frame [OF that(1)] by (intro iqueue_frame [OF that(2)]) blast
  show "iqueue (iqueue_add_tail q n h) g zs"
    if "iqueue q h xs" "n \<notin> set (h # xs)" "iqueue q g zs" "set (g # zs) \<inter> set (n # h # xs) = {}" for q h xs n g zs
    using that(4) add_tail_frame [OF that(1,2)] by (intro iqueue_frame [OF that(3)]) (metis disjoint_iff list.set_intros)
  show "iqueue (iqueue_add q n (last (h # xs))) g zs"
    if "iqueue q h (xs @ ys)" "n \<notin> set (h # xs @ ys)" "iqueue q g zs" "set (g # zs) \<inter> set (n # h # xs @ ys) = {}"
    for q h xs ys n g zs
    using that(4) add_frame [OF that(1,2) refl] by (intro iqueue_frame [OF that(3)]) (metis disjoint_iff list.set_intros)
qed

section \<open>The operations together\<close>

lemma iqueue_del_init:
  assumes "iqueue q h (xs @ n # ys)"
  shows "iqueue (iqueue_del_init q n) h (xs @ ys) \<and> iqueue (iqueue_del_init q n) n []"
proof -
  have "n \<notin> set (h # xs @ ys)" "n \<noteq> 0" using assms by (auto simp: iqueue_def)
  moreover have "iqueue (iqueue_del q n) h (xs @ ys)" using iqueue_del [OF assms] by simp
  ultimately show ?thesis
    using iqueue_init [of n "iqueue_del q n"]
    by (auto simp: iqueue_del_init_def iqueue_init_def Let_def intro!: iqueue_frame [of "iqueue_del q n"])
qed

lemma iqueue_add:
  "iqueue q h xs \<Longrightarrow> n \<notin> set (h # xs) \<Longrightarrow> n \<noteq> 0 \<Longrightarrow> iqueue (iqueue_add q n h) h (n # xs)"
  using iqueue_add_after [of q h "[]" xs n h] by simp

text \<open>
  The queue macros work on lists. On a ring that holds the nodes \<open>xs\<close>: emptiness is that of \<open>xs\<close>; the loop
  over the ring ends and visits \<open>xs\<close> in order; a new node is added at either end; any node is unlinked, its
  pointers cleared or made a ring of its own; and another ring is spliced in at the front and left empty.
\<close>

theorem queue_macros:
  assumes "iqueue q h xs"
  shows "(iqueue_is_empty q h \<longleftrightarrow> xs = []) \<and> iqueue_foreach q h (nxt q h) = Some xs \<and>
    (n \<notin> set (h # xs) \<and> n \<noteq> 0 \<longrightarrow> iqueue (iqueue_add q n h) h (n # xs) \<and> iqueue (iqueue_add_tail q n h) h (xs @ [n])) \<and>
    (xs = ys @ p # zs \<longrightarrow> iqueue (iqueue_del q p) h (ys @ zs) \<and> nxt (iqueue_del q p) p = 0 \<and> prv (iqueue_del q p) p = 0 \<and>
       iqueue (iqueue_del_init q p) h (ys @ zs) \<and> iqueue (iqueue_del_init q p) p []) \<and>
    (iqueue q l ws \<and> set (l # ws) \<inter> set (h # xs) = {} \<longrightarrow>
       iqueue (iqueue_splice_init q l h) h (ws @ xs) \<and> iqueue (iqueue_splice_init q l h) l [])"
proof -
  have "iqueue_foreach q h (nxt q h) = Some xs"
    using iqueue_foreach [of q h "[]" xs] iqueue_front [OF assms] assms by simp
  then show ?thesis
    using assms iqueue_empty [OF assms] iqueue_add [OF assms] iqueue_add_tail [OF assms] iqueue_del [of q h ys p zs]
      iqueue_del_init [of q h ys p zs] iqueue_splice_init [of q l ws h xs]
    by blast
qed

theorem queue_macros_witness:
  "let q = iqueue_add_tail (iqueue_init \<lparr>nxt = (\<lambda>_. 0), prv = (\<lambda>_. 0)\<rparr> 1) 2 1
   in iqueue_foreach q 1 (nxt q 1) = Some [2] \<and> iqueue (iqueue_add q 3 1) 1 [3, 2] \<and> iqueue (iqueue_del q 2) 1 []"
proof -
  let ?q = "iqueue_add_tail (iqueue_init \<lparr>nxt = (\<lambda>_. 0), prv = (\<lambda>_. 0)\<rparr> 1) 2 1"
  have "iqueue ?q 1 ([] @ [2])" by (intro iqueue_add_tail iqueue_init) simp_all
  then have "iqueue ?q 1 [2]" by simp
  from queue_macros [OF this, of 3 "[]" 2 "[]" 0 "[]"] show ?thesis by (simp add: Let_def)
qed

end
