(* ===== verification/Kcp_Pointers.thy ===== *)
theory Kcp_Pointers
  imports Kcp_Queue Kcp_Recv Kcp_Ack
begin

text \<open>
  Two routines of \<^verbatim>\<open>ikcp.cc\<close> on the linked queues themselves: the cumulative acknowledgement, which unlinks
  nodes while it walks, and the arrival of a segment, which walks backwards, links a node in and moves nodes
  to another ring. The segments are a function of the addresses; the list fields of the control block are not
  used here. The loops are partial functions, and the lemmas show that on rings they return and do what
  the list model does.
\<close>

section \<open>The routines\<close>

record kheap =
  k_heap :: qheap
  k_seg :: "addr \<Rightarrow> ikcpseg"

partial_function (option) una_walk :: "u32 \<Rightarrow> addr \<Rightarrow> kheap \<Rightarrow> addr \<Rightarrow> u32 \<Rightarrow> (kheap \<times> u32) option" where
  "una_walk una buf m p n =
     (if p \<noteq> buf then
        let seg = k_seg m p;
            next = nxt (k_heap m) p
        in if itimediff una (seg_sn seg) > 0
           then una_walk una buf (m\<lparr>k_heap := iqueue_del (k_heap m) p\<rparr>) next (n - 1)
           else Some (m, n)
      else Some (m, n))"

definition parse_una_ptr :: "u32 \<Rightarrow> addr \<Rightarrow> kheap \<Rightarrow> u32 \<Rightarrow> (kheap \<times> u32) option" where
  "parse_una_ptr una buf m n = una_walk una buf m (nxt (k_heap m) buf) n"

partial_function (option) scan_walk :: "u32 \<Rightarrow> addr \<Rightarrow> kheap \<Rightarrow> addr \<Rightarrow> (bool \<times> addr) option" where
  "scan_walk sn buf m p =
     (if p \<noteq> buf then
        let seg = k_seg m p;
            prev = prv (k_heap m) p
        in if seg_sn seg = sn then Some (True, p)
           else if itimediff sn (seg_sn seg) > 0 then Some (False, p)
           else scan_walk sn buf m prev
      else Some (False, p))"

partial_function (option) ready_walk :: "addr \<Rightarrow> addr \<Rightarrow> kheap \<Rightarrow> kcpcb \<Rightarrow> (kheap \<times> kcpcb) option" where
  "ready_walk buf que m k =
     (if \<not> iqueue_is_empty (k_heap m) buf then
        let p = nxt (k_heap m) buf;
            seg = k_seg m p
        in if seg_sn seg = rcv_nxt k \<and> nrcv_que k < rcv_wnd k then
             let h = iqueue_del (k_heap m) p;
                 k = k\<lparr>nrcv_buf := nrcv_buf k - 1\<rparr>;
                 h = iqueue_add_tail h p que;
                 k = k\<lparr>nrcv_que := nrcv_que k + 1\<rparr>;
                 k = k\<lparr>rcv_nxt := rcv_nxt k + 1\<rparr>
             in ready_walk buf que (m\<lparr>k_heap := h\<rparr>) k
           else Some (m, k)
      else Some (m, k))"

definition parse_data_ptr :: "addr \<Rightarrow> addr \<Rightarrow> kheap \<Rightarrow> kcpcb \<Rightarrow> addr \<Rightarrow> (kheap \<times> kcpcb) option" where
  "parse_data_ptr buf que m k newseg =
     (let sn = seg_sn (k_seg m newseg) in
      if itimediff sn (rcv_nxt k + rcv_wnd k) \<ge> 0 \<or> itimediff sn (rcv_nxt k) < 0 then Some (m, k)
      else do {
        (repeat, p) \<leftarrow> scan_walk sn buf m (prv (k_heap m) buf);
        let (m, k) =
          (if \<not> repeat
           then (m\<lparr>k_heap := iqueue_add (iqueue_init (k_heap m) newseg) newseg p\<rparr>, k\<lparr>nrcv_buf := nrcv_buf k + 1\<rparr>)
           else (m, k));
        ready_walk buf que m k
      })"

section \<open>They implement the list model\<close>

text \<open>Rings whose nodes carry the segments of a list.\<close>

definition holds_queue :: "kheap \<Rightarrow> addr \<Rightarrow> addr list \<Rightarrow> ikcpseg list \<Rightarrow> bool" where
  "holds_queue m h xs segs \<longleftrightarrow> iqueue (k_heap m) h xs \<and> map (k_seg m) xs = segs"

text \<open>Rings that share no node with the given ones are still there afterwards.\<close>

definition keeps_rings :: "addr set \<Rightarrow> kheap \<Rightarrow> kheap \<Rightarrow> bool" where
  "keeps_rings used m m' \<longleftrightarrow> k_seg m' = k_seg m \<and>
     (\<forall>g zs. iqueue (k_heap m) g zs \<longrightarrow> set (g # zs) \<inter> used = {} \<longrightarrow> iqueue (k_heap m') g zs)"

lemma keeps_rings_trans:
  "keeps_rings used m1 m2 \<Longrightarrow> keeps_rings used m2 m3 \<Longrightarrow> keeps_rings used m1 m3"
  by (simp add: keeps_rings_def)

lemma keeps_rings_mono: "keeps_rings used m m' \<Longrightarrow> used \<subseteq> used' \<Longrightarrow> keeps_rings used' m m'"
  by (fastforce simp: keeps_rings_def)

lemma keeps_rings_refl [simp]: "keeps_rings used m m"
  by (simp add: keeps_rings_def)

lemma una_walk_refines:
  assumes "iqueue (k_heap m) buf xs"
  shows "\<exists>m' ys. una_walk una buf m (hd (xs @ [buf])) n = Some (m', snd (ikcp_parse_una_loop una (map (k_seg m) xs) n)) \<and>
    holds_queue m' buf ys (fst (ikcp_parse_una_loop una (map (k_seg m) xs) n)) \<and> keeps_rings (set (buf # xs)) m m'"
  using assms
proof (induction xs arbitrary: m n)
  case Nil
  then show ?case by (subst una_walk.simps) (simp add: holds_queue_def)
next
  case (Cons x xs)
  have x: "x \<noteq> buf" using Cons.prems by (auto simp: iqueue_def)
  have nx: "nxt (k_heap m) x = hd (xs @ [buf])" using iqueue_neighbours [of _ _ "[]"] Cons.prems by simp
  show ?case
  proof (cases "itimediff una (seg_sn (k_seg m x)) > 0")
    case False
    then show ?thesis using x Cons.prems
      by (subst una_walk.simps) (auto simp: holds_queue_def Let_def)
  next
    case True
    let ?m = "m\<lparr>k_heap := iqueue_del (k_heap m) x\<rparr>"
    have "iqueue (k_heap ?m) buf xs" using rings.taken [of _ _ "[]"] Cons.prems by simp
    from Cons.IH [OF this, of "n - 1"] obtain m' ys where
      "una_walk una buf ?m (hd (xs @ [buf])) (n - 1) = Some (m', snd (ikcp_parse_una_loop una (map (k_seg m) xs) (n - 1)))"
      "holds_queue m' buf ys (fst (ikcp_parse_una_loop una (map (k_seg m) xs) (n - 1)))" "keeps_rings (set (buf # xs)) ?m m'"
      by auto
    moreover have "keeps_rings (set (buf # x # xs)) m ?m"
      using rings.taken_frame [of "k_heap m" buf "[]" x xs] Cons.prems by (simp add: keeps_rings_def)
    then have "keeps_rings (set (buf # x # xs)) m m'"
      using \<open>keeps_rings (set (buf # xs)) ?m m'\<close> by (elim keeps_rings_trans) (auto elim: keeps_rings_mono)
    ultimately show ?thesis
      using True x nx by (subst una_walk.simps) (auto simp: Let_def)
  qed
qed

lemma scan_walk_refines:
  assumes "iqueue (k_heap m) buf (xs @ ys)" and "ikcp_parse_scan sn (rev (map (k_seg m) xs)) = (rep, ps)"
  shows "scan_walk sn buf m (last (buf # xs)) = Some (rep, last (buf # take (length ps) xs)) \<and> length ps \<le> length xs"
  using assms
proof (induction xs arbitrary: ys rule: rev_induct)
  case Nil
  then show ?case by (subst scan_walk.simps) simp
next
  case (snoc x xs)
  have x: "x \<noteq> buf" using snoc.prems(1) by (auto simp: iqueue_def)
  have px: "prv (k_heap m) x = last (buf # xs)" using iqueue_neighbours [of _ _ xs x ys] snoc.prems(1) by simp
  show ?case
  proof (cases "seg_sn (k_seg m x) = sn \<or> itimediff sn (seg_sn (k_seg m x)) > 0")
    case True
    then show ?thesis using x snoc.prems by (subst scan_walk.simps) (auto simp: Let_def split: if_splits)
  next
    case False
    then have "ikcp_parse_scan sn (rev (map (k_seg m) xs)) = (rep, ps)" using snoc.prems(2) by simp
    from snoc.IH [OF _ this, of "x # ys"] snoc.prems(1)
    have "scan_walk sn buf m (last (buf # xs)) = Some (rep, last (buf # take (length ps) xs))" "length ps \<le> length xs" by auto
    then show ?thesis using x px False by (subst scan_walk.simps) (auto simp: Let_def)
  qed
qed

lemma ready_walk_refines:
  assumes b: "holds_queue m buf bs (rcv_buf k)" and q: "holds_queue m que qs (rcv_queue k)"
    and d: "set (buf # bs) \<inter> set (que # qs) = {}"
  shows "\<exists>m' bs' qs'. ready_walk buf que m (k\<lparr>rcv_buf := b0, rcv_queue := q0\<rparr>) =
      Some (m', (ikcp_move_ready k)\<lparr>rcv_buf := b0, rcv_queue := q0\<rparr>) \<and>
    holds_queue m' buf bs' (rcv_buf (ikcp_move_ready k)) \<and> holds_queue m' que qs' (rcv_queue (ikcp_move_ready k)) \<and>
    set bs' \<union> set qs' = set bs \<union> set qs \<and> set bs' \<inter> set qs' = {} \<and> keeps_rings (set (buf # bs) \<union> set (que # qs)) m m'"
  using assms
proof (induction bs arbitrary: m k qs)
  case Nil
  have "iqueue_is_empty (k_heap m) buf" "rcv_buf k = []" using Nil iqueue_empty by (auto simp: holds_queue_def)
  moreover have "ikcp_move_ready k = k" using \<open>rcv_buf k = []\<close> by (subst ikcp_move_ready.simps) simp
  ultimately show ?case
    using Nil by - (rule exI [of _ m], rule exI [of _ "[]"], rule exI [of _ qs], subst ready_walk.simps, simp)
next
  case (Cons x bs)
  have ring: "iqueue (k_heap m) buf (x # bs)" "iqueue (k_heap m) que qs" using Cons.prems by (simp_all add: holds_queue_def)
  have first: "\<not> iqueue_is_empty (k_heap m) buf" "nxt (k_heap m) buf = x"
    using iqueue_empty [OF ring(1)] iqueue_front [OF ring(1)] by simp_all
  have buf: "rcv_buf k = k_seg m x # map (k_seg m) bs" using Cons.prems by (simp add: holds_queue_def)
  show ?case
  proof (cases "seg_sn (k_seg m x) = rcv_nxt k \<and> nrcv_que k < rcv_wnd k")
    case False
    have "ikcp_move_ready k = k" using False by (subst ikcp_move_ready.simps) (auto simp: buf)
    moreover have "ready_walk buf que m (k\<lparr>rcv_buf := b0, rcv_queue := q0\<rparr>) = Some (m, k\<lparr>rcv_buf := b0, rcv_queue := q0\<rparr>)"
      using False first by (subst ready_walk.simps) (auto simp: Let_def)
    ultimately show ?thesis
      using Cons.prems by - (rule exI [of _ m], rule exI [of _ "x # bs"], rule exI [of _ qs], auto)
  next
    case True
    let ?h = "iqueue_add_tail (iqueue_del (k_heap m) x) x que"
    let ?m = "m\<lparr>k_heap := ?h\<rparr>"
    let ?k = "k\<lparr>rcv_buf := map (k_seg m) bs, nrcv_buf := nrcv_buf k - 1, rcv_queue := rcv_queue k @ [k_seg m x],
        nrcv_que := nrcv_que k + 1, rcv_nxt := rcv_nxt k + 1\<rparr>"
    have x0: "x \<noteq> 0" using ring(1) by (simp add: iqueue_def)
    have x: "x \<notin> set (que # qs)" "x \<notin> set (buf # bs)" using Cons.prems(3) ring(1) by (auto simp: iqueue_def)
    have "iqueue ?h buf bs" "iqueue ?h que (qs @ [x])"
      using rings.move_first [OF ring Cons.prems(3) x0] by simp_all
    then have "holds_queue ?m buf bs (rcv_buf ?k)" "holds_queue ?m que (qs @ [x]) (rcv_queue ?k)"
      using Cons.prems(2) by (simp_all add: holds_queue_def)
    moreover have "set (buf # bs) \<inter> set (que # qs @ [x]) = {}" using Cons.prems(3) x by auto
    ultimately obtain m' bs' qs' where ih:
      "ready_walk buf que ?m (?k\<lparr>rcv_buf := b0, rcv_queue := q0\<rparr>) = Some (m', (ikcp_move_ready ?k)\<lparr>rcv_buf := b0, rcv_queue := q0\<rparr>)"
      "holds_queue m' buf bs' (rcv_buf (ikcp_move_ready ?k))" "holds_queue m' que qs' (rcv_queue (ikcp_move_ready ?k))"
      "set bs' \<union> set qs' = set bs \<union> set (qs @ [x])" "set bs' \<inter> set qs' = {}"
      "keeps_rings (set (buf # bs) \<union> set (que # qs @ [x])) ?m m'"
      using Cons.IH [of ?m ?k "qs @ [x]"] by blast
    have move: "ikcp_move_ready k = ikcp_move_ready ?k" using True by (subst ikcp_move_ready.simps) (simp add: buf)
    have "keeps_rings (set (buf # x # bs) \<union> set (que # qs)) m ?m"
    proof -
      have "iqueue ?h g zs" if g: "iqueue (k_heap m) g zs" "set (g # zs) \<inter> (set (buf # x # bs) \<union> set (que # qs)) = {}" for g zs
      proof (rule rings.put_frame)
        show "iqueue (iqueue_del (k_heap m) x) que qs" using rings.taken_frame [of _ buf "[]" x bs que qs] ring Cons.prems(3) by auto
        show "x \<notin> set (que # qs)" by (rule x)
        show "iqueue (iqueue_del (k_heap m) x) g zs" using rings.taken_frame [of _ buf "[]" x bs g zs] ring g by auto
        show "set (g # zs) \<inter> set (x # que # qs) = {}" using g by auto
      qed
      then show ?thesis by (simp add: keeps_rings_def)
    qed
    moreover have "set (buf # bs) \<union> set (que # qs @ [x]) = set (buf # x # bs) \<union> set (que # qs)" by auto
    ultimately have "keeps_rings (set (buf # x # bs) \<union> set (que # qs)) m m'"
      using ih(6) by (metis keeps_rings_trans)
    moreover have "ready_walk buf que m (k\<lparr>rcv_buf := b0, rcv_queue := q0\<rparr>) =
        ready_walk buf que ?m (?k\<lparr>rcv_buf := b0, rcv_queue := q0\<rparr>)"
      using True first by (subst ready_walk.simps) (simp add: Let_def, cases k, simp)
    ultimately show ?thesis using ih(1-5) unfolding move by (intro exI [of _ m'] exI [of _ bs'] exI [of _ qs']) auto
  qed
qed

text \<open>Linking a new node in where the scan has stopped.\<close>

lemma link_in:
  assumes b: "iqueue h buf bs" and q: "iqueue h que qs" and d: "set (buf # bs) \<inter> set (que # qs) = {}"
    and n: "n \<notin> set (buf # bs) \<union> set (que # qs)" "n \<noteq> 0"
  shows "iqueue (iqueue_add (iqueue_init h n) n (last (buf # take i bs))) buf (take i bs @ n # drop i bs) \<and>
    iqueue (iqueue_add (iqueue_init h n) n (last (buf # take i bs))) que qs \<and>
    (\<forall>g zs. iqueue h g zs \<longrightarrow> set (g # zs) \<inter> set (n # buf # bs) = {} \<longrightarrow>
       iqueue (iqueue_add (iqueue_init h n) n (last (buf # take i bs))) g zs)"
proof -
  have frame: "iqueue (iqueue_init h n) g zs" if "iqueue h g zs" "n \<notin> set (g # zs)" for g zs
    using that by (intro iqueue_frame [OF that(1)]) (auto simp: iqueue_init_def Let_def)
  have b': "iqueue (iqueue_init h n) buf (take i bs @ drop i bs)" using frame [OF b] n by simp
  have "n \<notin> set (buf # take i bs @ drop i bs)" using n by simp
  note put = rings.inserted [OF b' this n(2)] and keep = rings.inserted_frame [OF b' this]
  have other: "iqueue (iqueue_add (iqueue_init h n) n (last (buf # take i bs))) g zs"
    if "iqueue h g zs" "set (g # zs) \<inter> set (n # buf # bs) = {}" for g zs
    using that by (intro keep frame) auto
  have "set (que # qs) \<inter> set (n # buf # bs) = {}" using d n(1) by auto
  then show ?thesis using put other [OF q] other by simp
qed

lemma parse_data_refines:
  assumes b: "holds_queue m buf bs (rcv_buf k)" and q: "holds_queue m que qs (rcv_queue k)"
    and d: "set (buf # bs) \<inter> set (que # qs) = {}" and n: "n \<notin> set (buf # bs) \<union> set (que # qs)" "n \<noteq> 0"
  shows "\<exists>m' bs' qs'. parse_data_ptr buf que m (k\<lparr>rcv_buf := b0, rcv_queue := q0\<rparr>) n =
      Some (m', (ikcp_parse_data k (k_seg m n))\<lparr>rcv_buf := b0, rcv_queue := q0\<rparr>) \<and>
    holds_queue m' buf bs' (rcv_buf (ikcp_parse_data k (k_seg m n))) \<and>
    holds_queue m' que qs' (rcv_queue (ikcp_parse_data k (k_seg m n))) \<and>
    set bs' \<inter> set qs' = {} \<and> keeps_rings (insert n (set (buf # bs) \<union> set (que # qs))) m m'"
proof (cases "itimediff (seg_sn (k_seg m n)) (rcv_nxt k + rcv_wnd k) \<ge> 0 \<or> itimediff (seg_sn (k_seg m n)) (rcv_nxt k) < 0")
  case True
  then show ?thesis using b q d
    by (intro exI [of _ m] exI [of _ bs] exI [of _ qs]) (auto simp: parse_data_ptr_def ikcp_parse_data_def Let_def)
next
  case False
  have ring: "iqueue (k_heap m) buf bs" "iqueue (k_heap m) que qs" using b q by (simp_all add: holds_queue_def)
  have segs: "rcv_buf k = map (k_seg m) bs" "rcv_queue k = map (k_seg m) qs" using b q by (simp_all add: holds_queue_def)
  obtain rep ps where s: "ikcp_parse_scan (seg_sn (k_seg m n)) (rev (map (k_seg m) bs)) = (rep, ps)" by fastforce
  have scan: "scan_walk (seg_sn (k_seg m n)) buf m (prv (k_heap m) buf) = Some (rep, last (buf # take (length ps) bs))"
    using scan_walk_refines [of m buf bs "[]"] ring(1) s iqueue_front [OF ring(1)] by simp
  define m1 where "m1 = (if rep then m
      else m\<lparr>k_heap := iqueue_add (iqueue_init (k_heap m) n) n (last (buf # take (length ps) bs))\<rparr>)"
  define bs1 where "bs1 = (if rep then bs else take (length ps) bs @ n # drop (length ps) bs)"
  define k1 where "k1 = (if rep then k else k\<lparr>rcv_buf := map (k_seg m) bs1, nrcv_buf := nrcv_buf k + 1\<rparr>)"
  have seg: "k_seg m1 = k_seg m" by (simp add: m1_def)
  have one: "iqueue (k_heap m1) buf bs1" "iqueue (k_heap m1) que qs" "keeps_rings (insert n (set (buf # bs))) m m1"
    using link_in [OF ring d n, of "length ps"] ring
    by (simp_all add: m1_def bs1_def keeps_rings_def)
  have hold: "holds_queue m1 buf bs1 (rcv_buf k1)" "holds_queue m1 que qs (rcv_queue k1)"
    using one(1,2) segs by (auto simp: holds_queue_def seg k1_def bs1_def)
  have sub: "set bs1 \<subseteq> insert n (set bs)"
    by (auto simp: bs1_def dest: in_set_takeD in_set_dropD)
  then have "set (buf # bs1) \<inter> set (que # qs) = {}" using d n by auto
  from ready_walk_refines [OF hold this, of q0 b0] obtain m' bs' qs' where r:
    "ready_walk buf que m1 (k1\<lparr>rcv_buf := b0, rcv_queue := q0\<rparr>) = Some (m', (ikcp_move_ready k1)\<lparr>rcv_buf := b0, rcv_queue := q0\<rparr>)"
    "holds_queue m' buf bs' (rcv_buf (ikcp_move_ready k1))" "holds_queue m' que qs' (rcv_queue (ikcp_move_ready k1))"
    "set bs' \<inter> set qs' = {}" "keeps_rings (set (buf # bs1) \<union> set (que # qs)) m1 m'"
    by (elim exE conjE) (rule that)
  have "keeps_rings (insert n (set (buf # bs) \<union> set (que # qs))) m m1" by (rule keeps_rings_mono [OF one(3)]) auto
  moreover have "keeps_rings (insert n (set (buf # bs) \<union> set (que # qs))) m1 m'"
  proof (rule keeps_rings_mono [OF r(5)])
    have "set (buf # bs1) \<subseteq> insert n (set (buf # bs))" using sub by auto
    then show "set (buf # bs1) \<union> set (que # qs) \<subseteq> insert n (set (buf # bs) \<union> set (que # qs))" by blast
  qed
  ultimately have "keeps_rings (insert n (set (buf # bs) \<union> set (que # qs))) m m'" by (rule keeps_rings_trans)
  note keeps = this
  have data: "ikcp_parse_data k (k_seg m n) = ikcp_move_ready k1"
    using False s segs by (cases rep) (simp_all add: ikcp_parse_data_def Let_def k1_def bs1_def take_map drop_map)
  have swap: "k\<lparr>nrcv_buf := c, rcv_buf := b0, rcv_queue := q0\<rparr> = k\<lparr>rcv_buf := b0, rcv_queue := q0, nrcv_buf := c\<rparr>" for c
    by (cases k) simp
  have "parse_data_ptr buf que m (k\<lparr>rcv_buf := b0, rcv_queue := q0\<rparr>) n =
      ready_walk buf que m1 (k1\<lparr>rcv_buf := b0, rcv_queue := q0\<rparr>)"
    using False scan by (cases rep; simp add: parse_data_ptr_def Let_def m1_def k1_def del: last.simps; (simp only: swap)?)
  then show ?thesis
    using r(1-4) keeps unfolding data by - (rule exI [of _ m'], rule exI [of _ bs'], rule exI [of _ qs'], simp)
qed

text \<open>A cumulative acknowledgement on the ring of the segments in flight.\<close>

lemma parse_una_refines:
  assumes "holds_queue m buf xs (snd_buf k)"
  shows "\<exists>m' ys. parse_una_ptr una buf m (nsnd_buf k) = Some (m', nsnd_buf (ikcp_parse_una k una)) \<and>
    holds_queue m' buf ys (snd_buf (ikcp_parse_una k una)) \<and> keeps_rings (set (buf # xs)) m m'"
proof -
  have ring: "iqueue (k_heap m) buf xs" and segs: "snd_buf k = map (k_seg m) xs" using assms by (simp_all add: holds_queue_def)
  from una_walk_refines [OF ring, of una "nsnd_buf k"] iqueue_front [OF ring] show ?thesis
    by (simp add: parse_una_ptr_def ikcp_parse_una_def segs split_beta)
qed

text \<open>
  C11: The linked queues implement the lists. On two disjoint rings that hold the receive buffer and the
  receive queue, the pointer code for an arriving segment returns; it leaves two disjoint rings that hold
  exactly the buffer and the queue of the list model, changes the counters as the model does, and leaves
  every ring that shares no node with these alone. So does the code for a cumulative acknowledgement.
\<close>

theorem queues_implement_lists:
  assumes "holds_queue m buf bs (rcv_buf k)" and "holds_queue m que qs (rcv_queue k)"
    and "set (buf # bs) \<inter> set (que # qs) = {}" and "n \<notin> set (buf # bs) \<union> set (que # qs)" and "n \<noteq> 0"
    and "holds_queue m sb xs (snd_buf k)"
  shows "(\<exists>m' bs' qs'. parse_data_ptr buf que m (k\<lparr>rcv_buf := b0, rcv_queue := q0\<rparr>) n =
      Some (m', (ikcp_parse_data k (k_seg m n))\<lparr>rcv_buf := b0, rcv_queue := q0\<rparr>) \<and>
    holds_queue m' buf bs' (rcv_buf (ikcp_parse_data k (k_seg m n))) \<and>
    holds_queue m' que qs' (rcv_queue (ikcp_parse_data k (k_seg m n))) \<and>
    set bs' \<inter> set qs' = {} \<and> keeps_rings (insert n (set (buf # bs) \<union> set (que # qs))) m m') \<and>
   (\<exists>m' ys. parse_una_ptr una sb m (nsnd_buf k) = Some (m', nsnd_buf (ikcp_parse_una k una)) \<and>
    holds_queue m' sb ys (snd_buf (ikcp_parse_una k una)) \<and> keeps_rings (set (sb # xs)) m m')"
  using parse_data_refines [OF assms(1-5)] parse_una_refines [OF assms(6)] by blast

text \<open>Three empty rings and a new node.\<close>

definition empty_rings :: kheap where
  "empty_rings = \<lparr>k_heap = iqueue_init (iqueue_init (iqueue_init \<lparr>nxt = (\<lambda>_. 0), prv = (\<lambda>_. 0)\<rparr> 1) 2) 3, k_seg = (\<lambda>_. seg0)\<rparr>"

theorem queues_implement_lists_witness:
  "\<exists>m' bs' qs'. parse_data_ptr 1 2 empty_rings (kcp0\<lparr>rcv_buf := [], rcv_queue := []\<rparr>) 4 =
       Some (m', (ikcp_parse_data kcp0 seg0)\<lparr>rcv_buf := [], rcv_queue := []\<rparr>) \<and>
     holds_queue m' 1 bs' (rcv_buf (ikcp_parse_data kcp0 seg0)) \<and> holds_queue m' 2 qs' (rcv_queue (ikcp_parse_data kcp0 seg0))"
proof -
  have "k_seg empty_rings 4 = seg0" by (simp add: empty_rings_def)
  moreover have "holds_queue empty_rings 1 [] (rcv_buf kcp0)" "holds_queue empty_rings 2 [] (rcv_queue kcp0)"
    "holds_queue empty_rings 3 [] (snd_buf kcp0)"
    by (simp_all add: holds_queue_def empty_rings_def iqueue_def iqueue_init_def Let_def)
  ultimately show ?thesis
    using queues_implement_lists [of empty_rings 1 "[]" kcp0 2 "[]" 4 3 "[]" "[]" "[]" 0]
    by (auto simp del: kcp0_values)
qed

end
