(* ===== verification/Kcp_Host.thy ===== *)
theory Kcp_Host
  imports Kcp_State
begin

text \<open>
  What the host program supplies to the protocol besides the output callback: the allocator hooks and the log
  callback of \<^verbatim>\<open>ikcp.cc\<close>. A function pointer is a number; a block of memory remembers which function gave it.
\<close>

section \<open>Allocation\<close>

datatype allocator = Libc | Hook nat

record mem_hooks =
  ikcp_malloc_hook :: "nat option"
  ikcp_free_hook :: "nat option"
  blocks :: "nat \<rightharpoonup> allocator \<times> nat"

definition by_hook :: "nat option \<Rightarrow> allocator" where
  "by_hook h = (case h of Some f \<Rightarrow> Hook f | None \<Rightarrow> Libc)"

text \<open>\<open>ptr\<close> is the address that the chosen function returns, 0 if it has no memory.\<close>

definition ikcp_malloc :: "nat \<Rightarrow> nat \<Rightarrow> mem_hooks \<Rightarrow> nat \<times> mem_hooks" where
  "ikcp_malloc ptr n m =
     (if ptr = 0 then (0, m) else (ptr, m\<lparr>blocks := (blocks m)(ptr \<mapsto> (by_hook (ikcp_malloc_hook m), n))\<rparr>))"

text \<open>
  \<^const>\<open>None\<close>: the block is not allocated, or goes to a function that does not belong to the one that gave it;
  \<open>mates f g\<close> says that \<open>g\<close> frees what \<open>f\<close> has allocated. Nothing happens for a null pointer.
\<close>

fun frees :: "(nat \<Rightarrow> nat \<Rightarrow> bool) \<Rightarrow> allocator \<Rightarrow> allocator \<Rightarrow> bool" where
  "frees mates Libc Libc = True"
| "frees mates (Hook f) (Hook g) = mates f g"
| "frees mates _ _ = False"

definition ikcp_free :: "(nat \<Rightarrow> nat \<Rightarrow> bool) \<Rightarrow> nat \<Rightarrow> mem_hooks \<Rightarrow> mem_hooks option" where
  "ikcp_free mates ptr m =
     (if ptr = 0 then Some m
      else case blocks m ptr of
        None \<Rightarrow> None
      | Some (a, n) \<Rightarrow>
          if frees mates a (by_hook (ikcp_free_hook m)) then Some (m\<lparr>blocks := (blocks m)(ptr := None)\<rparr>) else None)"

definition ikcp_allocator :: "nat option \<Rightarrow> nat option \<Rightarrow> mem_hooks \<Rightarrow> mem_hooks" where
  "ikcp_allocator new_malloc new_free m = m\<lparr>ikcp_malloc_hook := new_malloc, ikcp_free_hook := new_free\<rparr>"

definition ikcp_segment_delete :: "(nat \<Rightarrow> nat \<Rightarrow> bool) \<Rightarrow> nat \<Rightarrow> mem_hooks \<Rightarrow> mem_hooks option" where
  "ikcp_segment_delete mates seg m = ikcp_free mates seg m"

section \<open>Logging\<close>

text \<open>
  \<open>text\<close> is what \<^verbatim>\<open>vsprintf\<close> formats; with its terminating zero it must fit into 1024 bytes, or it is written past
  the array: \<^const>\<open>None\<close>. The result is what the callback is given.
\<close>

definition ikcp_log :: "kcpcb \<Rightarrow> int \<Rightarrow> string \<Rightarrow> string list option" where
  "ikcp_log k msk msg =
     (if and msk (logmask k) = 0 \<or> \<not> writelog_set k then Some []
      else if 1024 \<le> length msg then None
      else Some [msg])"

section \<open>The allocator may be changed only while no block is in use\<close>

text \<open>Every block can be freed with the hooks as they are.\<close>

definition mem_ok :: "(nat \<Rightarrow> nat \<Rightarrow> bool) \<Rightarrow> mem_hooks \<Rightarrow> bool" where
  "mem_ok mates m \<longleftrightarrow> frees mates (by_hook (ikcp_malloc_hook m)) (by_hook (ikcp_free_hook m)) \<and>
     (\<forall>ptr a n. blocks m ptr = Some (a, n) \<longrightarrow> frees mates a (by_hook (ikcp_free_hook m)))"

datatype mem_act = Act_malloc nat nat | Act_free nat | Act_allocator "nat option" "nat option"

fun mem_step :: "(nat \<Rightarrow> nat \<Rightarrow> bool) \<Rightarrow> mem_act \<Rightarrow> mem_hooks \<Rightarrow> mem_hooks option" where
  "mem_step mates (Act_malloc ptr n) m = Some (snd (ikcp_malloc ptr n m))"
| "mem_step mates (Act_free ptr) m = ikcp_free mates ptr m"
| "mem_step mates (Act_allocator f g) m =
     (if blocks m = Map.empty \<and> frees mates (by_hook f) (by_hook g) then Some (ikcp_allocator f g m) else None)"

interpretation mem: safe_steps "mem_step mates" "\<lambda>_. True" "mem_ok mates" for mates
proof unfold_locales
  fix m a m'
  assume "mem_ok mates m" and "mem_step mates a m = Some m'"
  then show "mem_ok mates m'"
    by (cases a; auto simp: mem_ok_def ikcp_malloc_def ikcp_free_def ikcp_allocator_def split: if_splits option.splits; blast)
qed

text \<open>
  As long as the allocator is changed only while no block is in use, and for two functions that belong
  together, every block can be given back: no run of allocations and releases comes to a state in which a block in
  use is released by the wrong function. If it is changed while a block is in use, releasing that block goes
  wrong. A message is logged exactly if the mask selects it and there is a callback, and then only a text of less
  than 1024 characters fits.
\<close>

theorem host_memory:
  assumes "mem_ok mates m" and "run_steps (mem_step mates) acts m = Some m'"
  shows "(\<forall>ptr. ptr = 0 \<or> blocks m' ptr \<noteq> None \<longrightarrow> ikcp_segment_delete mates ptr m' \<noteq> None) \<and>
    (blocks m' ptr = Some (Libc, n) \<and> ptr \<noteq> 0 \<longrightarrow>
       ikcp_segment_delete mates ptr (ikcp_allocator (Some f) (Some g) m') = None) \<and>
    ((\<exists>t. ikcp_log k msk msg = Some [t]) \<longleftrightarrow> ikcp_canlog k msk \<and> length msg < 1024)"
proof -
  have "mem_ok mates m'" by (rule mem.run_safe [OF assms(1) _ assms(2)]) (simp add: list_all_iff)
  then have "ikcp_segment_delete mates ptr m' \<noteq> None" if "ptr = 0 \<or> blocks m' ptr \<noteq> None" for ptr
    using that by (auto simp: mem_ok_def ikcp_segment_delete_def ikcp_free_def split: option.split)
  then show ?thesis
    by (auto simp: ikcp_segment_delete_def ikcp_free_def ikcp_allocator_def by_hook_def ikcp_log_def ikcp_canlog_def)
qed

definition libc_hooks :: mem_hooks where
  "libc_hooks = \<lparr>ikcp_malloc_hook = None, ikcp_free_hook = None, blocks = Map.empty\<rparr>"

theorem host_memory_witness:
  "\<exists>m. run_steps (mem_step (\<lambda>f g. g = f + 1)) [Act_malloc 8 100, Act_malloc 9 50, Act_free 8] libc_hooks = Some m \<and>
     ikcp_segment_delete (\<lambda>f g. g = f + 1) 9 m \<noteq> None \<and>
     ikcp_segment_delete (\<lambda>f g. g = f + 1) 9 (ikcp_allocator (Some 1) (Some 2) m) = None"
proof -
  have ok: "mem_ok (\<lambda>f g. g = f + 1) libc_hooks" by (simp add: mem_ok_def libc_hooks_def by_hook_def)
  have "\<exists>m. run_steps (mem_step (\<lambda>f g. g = f + 1)) [Act_malloc 8 100, Act_malloc 9 50, Act_free 8] libc_hooks = Some m \<and>
      blocks m 9 = Some (Libc, 50)"
    by (simp add: ikcp_malloc_def ikcp_free_def libc_hooks_def by_hook_def)
  then obtain m where m: "run_steps (mem_step (\<lambda>f g. g = f + 1)) [Act_malloc 8 100, Act_malloc 9 50, Act_free 8] libc_hooks = Some m"
    "blocks m 9 = Some (Libc, 50)" by blast
  from host_memory [OF ok m(1), of 9 50 1 2 kcp0 0 "[]"] m show ?thesis by auto
qed

end
