(* ===== verification/Kcp_Endpoint.thy ===== *)
theory Kcp_Endpoint
  imports Kcp_Transfer
begin

text \<open>
  How the program uses a control block: it is created with the default segment size, gets the output callback
  and window and timing settings, and the size is never changed. Such an endpoint can always be updated: no
  flush overruns the buffer.
\<close>

section \<open>Settings that no operation changes\<close>

definition settings :: "kcpcb \<Rightarrow> u32 \<times> u32 \<times> bool \<times> int" where
  "settings k = (mtu k, mss k, output_set k, stream k)"

lemma settings_simps [simp]:
  "settings (ikcp_parse_una k una) = settings k" "settings (ikcp_shrink_buf k) = settings k"
  "settings (ikcp_parse_ack k sn) = settings k" "settings (ikcp_parse_fastack k sn ts) = settings k"
  "settings (ikcp_update_ack k rtt) = settings k" "settings (ikcp_input_cwnd prev k) = settings k"
  "settings (k\<lparr>rmt_wnd := w\<rparr>) = settings k" "settings (k\<lparr>probe := p\<rparr>) = settings k"
  by (auto simp: settings_def ikcp_parse_una_def ikcp_shrink_buf_def ikcp_parse_ack_def ikcp_parse_fastack_def
      ikcp_update_ack_def ikcp_input_cwnd_def Let_def split: prod.split list.split)

lemma move_ready_settings [simp]: "settings (ikcp_move_ready k) = settings k"
  using move_ready_spec [of k] by (auto simp: settings_def)

lemma parse_data_settings [simp]: "settings (ikcp_parse_data k s) = settings k"
proof -
  have "settings (k\<lparr>rcv_buf := b, nrcv_buf := n\<rparr>) = settings k" for b n by (simp add: settings_def)
  then show ?thesis by (simp add: ikcp_parse_data_def Let_def split: prod.split)
qed

lemma input_ack_settings: "ikcp_input_ack k a sn ts = (k', a') \<Longrightarrow> settings k' = settings k"
  by (auto simp: ikcp_input_ack_def Let_def split: if_splits)

lemma ack_push_settings: "ikcp_ack_push k sn ts = Some k' \<Longrightarrow> settings k' = settings k"
  by (auto simp: ikcp_ack_push_def Let_def settings_def bind_eq_Some_conv split: if_splits)

lemma input_push_settings: "ikcp_input_push junk k h d = Some k' \<Longrightarrow> settings k' = settings k"
  by (auto simp: ikcp_input_push_def Let_def bind_eq_Some_conv split: if_splits dest: ack_push_settings)

lemma input_seg_settings:
  assumes "ikcp_input_seg junk k a h d = Some (k', a')"
  shows "settings k' = settings k"
proof -
  define k1 where "k1 = ikcp_shrink_buf (ikcp_parse_una (k\<lparr>rmt_wnd := ucast (hdr_wnd h)\<rparr>) (hdr_una h))"
  have k1: "settings k1 = settings k" by (simp add: k1_def)
  have r: "(if (ucast (hdr_cmd h) :: u32) = IKCP_CMD_ACK then Some (ikcp_input_ack k1 a (hdr_sn h) (hdr_ts h))
       else if (ucast (hdr_cmd h) :: u32) = IKCP_CMD_PUSH
       then map_option (\<lambda>k. (k, a)) (ikcp_input_push junk k1 h d)
       else if (ucast (hdr_cmd h) :: u32) = IKCP_CMD_WASK then Some (k1\<lparr>probe := probe k1 OR IKCP_ASK_TELL\<rparr>, a)
       else Some (k1, a)) = Some (k', a')"
    using assms unfolding ikcp_input_seg_def Let_def k1_def .
  show ?thesis
  proof (cases "(ucast (hdr_cmd h) :: u32) = IKCP_CMD_ACK")
    case True
    then show ?thesis using r k1 by (simp add: input_ack_settings)
  next
    case not_ack: False
    show ?thesis
    proof (cases "(ucast (hdr_cmd h) :: u32) = IKCP_CMD_PUSH")
      case True
      then show ?thesis using r not_ack k1 input_push_settings by fastforce
    next
      case False
      then have "k' = k1\<lparr>probe := probe k1 OR IKCP_ASK_TELL\<rparr> \<or> k' = k1"
        using r not_ack by (simp split: if_splits)
      then show ?thesis using k1 by auto
    qed
  qed
qed

lemma input_settings:
  assumes "ikcp_input junk k data n = Some (r, k')"
  shows "settings k' = settings k"
proof -
  have loop: "settings k1 = settings k" if "ikcp_input_loop junk k a d n = Some (r1, k1, a1)" for a d r1 k1 a1
    by (rule input_loop_keeps [where P = "\<lambda>k1. settings k1 = settings k", OF _ refl that])
       (simp add: input_seg_settings)
  show ?thesis
    using assms by (auto simp: ikcp_input_def Let_def split: option.splits if_splits dest!: loop)
qed

lemma recv_settings:
  assumes "ikcp_recv k b len = Some (r, out, k')"
  shows "settings k' = settings k"
proof -
  obtain x y k1 where m: "ikcp_recv_merge (len < 0) b (rcv_queue k) k 0 [] = (x, y, k1)" by (metis prod.exhaust)
  have "settings k1 = settings k"
    using recv_merge_state [OF refl, of "len < 0" b k 0 "[]"] m by (auto simp: settings_def split: if_splits)
  moreover have "settings (recv_settle c k1) = settings k1" for c by (simp add: recv_settle_def Let_def)
  moreover have "k' = k \<or> (\<exists>c. k' = recv_settle c k1)"
    using assms m by (auto simp: ikcp_recv_def Let_def recv_settle_def split: if_splits)
  ultimately show ?thesis by auto
qed

section \<open>Endpoints\<close>

definition endpoint_ok :: "kcpcb \<Rightarrow> bool" where
  "endpoint_ok k \<longleftrightarrow> kcp_wf k \<and> output_set k \<and> mtu k = 1400 \<and> stream k = 0 \<and> segs_fit k"

lemma endpoint_start:
  assumes "ikcp_create True True c = Some k" and that: "sw < 2147483648" "rw < 2147483648"
  shows "endpoint_ok (snd (ikcp_nodelay (snd (ikcp_wndsize (ikcp_setoutput k True) sw rw)) nd iv rs nc))"
proof -
  have k: "kcp_wf k" "mtu k = 1400" "stream k = 0" "snd_buf k = []" "snd_queue k = []"
    using create_wf [OF assms(1)] assms(1) by (auto simp: ikcp_create_def kcp_defs)
  have "kcp_wf (snd (ikcp_nodelay (snd (ikcp_wndsize (ikcp_setoutput k True) sw rw)) nd iv rs nc))"
    using that by (intro nodelay_wf wndsize_wf setoutput_wf k)
  then show ?thesis
    using k by (simp add: endpoint_ok_def segs_fit_def ikcp_nodelay_def ikcp_wndsize_def ikcp_setoutput_def Let_def)
qed

lemma fit_shrunk:
  assumes "segs_fit k" and "shrunk k k'" and "mss k' = mss k"
  shows "segs_fit k'"
proof -
  have "length (seg_data s) \<le> unat (mss k)" if "s \<in> set (snd_buf k')" for s
  proof -
    have "seg_id s \<in> seg_id ` set (snd_buf k)" using that assms(2) by (auto simp: shrunk_def)
    then obtain t where "t \<in> set (snd_buf k)" "seg_data s = seg_data t" by (auto simp: seg_id_def)
    then show ?thesis using assms(1) by (simp add: segs_fit_def)
  qed
  then show ?thesis using assms by (auto simp: segs_fit_def shrunk_def)
qed

lemma endpoint_input:
  assumes "endpoint_ok k" and "ikcp_input junk k data n = Some (r, k')"
  shows "endpoint_ok k'"
  using assms(1) input_settings [OF assms(2)] input_keeps_wf [OF _ assms(2)]
    fit_shrunk [OF _ shrunk_input [OF assms(2)]]
  by (simp add: endpoint_ok_def settings_def)

lemma endpoint_recv:
  assumes "endpoint_ok k" and "ikcp_recv k b len = Some (r, out, k')"
  shows "endpoint_ok k'"
  using assms(1) recv_settings [OF assms(2)] recv_wf [OF _ assms(2)] fit_shrunk [OF _ shrunk_recv [OF assms(2)]]
  by (simp add: endpoint_ok_def settings_def)

lemma endpoint_send:
  assumes ok: "endpoint_ok k" and b: "length b < 2147483648"
  shows "\<exists>r k'. ikcp_send junk k (Some b) (int (length b)) = Some (r, k') \<and> endpoint_ok k'"
proof -
  have k: "kcp_wf k" "stream k = 0" using ok by (simp_all add: endpoint_ok_def)
  let ?n = "frag_count (unat (mss k)) (length b)"
  show ?thesis
  proof (cases "?n \<ge> 128")
    case True
    then show ?thesis using send_message_holds [OF k b, of junk] ok by (simp add: Let_def)
  next
    case False
    then obtain segs where s: "ikcp_send junk k (Some b) (int (length b)) =
        Some (int (length b), k\<lparr>snd_queue := snd_queue k @ segs, nsnd_que := nsnd_que k + of_nat ?n\<rparr>)"
      "\<forall>s \<in> set segs. seg_ok s \<and> length (seg_data s) \<le> unat (mss k)"
      using send_message_holds [OF k b, of junk] by (auto simp: Let_def)
    have "kcp_wf (k\<lparr>snd_queue := snd_queue k @ segs, nsnd_que := nsnd_que k + of_nat ?n\<rparr>)"
      using b by (intro send_wf [OF k(1) _ _ s(1)]) (simp_all add: valid_buf_def)
    then show ?thesis using s ok by (auto simp: endpoint_ok_def segs_fit_def)
  qed
qed

text \<open>Any update that returns keeps the endpoint, however many acknowledgements were waiting.\<close>

lemma flush_settings:
  assumes "ikcp_flush k = Inr (k', ps)"
  shows "settings k' = settings k"
proof (cases "updated k = 0")
  case True
  then show ?thesis using assms by (simp add: ikcp_flush_def)
next
  case False
  from assms False obtain seg em1 em2 em3 m resent rtomin q k2 em4 lost change em5 w where
    "ikcp_flush_acks k [0..<nat (sint (ackcount k))] (ikcp_flush_seg k) \<lparr>em_ptr = [], em_sent = []\<rparr> = Inr (seg, em1)"
    and "ikcp_flush_ask (flush_probed k) IKCP_ASK_SEND IKCP_CMD_WASK seg em1 = Inr em2"
    and "ikcp_flush_ask (flush_probed k) IKCP_ASK_TELL IKCP_CMD_WINS seg em2 = Inr em3"
    and "w = ikcp_flush_cwnd (flush_probed k\<lparr>probe := 0\<rparr>)"
    and m: "m = ikcp_flush_move w (seg_wnd seg) (flush_probed k\<lparr>probe := 0\<rparr>)"
    and d: "ikcp_flush_data resent rtomin (seg_wnd seg) (snd_buf m) m em3 False 0 = Inr (q, k2, em4, lost, change)"
    and "(if em_ptr em4 \<noteq> [] then ikcp_output (k2\<lparr>snd_buf := q\<rparr>) em4 else Inr em4) = Inr em5"
    and k': "k' = ikcp_flush_finish w resent lost change (k2\<lparr>snd_buf := q\<rparr>)" and "ps = em_sent em5"
    by (rule flush_phases)
  obtain x st where k2: "k2 = m\<lparr>xmit := x, state := st\<rparr>" using flush_data_keeps [OF d] by blast
  have "settings (flush_probed k\<lparr>probe := 0\<rparr>) = settings k"
    using flush_probe_frame [of "k\<lparr>ackcount := 0\<rparr>"] by (auto simp: flush_probed_def settings_def)
  moreover have "settings m = settings (flush_probed k\<lparr>probe := 0\<rparr>)"
    using flush_move_frame [of w "seg_wnd seg" "flush_probed k\<lparr>probe := 0\<rparr>"] by (auto simp: m settings_def)
  moreover have "settings k' = settings k2" by (simp add: k' settings_def ikcp_flush_finish_def Let_def)
  ultimately show ?thesis by (simp add: k2 settings_def)
qed

lemma endpoint_flush:
  assumes ok: "endpoint_ok k" and f: "ikcp_flush k = Inr (k', ps)"
  shows "endpoint_ok k'"
proof -
  have wf: "kcp_wf k" and fit: "segs_fit k" using ok by (simp_all add: endpoint_ok_def)
  obtain n news where q: "n \<le> length (snd_queue k)" "snd_queue k' = drop n (snd_queue k)"
    "map seg_id (snd_buf k') = map seg_id (snd_buf k) @ news"
    "news = map (\<lambda>i. (snd_nxt k + of_nat i, seg_data (snd_queue k ! i), seg_len (snd_queue k ! i), conv k, IKCP_CMD_PUSH)) [0..<n]"
    using flush_groups [OF wf f] by blast
  have set: "settings k' = settings k" using f by (rule flush_settings)
  have "length (seg_data s) \<le> unat (mss k)" if "s \<in> set (snd_buf k')" for s
  proof -
    have "seg_id s \<in> set (map seg_id (snd_buf k) @ news)" using that q(3) by (metis imageI list.set_map)
    then show ?thesis using fit q(1,4) by (auto simp: seg_id_def segs_fit_def)
  qed
  moreover have "length (seg_data s) \<le> unat (mss k)" if "s \<in> set (snd_queue k')" for s
    using that fit q(2) by (auto simp: segs_fit_def dest: in_set_dropD)
  ultimately show ?thesis
    using ok flush_keeps_wf [OF wf f] set by (auto simp: endpoint_ok_def segs_fit_def settings_def)
qed

lemma endpoint_clock:
  "endpoint_ok k \<Longrightarrow> endpoint_ok (k\<lparr>current := c, updated := u, ts_flush := t\<rparr>)"
proof -
  assume ok: "endpoint_ok k"
  then have "kcp_wf (k\<lparr>current := c, updated := u, ts_flush := t\<rparr>)" by (simp add: endpoint_ok_def kcp_wf_defs)
  then show ?thesis using ok by (simp add: endpoint_ok_def segs_fit_def)
qed

lemma endpoint_updated:
  assumes "endpoint_ok k" and "ikcp_update k now = Inr (k', ps)"
  shows "endpoint_ok k'"
  using assms(2)
proof (cases rule: update_cases)
  case (1 u t)
  then show ?thesis using endpoint_flush [OF endpoint_clock [OF assms(1)]] by blast
next
  case (2 u t)
  then show ?thesis using endpoint_clock [OF assms(1)] by simp
qed

text \<open>And an update returns, with datagrams of a bounded size.\<close>

lemma endpoint_update:
  assumes ok: "endpoint_ok k" and n: "unat (ackcount k) < 2147483648"
  shows "\<exists>k' ps. ikcp_update k now = Inr (k', ps) \<and> endpoint_ok k' \<and> (\<forall>p \<in> set ps. 0 < length p \<and> length p \<le> 1400)"
proof -
  have ready: "flush_ready (k\<lparr>current := c, updated := u, ts_flush := t\<rparr>)" if "u \<noteq> 0" for c u t
  proof -
    have "kcp_wf (k\<lparr>current := c, updated := u, ts_flush := t\<rparr>)" using ok by (simp add: endpoint_ok_def kcp_wf_defs)
    then show ?thesis using ok n that by (simp add: endpoint_ok_def flush_ready_def segs_fit_def)
  qed
  show ?thesis
  proof (cases "updated k = 0 \<or> 0 \<le> itimediff now (ts_flush k) \<or> itimediff now (ts_flush k) < - 10000")
    case False
    then have "ikcp_update k now = Inr (k\<lparr>current := now\<rparr>, [])" by (simp add: ikcp_update_def Let_def)
    then show ?thesis using endpoint_updated [OF ok] by simp
  next
    case True
    have "kcp_wf (k\<lparr>updated := 1\<rparr>)" using ok by (simp add: endpoint_ok_def kcp_wf_defs)
    then obtain T u where up: "ikcp_update k now = ikcp_flush (k\<lparr>current := now, updated := u, ts_flush := T\<rparr>)" "u \<noteq> 0"
      using update_flushes [OF True] by blast
    let ?k = "k\<lparr>current := now, updated := u, ts_flush := T\<rparr>"
    obtain groups where g: "ikcp_flush ?k = Inr (flush_after ?k, map packet groups)" "[] \<notin> set groups"
      "\<forall>g \<in> set groups. length (packet g) \<le> mtu_of ?k"
      using flush_ready_spec [OF ready [OF up(2)]] by blast
    have "mtu_of ?k = 1400" using ok by (simp add: endpoint_ok_def)
    then have "\<forall>p \<in> set (map packet groups). 0 < length p \<and> length p \<le> 1400" using g(2,3) by auto
    then show ?thesis using up(1) g(1) endpoint_updated [OF ok, of now] by simp
  qed
qed

end
