(* ===== verification/Kcp_Progress.thy ===== *)
theory Kcp_Progress
  imports Kcp_Endpoint
begin

text \<open>
  Progress: what a round over a network that delivers achieves. The sender flushes when its oldest segment is due, the
  datagrams arrive, the receiver flushes, and its datagrams arrive at the sender.
\<close>

section \<open>A walk over the segments of datagrams\<close>

text \<open>Datagrams that arrive one after the other, each in a buffer of its own.\<close>

fun deliver :: "(int \<Rightarrow> ikcpseg) \<Rightarrow> kcpcb \<Rightarrow> bytes list \<Rightarrow> kcpcb option" where
  "deliver junk k [] = Some k"
| "deliver junk k (p # ps) =
     (case ikcp_input junk k (Some p) (int (length p)) of None \<Rightarrow> None | Some (r, k) \<Rightarrow> deliver junk k ps)"

text \<open>
  A property of the control block and the segments that are still to come is kept by the input loop when every
  segment keeps it; the end of a datagram must not disturb it.
\<close>

locale packet_walk =
  fixes inv :: "kcpcb \<Rightarrow> ikcpseg list \<Rightarrow> bool"
  assumes step: "inv k (s # segs) \<Longrightarrow> kcp_wf k \<Longrightarrow> proper_seg k s \<Longrightarrow> seg_ok s \<Longrightarrow>
      ikcp_input_seg j k a (wire_hdr s) (seg_data s @ d) = Some (k', a') \<Longrightarrow> inv k' segs"
    and fastack: "inv k segs \<Longrightarrow> inv (ikcp_parse_fastack k sn ts) segs"
    and grow: "inv k segs \<Longrightarrow> inv (ikcp_input_cwnd prev k) segs"
begin

lemma loop_step:
  assumes "kcp_wf k" and "proper_seg k s" and "seg_ok s" and "unat (ackcount k) < 2147483648" and m: "m \<le> length t"
  shows "\<exists>j k1 a1. ikcp_input_seg j k a (wire_hdr s) (seg_data s @ packet g @ t) = Some (k1, a1) \<and>
    kcp_wf k1 \<and> conv k1 = conv k \<and> unat (ackcount k1) \<le> unat (ackcount k) + 1 \<and>
    ikcp_input_loop junk k a (packet (s # g) @ t) (int (length (packet (s # g)) + m)) =
      ikcp_input_loop junk k1 a1 (packet g @ t) (int (length (packet g) + m))"
proof -
  have len: "unat (seg_len s) = length (seg_data s)" using assms(3) by (simp add: seg_ok_def)
  have p: "packet (s # g) @ t = ikcp_encode_seg [] s @ seg_data s @ packet g @ t" by (simp add: packet_def packed_def)
  have l: "int (length (packet (s # g)) + m) = 24 + int (length (seg_data s)) + int (length (packet g) + m)"
    by (simp add: packet_def length_packed)
  have h: "unat (hdr_len (wire_hdr s)) \<le> length (seg_data s @ packet g @ t)" "0 \<le> sint (hdr_len (wire_hdr s))"
    using assms(2) len by (simp_all add: wire_hdr_def proper_seg_def sint_small)
  let ?j = "junk (int (length (packet (s # g)) + m))"
  obtain k1 a1 where k1: "ikcp_input_seg ?j k a (wire_hdr s) (seg_data s @ packet g @ t) = Some (k1, a1)"
    "kcp_wf k1" "unat (ackcount k1) \<le> unat (ackcount k) + 1"
    using input_seg_wf [OF assms(1,4) h] by blast
  have "conv k1 = conv k" using shrunk_input_seg [OF k1(1)] by (simp add: shrunk_def)
  moreover have "ikcp_input_loop junk k a (packet (s # g) @ t) (int (length (packet (s # g)) + m)) =
      ikcp_input_loop junk k1 a1 (packet g @ t) (int (length (packet g) + m))"
    using input_loop_encoded_rest [OF assms(2), of "seg_data s" "length (packet g) + m" "packet g @ t" junk a] len k1(1) m
    unfolding l p by simp
  ultimately show ?thesis using k1 by blast
qed

text \<open>Whole segments, and then \<open>m\<close> bytes of something else.\<close>

lemma loop_walk_tail:
  assumes "inv k (g @ rest)" and "kcp_wf k" and "\<forall>s \<in> set g. proper_seg k s \<and> seg_ok s"
    and "unat (ackcount k) + length (g @ rest) \<le> 2147483648" and "m \<le> length t"
  shows "\<exists>k' a'. ikcp_input_loop junk k a (packet g @ t) (int (length (packet g) + m)) = ikcp_input_loop junk k' a' t (int m) \<and>
    inv k' rest \<and> kcp_wf k' \<and> conv k' = conv k \<and> unat (ackcount k') + length rest \<le> 2147483648"
  using assms(1-4)
proof (induction g arbitrary: k a)
  case Nil
  then show ?case by auto
next
  case (Cons s g)
  have s: "proper_seg k s" "seg_ok s" "unat (ackcount k) < 2147483648" using Cons.prems by simp_all
  from loop_step [OF Cons.prems(2) s assms(5), of a g junk] obtain j k1 a1 where k1:
    "ikcp_input_seg j k a (wire_hdr s) (seg_data s @ packet g @ t) = Some (k1, a1)"
    "kcp_wf k1" "conv k1 = conv k" "unat (ackcount k1) \<le> unat (ackcount k) + 1"
    "ikcp_input_loop junk k a (packet (s # g) @ t) (int (length (packet (s # g)) + m)) =
      ikcp_input_loop junk k1 a1 (packet g @ t) (int (length (packet g) + m))" by blast
  have "inv k1 (g @ rest)" by (rule step [OF _ Cons.prems(2) s(1,2) k1(1)]) (use Cons.prems(1) in simp)
  moreover have "\<forall>t \<in> set g. proper_seg k1 t \<and> seg_ok t" using Cons.prems(3) k1(3) by (simp add: proper_seg_def)
  moreover have "unat (ackcount k1) + length (g @ rest) \<le> 2147483648" using Cons.prems(4) k1(4) by simp
  ultimately show ?case using Cons.IH [OF _ k1(2), of a1] k1(3,5) by simp
qed

lemma loop_walk:
  assumes "inv k (g @ rest)" and "kcp_wf k" and "\<forall>s \<in> set g. proper_seg k s \<and> seg_ok s"
    and "unat (ackcount k) + length (g @ rest) \<le> 2147483648"
  shows "\<exists>k' a'. ikcp_input_loop junk k a (packet g) (int (length (packet g))) = Some (0, k', a') \<and>
    inv k' rest \<and> kcp_wf k' \<and> conv k' = conv k \<and> unat (ackcount k') + length rest \<le> 2147483648"
  using loop_walk_tail [OF assms, of 0 "[]" junk a] by (auto simp: ikcp_input_loop.simps [of junk _ _ "[]"])

text \<open>
  A datagram that is cut inside of the data of a segment: the whole segments before it have their effect, and the
  call reports an error.
\<close>

lemma input_cut:
  assumes "inv k (g @ rest)" and "kcp_wf k" and "\<forall>s \<in> set g. proper_seg k s \<and> seg_ok s"
    and "unat (ackcount k) + length (g @ rest) \<le> 2147483648" and s: "proper_seg k s" "seg_ok s"
    and n: "24 \<le> n" "n < length (packed s)" and len: "length (packet g) + n < 2147483648"
  shows "\<exists>k'. ikcp_input junk k (Some (packet g @ take n (packed s) @ past)) (int (length (packet g) + n)) = Some (-2, k') \<and>
    inv k' rest \<and> kcp_wf k'"
proof -
  let ?t = "take n (packed s) @ past"
  have "n \<le> length ?t" using n(2) by simp
  from loop_walk_tail [OF assms(1-4) this] obtain k1 a1 where k1:
    "ikcp_input_loop junk k \<lparr>ack_flag = False, ack_maxack = 0, ack_latest_ts = 0\<rparr> (packet g @ ?t) (int (length (packet g) + n)) =
      ikcp_input_loop junk k1 a1 ?t (int n)" "inv k1 rest" "kcp_wf k1" "conv k1 = conv k" by blast
  have data: "?t = ikcp_encode_seg [] s @ take (n - 24) (seg_data s) @ past"
    using n(1) by (simp add: packed_def)
  have c: "ikcp_decode32u ?t = Some (conv k1, drop 4 ?t)"
    using s(1) k1(4) unfolding data encode_seg_fields append_assoc
    by (subst f32.dec_enc_nil) (simp add: proper_seg_def f32.enc_length)
  have h: "ikcp_decode_hdr ?t = Some (wire_hdr s, take (n - 24) (seg_data s) @ past)"
    unfolding data by (rule decode_hdr_encode_seg)
  have "int n - 24 < int (unat (hdr_len (wire_hdr s)))"
    using n s(2) by (simp add: wire_hdr_def seg_ok_def length_packed)
  then have "ikcp_input_loop junk k1 a1 ?t (int n) = Some (-2, k1, a1)"
    using n(1) by (subst ikcp_input_loop.simps) (simp add: c h)
  then show ?thesis using k1 n(1) len by (simp add: ikcp_input_def Let_def s32_id kcp_defs)
qed

lemma input_walk:
  assumes "inv k (g @ rest)" and "kcp_wf k" and "\<forall>s \<in> set g. proper_seg k s \<and> seg_ok s"
    and "unat (ackcount k) + length (g @ rest) \<le> 2147483648" and "g \<noteq> []" and "length (packet g) < 2147483648"
  shows "\<exists>k'. ikcp_input junk k (Some (packet g)) (int (length (packet g))) = Some (0, k') \<and>
    inv k' rest \<and> kcp_wf k' \<and> conv k' = conv k \<and> unat (ackcount k') + length rest \<le> 2147483648"
proof -
  obtain k1 a1 where k1: "ikcp_input_loop junk k \<lparr>ack_flag = False, ack_maxack = 0, ack_latest_ts = 0\<rparr> (packet g)
      (int (length (packet g))) = Some (0, k1, a1)" "inv k1 rest" "kcp_wf k1" "conv k1 = conv k"
    "unat (ackcount k1) + length rest \<le> 2147483648"
    using loop_walk [OF assms(1-4)] by blast
  have "24 \<le> length (packet g)" using assms(5) by (cases g) (simp_all add: packet_def length_packed)
  then have "\<not> s32 (int (length (packet g))) < sint IKCP_OVERHEAD"
    using assms(6) by (simp add: s32_id kcp_defs)
  moreover have "ackcount (ikcp_input_cwnd p k) = ackcount k" "ackcount (ikcp_parse_fastack k m t) = ackcount k" for p m t k
    by (simp_all add: ikcp_input_cwnd_def ikcp_parse_fastack_def Let_def)
  ultimately show ?thesis
    using k1 fastack grow input_cwnd_wf parse_fastack_wf by (simp add: ikcp_input_def Let_def)
qed

lemma deliver_walk:
  assumes "inv k (concat groups @ rest)" and "kcp_wf k" and "\<forall>s \<in> set (concat groups). proper_seg k s \<and> seg_ok s"
    and "unat (ackcount k) + length (concat groups @ rest) \<le> 2147483648"
    and "[] \<notin> set groups" and "\<forall>g \<in> set groups. length (packet g) < 2147483648"
  shows "\<exists>k'. deliver junk k (map packet groups) = Some k' \<and> inv k' rest \<and> kcp_wf k' \<and> conv k' = conv k \<and>
    unat (ackcount k') + length rest \<le> 2147483648"
  using assms
proof (induction groups arbitrary: k)
  case Nil
  then show ?case by simp
next
  case (Cons g groups)
  have "\<exists>k'. ikcp_input junk k (Some (packet g)) (int (length (packet g))) = Some (0, k') \<and>
      inv k' (concat groups @ rest) \<and> kcp_wf k' \<and> conv k' = conv k \<and>
      unat (ackcount k') + length (concat groups @ rest) \<le> 2147483648"
    using Cons.prems by (intro input_walk) auto
  then obtain k1 where k1: "ikcp_input junk k (Some (packet g)) (int (length (packet g))) = Some (0, k1)"
    "inv k1 (concat groups @ rest)" "kcp_wf k1" "conv k1 = conv k"
    "unat (ackcount k1) + length (concat groups @ rest) \<le> 2147483648" by blast
  have "\<forall>s \<in> set (concat groups). proper_seg k1 s \<and> seg_ok s" using Cons.prems(3) k1(4) by (simp add: proper_seg_def)
  then show ?case using Cons.IH [OF k1(2,3) _ k1(5)] Cons.prems(5,6) k1(1,4) by simp
qed

end

section \<open>What arrives at the receiver\<close>

text \<open>Whatever arrives, the receive queue grows at its end and waiting acknowledgements stay.\<close>

definition extends :: "kcpcb \<Rightarrow> kcpcb \<Rightarrow> bool" where
  "extends k k' \<longleftrightarrow> (\<exists>d. rcv_queue k' = rcv_queue k @ d \<and> rcv_nxt k' = rcv_nxt k + of_nat (length d)) \<and>
     unat (ackcount k) \<le> unat (ackcount k')"

lemma extends_same: "rcv_view k' = rcv_view k \<Longrightarrow> ackcount k' = ackcount k \<Longrightarrow> extends k k'"
  by (auto simp: extends_def rcv_view_def intro: exI [of _ "[]"])

lemma extends_trans: "extends k k1 \<Longrightarrow> extends k1 k2 \<Longrightarrow> extends k k2"
  by (auto simp: extends_def add.assoc)

lemma extends_parse_data: "extends k (ikcp_parse_data k s)"
proof -
  have mv: "extends k (ikcp_move_ready k)" for k
    using move_ready_spec [of k] by (auto simp: extends_def)
  have "extends k (k\<lparr>rcv_buf := b, nrcv_buf := n\<rparr>)" for b n by (simp add: extends_def)
  then have "extends k (ikcp_move_ready (k\<lparr>rcv_buf := b, nrcv_buf := n\<rparr>))" for b n
    using mv extends_trans by blast
  then show ?thesis using mv [of k] extends_same [of k k]
    by (auto simp: ikcp_parse_data_def Let_def split: prod.split)
qed

lemma extends_ack_push:
  assumes "ikcp_ack_push k sn ts = Some k'" and "kcp_wf k"
  shows "extends k k' \<and> rcv_wnd k' = rcv_wnd k \<and> ackcount k' = ackcount k + 1 \<and> rcv_view k' = rcv_view k"
proof -
  have "unat (ackcount k) \<le> 2147483648"
    using kcp_wfD(4) [OF assms(2)] by (simp add: ack_wf_def word_le_nat_alt)
  then have "unat (ackcount k) \<le> unat (ackcount k + 1)" by (simp add: unat_word_ariths)
  moreover have "rcv_wnd k' = rcv_wnd k \<and> ackcount k' = ackcount k + 1"
    using assms(1) by (auto simp: ikcp_ack_push_def Let_def bind_eq_Some_conv split: if_splits)
  ultimately show ?thesis using ack_push_view [OF assms(1)] by (auto simp: extends_def rcv_view_def intro: exI [of _ "[]"])
qed

lemma extends_push1: "ikcp_ack_push k sn ts = Some k' \<Longrightarrow> kcp_wf k \<Longrightarrow> extends k k'"
  using extends_ack_push by blast

lemma extends_refl [simp]: "extends k k"
  by (rule extends_same) simp_all

lemma extends_push: "ikcp_input_push junk k h d = Some k' \<Longrightarrow> kcp_wf k \<Longrightarrow> extends k k'"
  by (auto simp: ikcp_input_push_def Let_def bind_eq_Some_conv split: if_splits
      intro: extends_push1 extends_trans [OF extends_push1 extends_parse_data])

text \<open>The first steps of a segment: the window, the cumulative acknowledgement.\<close>

definition una_done :: "kcpcb \<Rightarrow> ikcphdr \<Rightarrow> kcpcb" where
  "una_done k h = ikcp_shrink_buf (ikcp_parse_una (k\<lparr>rmt_wnd := ucast (hdr_wnd h)\<rparr>) (hdr_una h))"

lemma una_done_wf: "kcp_wf k \<Longrightarrow> kcp_wf (una_done k h)"
  unfolding una_done_def by (intro parse_una_wf kcp_wf_rmt_wnd unat_wnd)

lemma rcv_wnd_simps [simp]:
  "rcv_wnd (ikcp_shrink_buf k) = rcv_wnd k" "rcv_wnd (ikcp_parse_ack k sn) = rcv_wnd k"
  "rcv_wnd (ikcp_update_ack k rtt) = rcv_wnd k" "rcv_wnd (ikcp_parse_una k una) = rcv_wnd k"
  by (simp_all add: ikcp_shrink_buf_def ikcp_parse_ack_def ikcp_parse_una_def split: list.split prod.split)
    (use update_ack_frame [of k rtt] in auto)

lemma una_done_fields:
  "rcv_view (una_done k h) = rcv_view k" "rcv_wnd (una_done k h) = rcv_wnd k" "ackcount (una_done k h) = ackcount k"
  "conv (una_done k h) = conv k"
  by (simp_all add: una_done_def)

lemma input_ack_wnd: "ikcp_input_ack k a sn ts = (k', a') \<Longrightarrow> rcv_wnd k' = rcv_wnd k \<and> ackcount k' = ackcount k"
  using ackcount_frame(4) [of k a sn ts] by (auto simp: ikcp_input_ack_def Let_def)

lemma input_seg_cases:
  assumes "ikcp_input_seg j k a (wire_hdr s) d = Some (k', a')" and "proper_seg k s"
  obtains
    (ack) "seg_cmd s = IKCP_CMD_ACK" "ikcp_input_ack (una_done k (wire_hdr s)) a (seg_sn s) (seg_ts s) = (k', a')"
  | (push) "seg_cmd s = IKCP_CMD_PUSH" "ikcp_input_push j (una_done k (wire_hdr s)) (wire_hdr s) d = Some k'"
  | (probe) p where "seg_cmd s \<noteq> IKCP_CMD_PUSH" "k' = una_done k (wire_hdr s)\<lparr>probe := p\<rparr>"
proof -
  have cmd: "(ucast (hdr_cmd (wire_hdr s)) :: u32) = seg_cmd s"
    using assms(2) by (intro cmd_on_wire) (simp add: proper_seg_def)
  have h: "hdr_sn (wire_hdr s) = seg_sn s" "hdr_ts (wire_hdr s) = seg_ts s" by (simp_all add: wire_hdr_def)
  let ?u = "una_done k (wire_hdr s)"
  have same: "?u = ?u\<lparr>probe := probe ?u\<rparr>" by simp
  consider "seg_cmd s = IKCP_CMD_ACK" "ikcp_input_ack ?u a (seg_sn s) (seg_ts s) = (k', a')"
    | "seg_cmd s = IKCP_CMD_PUSH" "ikcp_input_push j ?u (wire_hdr s) d = Some k'"
    | "seg_cmd s \<noteq> IKCP_CMD_PUSH" "k' = ?u \<or> k' = ?u\<lparr>probe := probe ?u OR IKCP_ASK_TELL\<rparr>"
    using assms(1) unfolding ikcp_input_seg_def Let_def una_done_def [symmetric] cmd h
    by (auto split: if_splits)
  then show thesis
  proof cases
    case 3
    from 3(2) show ?thesis
    proof
      assume "k' = ?u"
      then show thesis using probe [OF 3(1), of "probe ?u"] same by (simp only:)
    qed (rule probe [OF 3(1)])
  qed (use ack push in blast)+
qed

lemma extends_input_seg:
  assumes "ikcp_input_seg j k a (wire_hdr s) d = Some (k', a')" and "proper_seg k s" and "kcp_wf k"
  shows "extends k k'"
proof -
  let ?u = "una_done k (wire_hdr s)"
  have u: "extends k ?u" by (rule extends_same) (simp_all add: una_done_fields)
  from assms(1,2) have "extends ?u k'"
  proof (cases rule: input_seg_cases)
    case ack
    then show ?thesis using input_ack_view [OF ack(2)] input_ack_wnd [OF ack(2)] by (intro extends_same) simp_all
  next
    case push
    then show ?thesis using extends_push una_done_wf [OF assms(3)] by blast
  next
    case (probe p)
    then show ?thesis by (intro extends_same) simp_all
  qed
  with u show ?thesis by (rule extends_trans)
qed

text \<open>A segment with the number that the receiver waits for goes to the receive queue, if there is room.\<close>

lemma window_first:
  assumes "window_sorted r buf" and "t \<in> set buf" and "seg_sn t = r"
  shows "\<exists>rest. buf = t # rest"
proof (cases buf)
  case Nil
  then show ?thesis using assms(2) by simp
next
  case (Cons x rest)
  have "seqoff r (seg_sn t) = 0" by (simp add: assms(3) seqoff_def)
  then have "t \<notin> set rest" using assms(1) Cons by (auto simp: window_sorted_Cons)
  then show ?thesis using assms(2) Cons by simp
qed

lemma parse_data_next:
  assumes wf: "kcp_wf k" and sn: "seg_sn t = rcv_nxt k" and stuck: "ready_stuck k" and room: "nrcv_que k < rcv_wnd k"
  shows "\<exists>xs. rcv_queue (ikcp_parse_data k t) = rcv_queue k @ t # xs \<and>
    rcv_nxt (ikcp_parse_data k t) = rcv_nxt k + of_nat (Suc (length xs))"
proof -
  have rc: "rcv_core k" using wf by (rule kcp_wfD)
  have w: "window_sorted (rcv_nxt k) (rcv_buf k)" using rc by (simp add: rcv_core_def)
  have inw: "in_rcv_window k (seg_sn t)" using rc by (simp add: in_rcv_window_def sn seqoff_def rcv_core_def)
  have fresh: "seg_sn t \<notin> seg_sn ` set (rcv_buf k)"
  proof
    assume "seg_sn t \<in> seg_sn ` set (rcv_buf k)"
    then obtain x where "x \<in> set (rcv_buf k)" "seg_sn x = rcv_nxt k" using sn by auto
    from window_first [OF w this] this(2) show False using stuck room by (auto simp: ready_stuck_def)
  qed
  let ?k = "rcv_insert k t"
  have "\<exists>rest. rcv_buf ?k = t # rest \<and> rcv_queue ?k = rcv_queue k \<and> rcv_nxt ?k = rcv_nxt k \<and> nrcv_que ?k = nrcv_que k \<and> rcv_wnd ?k = rcv_wnd k"
    using rc inw
  proof (cases rule: insert_split)
    case 1
    then show ?thesis using fresh by simp
  next
    case (2 i)
    have "t \<in> set (rcv_buf ?k)" by (simp add: 2)
    moreover have "window_sorted (rcv_nxt k) (rcv_buf ?k)" using rcv_insert_facts(3) [OF rc inw] .
    ultimately obtain rest where "rcv_buf ?k = t # rest" using window_first sn by blast
    then show ?thesis by (simp add: 2)
  qed
  then obtain rest where b: "rcv_buf ?k = t # rest" "rcv_queue ?k = rcv_queue k" "rcv_nxt ?k = rcv_nxt k"
    "nrcv_que ?k = nrcv_que k" "rcv_wnd ?k = rcv_wnd k" by blast
  have "seg_sn t = rcv_nxt ?k" "nrcv_que ?k < rcv_wnd ?k" using sn room b by simp_all
  note m = move_ready_step [OF b(1) this]
  have "ikcp_parse_data k t = ikcp_move_ready ?k" using inw by (simp add: parse_data_eq [OF rc])
  then show ?thesis
    using move_ready_spec [of "?k\<lparr>rcv_buf := rest, nrcv_buf := nrcv_buf ?k - 1, rcv_queue := rcv_queue ?k @ [t],
      nrcv_que := nrcv_que ?k + 1, rcv_nxt := rcv_nxt ?k + 1\<rparr>"]
    unfolding m by (auto simp: b add.assoc)
qed

text \<open>The receiver \<open>r\<close> waits for the data segment \<open>s\<close> and has room for it.\<close>

definition awaits :: "ikcpseg \<Rightarrow> kcpcb \<Rightarrow> bool" where
  "awaits s r \<longleftrightarrow> kcp_wf r \<and> seg_cmd s = IKCP_CMD_PUSH \<and> seg_sn s = rcv_nxt r \<and> ready_stuck r \<and> nrcv_que r < rcv_wnd r"

definition taken :: "ikcpseg \<Rightarrow> kcpcb \<Rightarrow> kcpcb \<Rightarrow> bool" where
  "taken s r k \<longleftrightarrow> (\<exists>t xs. rcv_queue k = rcv_queue r @ t # xs \<and> seg_data t = seg_data s \<and>
       rcv_nxt k = rcv_nxt r + of_nat (Suc (length xs))) \<and> 0 < unat (ackcount k)"

definition arrives :: "ikcpseg \<Rightarrow> kcpcb \<Rightarrow> kcpcb \<Rightarrow> ikcpseg list \<Rightarrow> bool" where
  "arrives s r k segs \<longleftrightarrow> awaits s r \<and>
     ((\<exists>pre post. segs = pre @ s # post \<and> list_all (control_seg (conv r)) pre) \<and> rcv_view k = rcv_view r \<and> rcv_wnd k = rcv_wnd r \<or>
      taken s r k)"

lemma taken_extends: "taken s r k \<Longrightarrow> extends k k' \<Longrightarrow> taken s r k'"
proof -
  assume "taken s r k" and e: "extends k k'"
  then obtain t xs where t: "rcv_queue k = rcv_queue r @ t # xs" "seg_data t = seg_data s"
    "rcv_nxt k = rcv_nxt r + of_nat (Suc (length xs))" "0 < unat (ackcount k)" by (auto simp: taken_def)
  obtain d where d: "rcv_queue k' = rcv_queue k @ d" "rcv_nxt k' = rcv_nxt k + of_nat (length d)"
    "unat (ackcount k) \<le> unat (ackcount k')" using e by (auto simp: extends_def)
  have "rcv_queue k' = rcv_queue r @ t # (xs @ d)" "rcv_nxt k' = rcv_nxt r + of_nat (Suc (length (xs @ d)))"
    using t d by (simp_all add: add.assoc)
  then show "taken s r k'" using t(2,4) d(3) unfolding taken_def by (metis order_less_le_trans)
qed

lemma taken_now:
  assumes aw: "awaits s r" and wf: "kcp_wf k" and view: "rcv_view k = rcv_view r" "rcv_wnd k = rcv_wnd r"
    and len: "unat (hdr_len (wire_hdr s)) = length (seg_data s)" "length (seg_data s) < 2147483648"
    and p: "ikcp_input_push j k (wire_hdr s) (seg_data s @ d) = Some k'"
  shows "taken s r k'"
proof -
  have same: "rcv_nxt k = rcv_nxt r" "rcv_queue k = rcv_queue r" "rcv_buf k = rcv_buf r"
    using view(1) by (simp_all add: rcv_view_def)
  have "unat (nrcv_que k) = unat (nrcv_que r)"
    using kcp_wfD(3) [OF wf] aw same(2) by (simp add: awaits_def kcp_wf_def rcv_core_def)
  then have que: "nrcv_que k = nrcv_que r" by (simp only: word_unat_eq_iff)
  have sn: "hdr_sn (wire_hdr s) = rcv_nxt k" using aw same(1) by (simp add: wire_hdr_def awaits_def)
  have w: "unat (rcv_wnd k) < 2147483648" "0 < unat (rcv_wnd k)" using kcp_wfD(3) [OF wf] by (simp_all add: rcv_core_def)
  have c: "itimediff (rcv_nxt k) (rcv_nxt k + rcv_wnd k) < 0" "itimediff (rcv_nxt k) (rcv_nxt k) \<ge> 0"
    using rcv_window_iff [OF w(1), of "rcv_nxt k" "rcv_nxt k"] w(2) by (simp_all add: seqoff_def not_le)
  obtain k1 where k1: "ikcp_ack_push k (rcv_nxt k) (hdr_ts (wire_hdr s)) = Some k1"
    and rest: "(if itimediff (rcv_nxt k) (rcv_nxt k1) \<ge> 0 then Option.bind (ikcp_input_newseg j (wire_hdr s) (seg_data s @ d))
      (\<lambda>seg. Some (ikcp_parse_data k1 seg)) else Some k1) = Some k'"
    using p unfolding ikcp_input_push_def Let_def sn if_P [OF c(1)] bind_eq_Some_conv by blast
  have n1: "rcv_nxt k1 = rcv_nxt k" using extends_ack_push [OF k1 wf] by (simp add: rcv_view_def)
  obtain t where t: "ikcp_input_newseg j (wire_hdr s) (seg_data s @ d) = Some t" and k': "k' = ikcp_parse_data k1 t"
    using rest unfolding n1 if_P [OF c(2)] bind_eq_Some_conv option.inject by blast
  have e: "rcv_view k1 = rcv_view k" "rcv_wnd k1 = rcv_wnd k" "ackcount k1 = ackcount k + 1"
    using extends_ack_push [OF k1 wf] by simp_all
  have wf1: "kcp_wf k1" by (rule ack_push_wf [OF wf k1])
  have v1: "rcv_nxt k1 = rcv_nxt k" "rcv_queue k1 = rcv_queue k" "rcv_buf k1 = rcv_buf k"
    using e(1) by (simp_all add: rcv_view_def)
  have "unat (nrcv_que k1) = unat (nrcv_que k)"
    using kcp_wfD(3) [OF wf] kcp_wfD(3) [OF wf1] v1(2) by (simp add: rcv_core_def)
  then have "nrcv_que k1 = nrcv_que k" by (simp only: word_unat_eq_iff)
  then have st: "ready_stuck k1" "nrcv_que k1 < rcv_wnd k1"
    using aw que e(2) v1 same view(2) by (auto simp: awaits_def ready_stuck_def)
  have tf: "seg_sn t = rcv_nxt k1" "seg_data t = seg_data s"
    using newseg_fields [OF t] newseg_data [OF t len] sn v1(1) by simp_all
  have "unat (ackcount k) \<le> 2147483648"
    using kcp_wfD(4) [OF wf] by (simp add: ack_wf_def word_le_nat_alt)
  then have "0 < unat (ackcount k1)" by (simp add: e(3) unat_word_ariths)
  moreover obtain xs where "rcv_queue k' = rcv_queue k1 @ t # xs" "rcv_nxt k' = rcv_nxt k1 + of_nat (Suc (length xs))"
    using parse_data_next [OF wf1 tf(1) st] by (auto simp: k')
  ultimately show ?thesis unfolding taken_def using tf(2) v1 same by (auto simp: k')
qed

interpretation receiver: packet_walk "arrives s r" for s r
proof unfold_locales
  fix k x segs j a d k' a'
  assume arr: "arrives s r k (x # segs)" and wf: "kcp_wf k" and x: "proper_seg k x" "seg_ok x"
    and i: "ikcp_input_seg j k a (wire_hdr x) (seg_data x @ d) = Some (k', a')"
  have aw: "awaits s r" using arr by (simp add: arrives_def)
  let ?u = "una_done k (wire_hdr x)"
  show "arrives s r k' segs"
  proof (cases "taken s r k")
    case True
    then show ?thesis using taken_extends extends_input_seg [OF i x(1) wf] aw by (simp add: arrives_def)
  next
    case False
    then obtain pre post where w: "x # segs = pre @ s # post" "list_all (control_seg (conv r)) pre"
      "rcv_view k = rcv_view r" "rcv_wnd k = rcv_wnd r" using arr by (auto simp: arrives_def)
    have u: "rcv_view ?u = rcv_view r" "rcv_wnd ?u = rcv_wnd r" using w by (simp_all add: una_done_fields)
    show ?thesis
    proof (cases pre)
      case Nil
      then have xs: "x = s" using w(1) by simp
      have l: "unat (hdr_len (wire_hdr s)) = length (seg_data s)" "length (seg_data s) < 2147483648"
        using x by (simp_all add: xs wire_hdr_def seg_ok_def proper_seg_def)
      from i x(1) show ?thesis
      proof (cases rule: input_seg_cases)
        case push
        then show ?thesis using taken_now [OF aw una_done_wf [OF wf] u l] xs aw by (simp add: arrives_def)
      qed (use aw xs in \<open>simp_all add: awaits_def kcp_defs\<close>)
    next
      case (Cons c pre')
      then have c: "control_seg (conv r) x" "list_all (control_seg (conv r)) pre'" "segs = pre' @ s # post"
        using w(1,2) by simp_all
      from i x(1) have "rcv_view k' = rcv_view r \<and> rcv_wnd k' = rcv_wnd r"
      proof (cases rule: input_seg_cases)
        case ack
        then show ?thesis using input_ack_view [OF ack(2)] input_ack_wnd [OF ack(2)] u by simp
      next
        case push
        then show ?thesis using c(1) by (simp add: control_seg_def kcp_defs)
      next
        case (probe p)
        then show ?thesis using u by simp
      qed
      then show ?thesis using c aw by (auto simp: arrives_def)
    qed
  qed
next
  fix k segs sn ts
  assume "arrives s r k segs"
  then show "arrives s r (ikcp_parse_fastack k sn ts) segs"
    by (auto simp: arrives_def taken_def ikcp_parse_fastack_def rcv_view_def)
next
  fix k segs prev
  assume "arrives s r k segs"
  moreover have "rcv_wnd (ikcp_input_cwnd prev k) = rcv_wnd k" "ackcount (ikcp_input_cwnd prev k) = ackcount k"
    by (simp_all add: ikcp_input_cwnd_def Let_def)
  moreover have "rcv_view (ikcp_input_cwnd prev k) = rcv_view k" by simp
  ultimately show "arrives s r (ikcp_input_cwnd prev k) segs"
    by (auto simp: arrives_def taken_def rcv_view_def)
qed

end
