(* ===== verification/Kcp_Round.thy ===== *)
theory Kcp_Round
  imports Kcp_Progress
begin

text \<open>
  A round over a network that delivers: the sender flushes, the receiver takes the datagrams and flushes, and the
  sender takes those. The contract of \<open>packet_walk\<close> is interpreted for the sender, whose oldest number leaves the
  send buffer, as it was for the receiver, whose queue grows.
\<close>

section \<open>What the acknowledgement does at the sender\<close>

text \<open>
  The number \<open>sn\<close> is about to leave the send buffer of a block that was \<open>k0\<close>: it is gone, or the next segment
  that comes in acknowledges all numbers below a later one and \<open>sn\<close> is the oldest in flight.
\<close>

definition leaves :: "kcpcb \<Rightarrow> u32 \<Rightarrow> kcpcb \<Rightarrow> ikcpseg list \<Rightarrow> bool" where
  "leaves k0 sn k segs \<longleftrightarrow> shrunk k0 k \<and>
     (sn \<notin> seg_sn ` set (snd_buf k) \<or>
      (\<exists>a post. segs = a # post \<and> 0 < itimediff (seg_una a) sn \<and> snd_una k = sn))"

lemma shrunk_una_done: "shrunk k (una_done k h)"
  unfolding una_done_def by (rule shrunk_trans [OF shrunk_trans [OF shrunk_ops(7) shrunk_ops(1)] shrunk_ops(2)])

lemma shrunk_after_una:
  assumes "ikcp_input_seg j k a (wire_hdr s) d = Some (k', a')" and "proper_seg k s"
  shows "shrunk (una_done k (wire_hdr s)) k'"
  using assms
proof (cases rule: input_seg_cases)
  case ack
  then show ?thesis using shrunk_input_ack by blast
next
  case push
  then show ?thesis using shrunk_input_push by blast
next
  case (probe p)
  then show ?thesis using shrunk_ops(8) by simp
qed

lemma shrunk_sn: "shrunk k k' \<Longrightarrow> seg_sn ` set (snd_buf k') \<subseteq> seg_sn ` set (snd_buf k)"
proof
  fix x assume sh: "shrunk k k'" and "x \<in> seg_sn ` set (snd_buf k')"
  then obtain s where s: "s \<in> set (snd_buf k')" "x = seg_sn s" by blast
  then have "seg_id s \<in> seg_id ` set (snd_buf k)" using sh by (auto simp: shrunk_def)
  then show "x \<in> seg_sn ` set (snd_buf k)" using s(2) by (auto simp: seg_id_def)
qed

lemma oldest_acked:
  assumes wf: "kcp_wf k" and una: "snd_una k = sn" and ack: "0 < itimediff (hdr_una h) sn"
  shows "sn \<notin> seg_sn ` set (snd_buf (una_done k h))"
proof
  assume "sn \<in> seg_sn ` set (snd_buf (una_done k h))"
  let ?k = "k\<lparr>rmt_wnd := ucast (hdr_wnd h)\<rparr>"
  have wf': "kcp_wf ?k" by (rule kcp_wf_rmt_wnd [OF wf unat_wnd])
  have "snd_buf (una_done k h) = dropWhile (\<lambda>s. itimediff (hdr_una h) (seg_sn s) > 0) (snd_buf k)"
    using parse_una_eq [OF wf', of "hdr_una h"] by (simp add: una_done_def ikcp_shrink_buf_def Let_def split: list.split)
  then obtain s where s: "s \<in> set (dropWhile (\<lambda>s. itimediff (hdr_una h) (seg_sn s) > 0) (snd_buf k))" "seg_sn s = sn"
    using \<open>sn \<in> _\<close> by auto
  have w: "window_sorted sn (snd_buf k)" using kcp_wfD(1) [OF wf] una by (simp add: snd_core_def)
  obtain rest where "snd_buf k = s # rest" using window_first [OF w set_dropWhileD [OF s(1)] s(2)] by blast
  moreover have "s \<notin> set rest" using w calculation by (auto simp: window_sorted_Cons)
  ultimately show False using s ack by (auto dest: set_dropWhileD)
qed

lemma leaves_keep:
  assumes "leaves k0 sn k segs" and "shrunk k k'" and "snd_una k' = snd_una k"
  shows "leaves k0 sn k' segs"
proof -
  have "shrunk k0 k'" using assms(1) shrunk_trans [OF _ assms(2)] by (simp add: leaves_def)
  moreover have "sn \<notin> seg_sn ` set (snd_buf k')" if "sn \<notin> seg_sn ` set (snd_buf k)"
    using that shrunk_sn [OF assms(2)] by blast
  ultimately show ?thesis using assms(1,3) unfolding leaves_def by metis
qed

interpretation sender: packet_walk "leaves k0 sn" for k0 sn
proof unfold_locales
  fix k s segs j a d k' a'
  assume l: "leaves k0 sn k (s # segs)" and wf: "kcp_wf k" and p: "proper_seg k s" and "seg_ok s"
    and i: "ikcp_input_seg j k a (wire_hdr s) (seg_data s @ d) = Some (k', a')"
  have sh: "shrunk k0 k'" using l shrunk_trans [OF _ shrunk_input_seg [OF i]] by (simp add: leaves_def)
  have "sn \<notin> seg_sn ` set (snd_buf k')"
  proof (cases "sn \<in> seg_sn ` set (snd_buf k)")
    case False
    then show ?thesis using shrunk_sn [OF shrunk_input_seg [OF i]] by blast
  next
    case True
    then have "0 < itimediff (hdr_una (wire_hdr s)) sn" "snd_una k = sn"
      using l by (auto simp: leaves_def wire_hdr_def)
    then show ?thesis using oldest_acked [OF wf] shrunk_sn [OF shrunk_after_una [OF i p]] by blast
  qed
  then show "leaves k0 sn k' segs" using sh by (simp add: leaves_def)
next
  fix k segs m ts
  assume "leaves k0 sn k segs"
  then show "leaves k0 sn (ikcp_parse_fastack k m ts) segs"
    by (rule leaves_keep [OF _ shrunk_ops(4)]) (simp add: ikcp_parse_fastack_def)
next
  fix k segs prev
  assume "leaves k0 sn k segs"
  then show "leaves k0 sn (ikcp_input_cwnd prev k) segs"
    by (rule leaves_keep [OF _ shrunk_ops(6)]) (simp add: ikcp_input_cwnd_def Let_def)
qed

section \<open>The clock setting stays\<close>

lemma updated_simps [simp]:
  "updated (una_done k h) = updated k" "updated (ikcp_parse_fastack k m ts) = updated k"
  "updated (ikcp_input_cwnd prev k) = updated k" "updated (ikcp_update_ack k rtt) = updated k"
  "updated (ikcp_parse_ack k m) = updated k" "updated (ikcp_shrink_buf k) = updated k"
  by (auto simp: una_done_def ikcp_parse_una_def ikcp_shrink_buf_def ikcp_parse_ack_def ikcp_parse_fastack_def
      ikcp_update_ack_def ikcp_input_cwnd_def Let_def split: prod.split list.split)

lemma updated_parse_data: "updated (ikcp_parse_data k s) = updated k"
proof -
  have mv: "updated (ikcp_move_ready k) = updated k" for k using move_ready_spec [of k] by auto
  have "updated (ikcp_move_ready (k\<lparr>rcv_buf := b, nrcv_buf := n\<rparr>)) = updated k" for b n
    by (simp add: mv)
  then show ?thesis by (simp add: ikcp_parse_data_def Let_def mv split: prod.split)
qed

lemma updated_push: "ikcp_input_push j k h d = Some k' \<Longrightarrow> updated k' = updated k"
  by (auto simp: ikcp_input_push_def ikcp_ack_push_def Let_def bind_eq_Some_conv updated_parse_data split: if_splits)

interpretation ticking: packet_walk "\<lambda>k segs. updated k = u" for u
proof unfold_locales
  fix k s segs j a d k' a'
  assume u: "updated k = u" and p: "proper_seg k s" and i: "ikcp_input_seg j k a (wire_hdr s) (seg_data s @ d) = Some (k', a')"
  from i p show "updated k' = u"
  proof (cases rule: input_seg_cases)
    case ack
    then show ?thesis using u by (auto simp: ikcp_input_ack_def Let_def split: if_splits)
  next
    case push
    then show ?thesis using u by (simp add: updated_push)
  next
    case (probe p)
    then show ?thesis using u by simp
  qed
qed simp_all

section \<open>What a flush sends\<close>

text \<open>Everything in flight is data of this connection.\<close>

definition flight_ok :: "kcpcb \<Rightarrow> bool" where
  "flight_ok k \<longleftrightarrow> (\<forall>s \<in> set (snd_buf k). seg_conv s = conv k \<and> seg_cmd s = IKCP_CMD_PUSH)"

lemma flight_shrunk:
  assumes "flight_ok k" and "shrunk k k'"
  shows "flight_ok k'"
  unfolding flight_ok_def
proof
  fix s assume "s \<in> set (snd_buf k')"
  then have "seg_id s \<in> seg_id ` set (snd_buf k)" using assms(2) by (auto simp: shrunk_def)
  then show "seg_conv s = conv k' \<and> seg_cmd s = IKCP_CMD_PUSH"
    using assms by (auto simp: flight_ok_def shrunk_def seg_id_def)
qed

lemma flight_flush:
  assumes "flight_ok k" and "kcp_wf k" and "ikcp_flush k = Inr (k', ps)"
  shows "flight_ok k' \<and> conv k' = conv k"
proof -
  obtain n news where ids: "map seg_id (snd_buf k') = map seg_id (snd_buf k) @ news" "conv k' = conv k"
    "news = map (\<lambda>i. (snd_nxt k + of_nat i, seg_data (snd_queue k ! i), seg_len (snd_queue k ! i), conv k, IKCP_CMD_PUSH)) [0..<n]"
    using flush_groups [OF assms(2,3)] by blast
  have "seg_conv s = conv k \<and> seg_cmd s = IKCP_CMD_PUSH" if "s \<in> set (snd_buf k')" for s
  proof -
    have "seg_id s \<in> set (map seg_id (snd_buf k) @ news)" using that ids(1) by (metis imageI list.set_map)
    then show ?thesis using assms(1) ids(3) by (auto simp: flight_ok_def seg_id_def)
  qed
  then show ?thesis using ids(2) by (simp add: flight_ok_def)
qed

lemma window_length:
  assumes "window_sorted r segs" and "\<forall>s \<in> set segs. seqoff r (seg_sn s) < n"
  shows "length segs \<le> n"
proof -
  let ?xs = "map (\<lambda>s. seqoff r (seg_sn s)) segs"
  have "distinct ?xs" using assms(1) strict_sorted_iff by (auto simp: window_sorted_def)
  then have "card (set ?xs) = length segs" by (simp only: distinct_card length_map)
  moreover have "set ?xs \<subseteq> {..<n}" using assms(2) by auto
  then have "card (set ?xs) \<le> n" using card_mono [of "{..<n}" "set ?xs"] by (simp only: card_lessThan finite_lessThan)
  ultimately show ?thesis by simp
qed

lemma flush_segs_length:
  assumes "kcp_wf k"
  shows "length (flush_segs k) \<le> unat (ackcount k) + 65537"
proof -
  have core: "snd_core (flush_moved k)" using flush_moved_wf [OF assms] by (rule kcp_wfD)
  have "length (snd_buf (flush_moved k)) \<le> 65535"
    using core by (intro window_length [of "snd_una (flush_moved k)"]) (auto simp: snd_core_def)
  then have "length (flush_due k) \<le> 65535"
    unfolding flush_due_def by (rule order_trans [OF length_filter_le])
  then show ?thesis
    by (simp add: flush_segs_def flush_acks_out_def flush_probes_out_def ask_segs_def ack_segs_def Let_def)
qed

text \<open>All segments are of the connection; the control segments come first.\<close>

lemma flush_controls:
  "list_all (control_seg (conv k)) (flush_acks_out k @ flush_probes_out k)"
proof -
  have seg: "control_seg (conv k) (ikcp_flush_seg k)" by (simp add: control_seg_def ikcp_flush_seg_def)
  then have acks: "list_all (control_seg (conv k)) (flush_acks_out k)"
    by (simp add: flush_acks_out_def ack_segs_def list_all_iff)
  then have "control_seg (conv k) (last (ikcp_flush_seg k # flush_acks_out k))"
    using seg by (cases "flush_acks_out k = []") (simp_all add: list_all_iff)
  then have "list_all (control_seg (conv k)) (flush_probes_out k)"
    by (auto simp: flush_probes_out_def ask_segs_def Let_def)
  with acks show ?thesis by simp
qed

lemma flush_after_buf: "snd_buf (flush_after k) = map (flush_next k) (snd_buf (flush_moved k))"
  by (simp add: flush_after_def Let_def ikcp_flush_finish_def)

lemma flush_after_una: "snd_una (flush_after k) = snd_una k"
  by (simp add: flush_after_def Let_def ikcp_flush_finish_def)

lemma flush_sends_proper:
  assumes ok: "endpoint_ok k" and fl: "flight_ok k" and f: "ikcp_flush k = Inr (flush_after k, ps)"
    and s: "s \<in> set (flush_segs k)" and r: "conv r = conv k"
  shows "proper_seg r s \<and> seg_ok s"
proof (cases "control_seg (conv k) s")
  case True
  then show ?thesis using r by (auto simp: proper_seg_def control_seg_def seg_ok_def)
next
  case False
  have wf: "kcp_wf k" using ok by (simp add: endpoint_ok_def)
  have "s \<notin> set (flush_acks_out k @ flush_probes_out k)" using flush_controls [of k] False by (auto simp: list_all_iff)
  then obtain x where x: "x \<in> set (snd_buf (flush_moved k))" "s = flush_next k x"
    using s by (auto simp: flush_segs_def flush_due_def)
  then have buf: "s \<in> set (snd_buf (flush_after k))" by (simp add: flush_after_buf)
  have e: "endpoint_ok (flush_after k)" by (rule endpoint_flush [OF ok f])
  have "kcp_wf (flush_after k)" "segs_fit (flush_after k)" "mtu (flush_after k) = 1400"
    using e by (simp_all add: endpoint_ok_def)
  then have "seg_ok s" "length (seg_data s) \<le> unat (mss (flush_after k))" "unat (mss (flush_after k)) < 2147483648"
    using buf kcp_wfD(5,6) [of "flush_after k"] by (auto simp: segs_fit_def segs_wf_def cfg_wf_def)
  then have "seg_ok s" "length (seg_data s) < 2147483648" by simp_all
  moreover have "seg_conv s = conv k" "seg_cmd s = IKCP_CMD_PUSH"
    using flight_flush [OF fl wf f] buf by (simp_all add: flight_ok_def)
  ultimately show ?thesis using r by (simp add: proper_seg_def seg_ok_def)
qed

lemma endpoint_ready:
  "endpoint_ok k \<Longrightarrow> updated k \<noteq> 0 \<Longrightarrow> unat (ackcount k) < 2147483648 \<Longrightarrow> flush_ready k"
  by (simp add: endpoint_ok_def flush_ready_def)

lemma endpoint_flushes:
  assumes "endpoint_ok k" and "updated k \<noteq> 0" and "unat (ackcount k) < 2147483648"
  obtains groups where "ikcp_flush k = Inr (flush_after k, map packet groups)" "concat groups = flush_segs k"
    "[] \<notin> set groups" "\<forall>g \<in> set groups. length (packet g) < 2147483648"
proof -
  have "mtu_of k = 1400" using assms(1) by (simp add: endpoint_ok_def)
  then show thesis using flush_ready_spec [OF endpoint_ready [OF assms]] that by fastforce
qed

lemma flush_after_acks: "ackcount (flush_after k) = 0"
  using flush_moved_frame [of k] by (auto simp: flush_after_def ikcp_flush_finish_def Let_def)

lemma endpoint_update_acks:
  assumes ok: "endpoint_ok k" and n: "unat (ackcount k) < 2147483648" and u: "ikcp_update k now = Inr (k', ps)"
  shows "unat (ackcount k') < 2147483648"
  using u
proof (cases rule: update_cases)
  case (1 u t)
  let ?k = "k\<lparr>current := now, updated := u, ts_flush := t\<rparr>"
  show ?thesis
  proof (cases "u = 0")
    case True
    then have "k' = ?k" using 1 by (simp add: ikcp_flush_def)
    then show ?thesis using n by simp
  next
    case False
    then obtain groups where "ikcp_flush ?k = Inr (flush_after ?k, map packet groups)"
      using endpoint_flushes [OF endpoint_clock [OF ok, where c = now and u = u and t = t]] n by auto
    then show ?thesis using 1 by (simp add: flush_after_acks)
  qed
next
  case (2 u t)
  then show ?thesis using n by simp
qed

lemma update_keeps_queue:
  assumes "ikcp_update k now = Inr (k', ps)" and "kcp_wf k"
  shows "rcv_queue k' = rcv_queue k"
  using other_receiver [of "Call_update now" k k'] assms by (simp add: rcv_view_def)

lemma deliver_endpoint:
  "deliver junk k ps = Some k' \<Longrightarrow> endpoint_ok k \<Longrightarrow> endpoint_ok k' \<and> shrunk k k'"
proof (induction ps arbitrary: k)
  case Nil
  then show ?case by simp
next
  case (Cons p ps)
  then obtain r k1 where i: "ikcp_input junk k (Some p) (int (length p)) = Some (r, k1)" "deliver junk k1 ps = Some k'"
    by (auto split: option.splits)
  then show ?case using Cons.IH [OF i(2) endpoint_input [OF Cons.prems(2) i(1)]] shrunk_trans [OF shrunk_input [OF i(1)]]
    by blast
qed

text \<open>When its oldest number has left the buffer, the sender has moved on.\<close>

lemma una_advances:
  assumes wf: "kcp_wf k" "kcp_wf k'" and sh: "shrunk k k'" and buf: "snd_buf k \<noteq> []"
    and gone: "snd_una k \<notin> seg_sn ` set (snd_buf k')"
  shows "0 < itimediff (snd_una k') (snd_una k)"
proof -
  have core: "snd_core k" using wf(1) by (rule kcp_wfD)
  have "hd (snd_buf k) \<in> set (snd_buf k)" using buf by simp
  then have nxt: "0 < seqoff (snd_una k) (snd_nxt k)" "seqoff (snd_una k) (snd_nxt k) \<le> 65535"
    using core by (auto simp: snd_core_def)
  have una: "snd_una k' = first_sn (snd_nxt k) (snd_buf k')"
    using kcp_wfD(2) [OF wf(2)] sh by (simp add: una_exact_def una_ok_def shrunk_def)
  have "0 < seqoff (snd_una k) (snd_una k') \<and> seqoff (snd_una k) (snd_una k') \<le> 65535"
  proof (cases "snd_buf k' = []")
    case True
    then show ?thesis using una nxt by (simp add: first_sn_def)
  next
    case False
    then have in': "snd_una k' \<in> seg_sn ` set (snd_buf k')" using una by (simp add: first_sn_def)
    then obtain s where "s \<in> set (snd_buf k)" "snd_una k' = seg_sn s" using shrunk_sn [OF sh] by blast
    then have "seqoff (snd_una k) (snd_una k') < seqoff (snd_una k) (snd_nxt k)" using core by (simp add: snd_core_def)
    moreover have "snd_una k' - snd_una k \<noteq> 0" using gone in' by auto
    then have "0 < seqoff (snd_una k) (snd_una k')" by (simp only: seqoff_def unat_gt_0 not_False_eq_True)
    ultimately show ?thesis using nxt(2) by simp
  qed
  then show ?thesis by (simp add: itimediff_seqoff)
qed

section \<open>One way\<close>

lemma flush_first:
  assumes buf: "snd_buf (flush_moved k) = s # rest" and due: "seg_due (flush_resent k) k s"
  shows "\<exists>post. flush_segs k = (flush_acks_out k @ flush_probes_out k) @ flush_next k s # post"
proof -
  have "fastlimit (flush_moved k) = fastlimit k" using flush_moved_frame [of k] by auto
  then have "seg_due (flush_resent k) (flush_moved k) s" using due by (simp add: seg_due_def seg_lost_def seg_fast_def)
  then show ?thesis by (simp add: flush_segs_def flush_due_def buf)
qed

text \<open>Segments that are counted but never come.\<close>

lemma padding:
  fixes s :: ikcpseg
  obtains pad where "s \<notin> set pad" and "length pad = n"
proof -
  let ?x = "s\<lparr>seg_sn := seg_sn s + 1\<rparr>"
  have "?x \<noteq> s"
  proof
    assume "?x = s"
    then have "seg_sn ?x = seg_sn s" by (simp only:)
    then show False by simp
  qed
  then show thesis using that [of "replicate n ?x"] by auto
qed

lemma data_arrives:
  assumes k: "endpoint_ok k" "updated k \<noteq> 0" "flight_ok k" and r: "endpoint_ok r" "conv r = conv k"
    and buf: "snd_buf (flush_moved k) = s # rest" and due: "seg_due (flush_resent k) k s"
    and want: "seg_sn s = rcv_nxt r" "ready_stuck r" "nrcv_que r < rcv_wnd r"
    and acks: "unat (ackcount k) + unat (ackcount r) \<le> 1073741824"
  shows "\<exists>ps r1 x. ikcp_flush k = Inr (flush_after k, ps) \<and> deliver junk r ps = Some r1 \<and>
    taken x r r1 \<and> seg_data x = seg_data s \<and> updated r1 = updated r \<and> unat (ackcount r1) \<le> 2147083648"
proof -
  let ?s = "flush_next k s"
  obtain groups where g: "ikcp_flush k = Inr (flush_after k, map packet groups)" "concat groups = flush_segs k"
    "[] \<notin> set groups" "\<forall>g \<in> set groups. length (packet g) < 2147483648"
    by (rule endpoint_flushes [OF k(1,2)]) (use acks in simp)
  obtain post where fs: "flush_segs k = (flush_acks_out k @ flush_probes_out k) @ ?s # post"
    using flush_first [OF buf due] by blast
  have wfr: "kcp_wf r" using r(1) by (simp add: endpoint_ok_def)
  have len: "length (flush_segs k) \<le> unat (ackcount k) + 65537"
    using k(1) by (intro flush_segs_length) (simp add: endpoint_ok_def)
  have proper: "\<forall>x \<in> set (concat groups). proper_seg r x \<and> seg_ok x"
    unfolding g(2) using flush_sends_proper [OF k(1,3) g(1) _ r(2)] by blast
  have "?s \<in> set (snd_buf (flush_after k))" by (simp add: flush_after_buf buf)
  then have "seg_cmd ?s = IKCP_CMD_PUSH"
    using flight_flush [OF k(3) _ g(1)] k(1) by (simp add: flight_ok_def endpoint_ok_def)
  moreover have "seg_sn ?s = seg_sn s" "seg_data ?s = seg_data s" by (simp_all add: flush_next_def)
  ultimately have aw: "awaits ?s r" using wfr want by (simp add: awaits_def)
  obtain pad where pad: "?s \<notin> set pad" "length pad = 400000" by (rule padding)
  have arr: "arrives ?s r r (concat groups @ pad)"
    unfolding arrives_def g(2) fs using aw flush_controls [of k] r(2) by (metis append.assoc append_Cons)
  have cnt: "unat (ackcount r) + length (concat groups @ pad) \<le> 2147483648"
    using acks len pad(2) unfolding g(2) by simp
  from receiver.deliver_walk [OF arr wfr proper cnt g(3,4)] obtain r1 where r1:
    "deliver junk r (map packet groups) = Some r1" "arrives ?s r r1 pad" "unat (ackcount r1) + length pad \<le> 2147483648" by blast
  have "updated r1 = updated r"
    using ticking.deliver_walk [OF refl wfr proper cnt g(3,4), of junk] unfolding r1(1) by blast
  moreover have "taken ?s r r1" using r1(2) pad(1) by (auto simp: arrives_def)
  moreover have "unat (ackcount r1) \<le> 2147083648" using r1(3) pad(2) by simp
  ultimately show ?thesis using g(1) r1(1) \<open>seg_data ?s = seg_data s\<close> by blast
qed

section \<open>And back\<close>

lemma flush_acked:
  assumes "0 < unat (ackcount k)"
  shows "\<exists>a post. flush_segs k = a # post \<and> seg_una a = rcv_nxt k"
proof -
  have "[0..<unat (ackcount k)] = 0 # [1..<unat (ackcount k)]" using assms by (simp add: upt_conv_Cons)
  then show ?thesis by (simp add: flush_segs_def flush_acks_out_def ack_segs_def ikcp_flush_seg_def)
qed

lemma ack_returns:
  assumes r: "endpoint_ok r" "updated r \<noteq> 0" "flight_ok r" and k: "endpoint_ok k" "conv k = conv r"
    and una: "0 < itimediff (rcv_nxt r) (snd_una k)" and buf: "snd_buf k \<noteq> []"
    and acks: "0 < unat (ackcount r)" "unat (ackcount r) + unat (ackcount k) + 65537 \<le> 2147483648"
  shows "\<exists>qs k'. ikcp_flush r = Inr (flush_after r, qs) \<and> deliver junk k qs = Some k' \<and>
    snd_una k \<notin> seg_sn ` set (snd_buf k') \<and> 0 < itimediff (snd_una k') (snd_una k) \<and> updated k' = updated k"
proof -
  obtain groups where g: "ikcp_flush r = Inr (flush_after r, map packet groups)" "concat groups = flush_segs r"
    "[] \<notin> set groups" "\<forall>g \<in> set groups. length (packet g) < 2147483648"
    by (rule endpoint_flushes [OF r(1,2)]) (use acks(2) in simp)
  obtain a post where a: "flush_segs r = a # post" "seg_una a = rcv_nxt r" using flush_acked [OF acks(1)] by blast
  have wf: "kcp_wf k" using k(1) by (simp add: endpoint_ok_def)
  have proper: "\<forall>x \<in> set (concat groups). proper_seg k x \<and> seg_ok x"
    unfolding g(2) using flush_sends_proper [OF r(1,3) g(1) _ k(2)] by blast
  have "length (flush_segs r) \<le> unat (ackcount r) + 65537"
    using r(1) by (intro flush_segs_length) (simp add: endpoint_ok_def)
  then have cnt: "unat (ackcount k) + length (concat groups @ []) \<le> 2147483648"
    using acks(2) unfolding g(2) by simp
  have l: "leaves k (snd_una k) k (concat groups @ [])"
    unfolding leaves_def g(2) a(1) using una a(2) by simp
  from sender.deliver_walk [OF l wf proper cnt g(3,4)] obtain k' where k':
    "deliver junk k (map packet groups) = Some k'" "leaves k (snd_una k) k' []" "kcp_wf k'" by blast
  have "updated k' = updated k"
    using ticking.deliver_walk [OF refl wf proper cnt g(3,4), of junk] unfolding k'(1) by blast
  moreover have gone: "shrunk k k'" "snd_una k \<notin> seg_sn ` set (snd_buf k')" using k'(2) by (auto simp: leaves_def)
  moreover have "0 < itimediff (snd_una k') (snd_una k)" by (rule una_advances [OF wf k'(3) gone(1) buf gone(2)])
  ultimately show ?thesis using g(1) k'(1) by blast
qed

section \<open>A round\<close>

text \<open>
  C3: A round over a network that delivers makes progress. When the oldest segment in flight is due and the
  receiver waits for its number and has room, then: the sender's flush succeeds, its datagrams are accepted, and
  the data is in the receive queue, after what was there; the receiver's flush succeeds, and when its datagrams
  arrive the number is no longer in flight and \<open>snd_una\<close> has moved past it. Both ends are again endpoints for
  which the next round can be considered. The bound on waiting acknowledgements is far below the one at which
  their count no longer fits its type.
\<close>

theorem round_makes_progress:
  assumes "endpoint_ok k" and "updated k \<noteq> 0" and "flight_ok k"
    and "endpoint_ok r" and "updated r \<noteq> 0" and "flight_ok r" and "conv r = conv k"
    and "snd_buf (flush_moved k) = s # rest" and "seg_due (flush_resent k) k s"
    and "seg_sn s = rcv_nxt r" and "ready_stuck r" and "nrcv_que r < rcv_wnd r"
    and "unat (ackcount k) + unat (ackcount r) \<le> 1073741824"
  shows "\<exists>k1 ps r1 r2 qs k2 t xs.
    ikcp_flush k = Inr (k1, ps) \<and> deliver junk r ps = Some r1 \<and> ikcp_flush r1 = Inr (r2, qs) \<and> deliver junk' k1 qs = Some k2 \<and>
    rcv_queue r2 = rcv_queue r @ t # xs \<and> seg_data t = seg_data s \<and>
    seg_sn s \<notin> seg_sn ` set (snd_buf k2) \<and> 0 < itimediff (snd_una k2) (snd_una k) \<and>
    endpoint_ok k2 \<and> updated k2 \<noteq> 0 \<and> flight_ok k2 \<and> endpoint_ok r2 \<and> updated r2 \<noteq> 0 \<and> flight_ok r2 \<and> conv r2 = conv k2"
proof -
  note k = assms(1-3) and r = assms(4-6)
  obtain ps r1 x where f: "ikcp_flush k = Inr (flush_after k, ps)" and d: "deliver junk r ps = Some r1"
    and t: "taken x r r1" "seg_data x = seg_data s" and up: "updated r1 = updated r" and n1: "unat (ackcount r1) \<le> 2147083648"
    using data_arrives [OF k r(1) assms(7-13)] by blast
  have k1: "endpoint_ok (flush_after k)" by (rule endpoint_flush [OF k(1) f])
  have wfk: "kcp_wf k" using k(1) by (simp add: endpoint_ok_def)
  have fk: "flight_ok (flush_after k)" "conv (flush_after k) = conv k" using flight_flush [OF k(3) wfk f] by simp_all
  have r1: "endpoint_ok r1" "shrunk r r1" using deliver_endpoint [OF d r(1)] by simp_all
  have fr: "flight_ok r1" "conv r1 = conv r" using flight_shrunk [OF r(3) r1(2)] r1(2) by (simp_all add: shrunk_def)
  obtain y xs where q: "rcv_queue r1 = rcv_queue r @ y # xs" "seg_data y = seg_data x"
    "rcv_nxt r1 = rcv_nxt r + of_nat (Suc (length xs))" "0 < unat (ackcount r1)" using t(1) by (auto simp: taken_def)
  have una: "snd_una k = seg_sn s"
    using kcp_wfD(2) [OF flush_moved_wf [OF wfk]] assms(8) by (simp add: una_exact_def una_ok_def first_sn_def)
  have "length (rcv_queue r1) < 2147483648"
    using r1(1) kcp_wfD(3) by (auto simp: endpoint_ok_def rcv_core_def)
  then have "unat (of_nat (Suc (length xs)) :: u32) = Suc (length xs)" "Suc (length xs) < 2147483648"
    using q(1) by (simp_all add: unat_of_nat del: of_nat_Suc)
  then have "itimediff (rcv_nxt r1) (snd_una k) = int (Suc (length xs))"
    using q(3) una assms(10) by (simp add: itimediff_seqoff seqoff_def del: of_nat_Suc)
  then have adv: "0 < itimediff (rcv_nxt r1) (snd_una (flush_after k))" by (simp add: flush_after_una)
  have buf: "snd_buf (flush_after k) \<noteq> []" by (simp add: flush_after_buf assms(8))
  obtain qs k2 where b: "ikcp_flush r1 = Inr (flush_after r1, qs)" "deliver junk' (flush_after k) qs = Some k2"
    "snd_una k \<notin> seg_sn ` set (snd_buf k2)" "0 < itimediff (snd_una k2) (snd_una k)" "updated k2 = updated (flush_after k)"
    using ack_returns [OF r1(1) _ fr(1) k1 _ adv buf q(4), of junk'] up r(2) fr(2) fk(2) assms(7) n1
    by (auto simp: flush_after_acks flush_after_una)
  have k2: "endpoint_ok k2" "shrunk (flush_after k) k2" using deliver_endpoint [OF b(2) k1] by simp_all
  have r2: "endpoint_ok (flush_after r1)" by (rule endpoint_flush [OF r1(1) b(1)])
  have wfr1: "kcp_wf r1" using r1(1) by (simp add: endpoint_ok_def)
  have fr2: "flight_ok (flush_after r1)" "conv (flush_after r1) = conv r1" using flight_flush [OF fr(1) wfr1 b(1)] by simp_all
  have "rcv_queue (flush_after r1) = rcv_queue r1"
    using flush_groups [OF wfr1 b(1)] by (auto simp: rcv_view_def)
  moreover have "updated (flush_after k) = updated k" "updated (flush_after r1) = updated r1"
    by (simp_all add: flush_after_def ikcp_flush_finish_def Let_def)
  moreover have "flight_ok k2" "conv k2 = conv k" using flight_shrunk [OF fk(1) k2(2)] k2(2) fk(2) by (simp_all add: shrunk_def)
  ultimately show ?thesis
    using f d b k2(1) r2 fr2 fr(2) q(1,2) t(2) up k(2) r(2) una assms(7)
    by (intro exI [of _ "flush_after k"] exI [of _ ps] exI [of _ r1] exI [of _ "flush_after r1"] exI [of _ qs] exI [of _ k2]
        exI [of _ y] exI [of _ xs]) simp
qed

text \<open>The receiver of the example: nothing sent or received yet.\<close>

definition idle0 :: kcpcb where
  "idle0 = kcp0\<lparr>output_set := True, updated := 1\<rparr>"

lemma idle0_endpoint: "endpoint_ok idle0 \<and> flight_ok idle0 \<and> ready_stuck idle0"
proof -
  have "kcp_wf kcp0" by simp
  then have "kcp_wf idle0" by (simp add: idle0_def kcp_wf_defs del: kcp0_wf)
  then show ?thesis by (simp add: endpoint_ok_def flight_ok_def ready_stuck_def segs_fit_def idle0_def)
qed

lemma ready0_endpoint: "endpoint_ok ready0 \<and> flight_ok ready0"
  by (simp add: endpoint_ok_def flight_ok_def segs_fit_def) (simp add: ready0_def)

lemma ready0_moved: "\<exists>s. snd_buf (flush_moved ready0) = [s] \<and> seg_sn s = 0 \<and> seg_xmit s = 0 \<and> seg_data s = [1, 2]"
  by (simp add: flush_moved_def flush_probed_def ready0_def ikcp_flush_probe_def ikcp_flush_cwnd_def imin_def Let_def
      ikcp_flush_move.simps itimediff_def ikcp_flush_newseg_def kcp_defs)

theorem round_makes_progress_witness:
  "\<exists>k1 ps r1 r2 qs k2 t xs.
    ikcp_flush ready0 = Inr (k1, ps) \<and> deliver (\<lambda>_. seg0) idle0 ps = Some r1 \<and> ikcp_flush r1 = Inr (r2, qs) \<and>
    deliver (\<lambda>_. seg0) k1 qs = Some k2 \<and> rcv_queue r2 = t # xs \<and> seg_data t = [1, 2] \<and> 0 < itimediff (snd_una k2) 0"
proof -
  obtain s where s: "snd_buf (flush_moved ready0) = [s]" "seg_sn s = 0" "seg_xmit s = 0" "seg_data s = [1, 2]"
    using ready0_moved by blast
  have k: "endpoint_ok ready0" "flight_ok ready0" "updated ready0 \<noteq> 0" using ready0_endpoint by (simp_all add: ready0_def)
  have r: "endpoint_ok idle0" "flight_ok idle0" "updated idle0 \<noteq> 0" "ready_stuck idle0" "conv idle0 = conv ready0"
    "nrcv_que idle0 < rcv_wnd idle0" "seg_sn s = rcv_nxt idle0" "rcv_queue idle0 = []" "snd_una ready0 = 0"
    "unat (ackcount ready0) + unat (ackcount idle0) \<le> 1073741824"
    using idle0_endpoint by (simp_all add: idle0_def ready0_def s(2))
  have due: "seg_due (flush_resent ready0) ready0 s" by (simp add: seg_due_def s(3))
  from round_makes_progress [OF k(1,3,2) r(1,3,2,5) s(1) due r(7,4,6,10), of "\<lambda>_. seg0" "\<lambda>_. seg0"]
  show ?thesis unfolding r(8,9) s(4) append_Nil by blast
qed

end
