(* ===== verification/Fake_Tcp.thy ===== *)
theory Fake_Tcp
  imports Kcp_Wire
begin

text \<open>
  The TCP disguise of \<^verbatim>\<open>kcp_socket.cc\<close>: IP and TCP headers as the structures of
  \<^verbatim>\<open>netinet/ip.h\<close> and \<^verbatim>\<open>netinet/tcp.h\<close> on a little-endian host, the two checksum functions,
  \<^verbatim>\<open>prase_tcp_packet\<close> and \<^verbatim>\<open>setAddr\<close>, and the clock helpers of \<^verbatim>\<open>kcp_socket.h\<close>. A header is
  a record of its C fields in host representation; \<open>iphdr_bytes\<close> and \<open>tcphdr_bytes\<close> give its
  bytes in memory, which is what \<^verbatim>\<open>memcpy\<close> and the \<^verbatim>\<open>uint16_t\<close> pointers of the checksums read.
\<close>

section \<open>Words in memory and in network order\<close>

definition store16 :: "u16 \<Rightarrow> bytes" where
  "store16 w = [ucast w, ucast (drop_bit 8 w)]"

definition store32 :: "u32 \<Rightarrow> bytes" where
  "store32 l = [ucast l, ucast (drop_bit 8 l), ucast (drop_bit 16 l), ucast (drop_bit 24 l)]"

definition load16 :: "u8 \<Rightarrow> u8 \<Rightarrow> u16" where
  "load16 a b = ucast a + push_bit 8 (ucast b)"

definition load32 :: "u8 \<Rightarrow> u8 \<Rightarrow> u8 \<Rightarrow> u8 \<Rightarrow> u32" where
  "load32 a b c d = ucast a + push_bit 8 (ucast b + push_bit 8 (ucast c + push_bit 8 (ucast d)))"

definition htons :: "u16 \<Rightarrow> u16" where
  "htons w = load16 (ucast (drop_bit 8 w)) (ucast w)"

definition htonl :: "u32 \<Rightarrow> u32" where
  "htonl l = load32 (ucast (drop_bit 24 l)) (ucast (drop_bit 16 l)) (ucast (drop_bit 8 l)) (ucast l)"

text \<open>Swapping is its own inverse, so \<^verbatim>\<open>ntohs\<close> and \<^verbatim>\<open>ntohl\<close> are the same functions.\<close>

abbreviation ntohs :: "u16 \<Rightarrow> u16" where "ntohs \<equiv> htons"
abbreviation ntohl :: "u32 \<Rightarrow> u32" where "ntohl \<equiv> htonl"

lemma store16_encode: "store16 w = ikcp_encode16u [] w"
  by (simp add: store16_def ikcp_encode16u_def ucast_and_255)

lemma store32_encode: "store32 l = ikcp_encode32u [] l"
  by (simp add: store32_def ikcp_encode32u_def ucast_and_255)

lemma store_load [simp]:
  "store16 (load16 a b) = [a, b]" "store32 (load32 a b c d) = [a, b, c, d]"
  by (simp_all add: store16_encode store32_encode load16_def load32_def encode16_value encode32_value)

lemma load_store [simp]:
  "load16 (ucast w) (ucast (drop_bit 8 w)) = w"
  "load32 (ucast l) (ucast (drop_bit 8 l)) (ucast (drop_bit 16 l)) (ucast (drop_bit 24 l)) = l"
  using decode16_encode16 [where w = w and rest = "[]"] decode32_encode32 [where w = l and rest = "[]"]
  by (simp_all add: ikcp_encode16u_def ikcp_encode32u_def load16_def load32_def Let_def ucast_and_255)

lemma loaded_bytes [simp]:
  "ucast (load16 a b) = a" "ucast (drop_bit 8 (load16 a b)) = b"
  "ucast (load32 a b c d) = a" "ucast (drop_bit 8 (load32 a b c d)) = b"
  "ucast (drop_bit 16 (load32 a b c d)) = c" "ucast (drop_bit 24 (load32 a b c d)) = d"
  using store_load(1) [of a b] store_load(2) [of a b c d] by (simp_all add: store16_def store32_def)

lemma htons_htons [simp]: "htons (htons w) = w"
  by (simp add: htons_def)

lemma htonl_htonl [simp]: "htonl (htonl l) = l"
  by (simp add: htonl_def)

lemma htons_load16 [simp]: "htons (load16 a b) = load16 b a"
  by (simp add: htons_def)

lemma htons_inject [simp]: "htons v = htons w \<longleftrightarrow> v = w"
  by (metis htons_htons)

section \<open>The headers\<close>

record iphdr =
  ip_ihl :: u8
  ip_version :: u8
  ip_tos :: u8
  ip_tot_len :: u16
  ip_idn :: u16
  ip_frag_off :: u16
  ip_ttl :: u8
  ip_protocol :: u8
  ip_check :: u16
  ip_saddr :: u32
  ip_daddr :: u32

record tcphdr =
  th_source :: u16
  th_dest :: u16
  th_seq :: u32
  th_ack_seq :: u32
  th_doff :: u8
  th_fin :: bool
  th_syn :: bool
  th_rst :: bool
  th_psh :: bool
  th_ack :: bool
  th_urg :: bool
  th_window :: u16
  th_check :: u16
  th_urg_ptr :: u16

definition flag :: "bool \<Rightarrow> nat \<Rightarrow> u8" where
  "flag b i = (if b then push_bit i 1 else 0)"

definition th_flags :: "tcphdr \<Rightarrow> u8" where
  "th_flags t = flag (th_fin t) 0 OR flag (th_syn t) 1 OR flag (th_rst t) 2 OR flag (th_psh t) 3 OR
     flag (th_ack t) 4 OR flag (th_urg t) 5"

definition iphdr_bytes :: "iphdr \<Rightarrow> bytes" where
  "iphdr_bytes h = [(ip_ihl h AND 15) OR push_bit 4 (ip_version h), ip_tos h] @ store16 (ip_tot_len h) @
     store16 (ip_idn h) @ store16 (ip_frag_off h) @ [ip_ttl h, ip_protocol h] @ store16 (ip_check h) @
     store32 (ip_saddr h) @ store32 (ip_daddr h)"

definition tcphdr_bytes :: "tcphdr \<Rightarrow> bytes" where
  "tcphdr_bytes t = store16 (th_source t) @ store16 (th_dest t) @ store32 (th_seq t) @ store32 (th_ack_seq t) @
     [push_bit 4 (th_doff t), th_flags t] @ store16 (th_window t) @ store16 (th_check t) @ store16 (th_urg_ptr t)"

lemma length_headers [simp]: "length (iphdr_bytes h) = 20" "length (tcphdr_bytes t) = 20"
  by (simp_all add: iphdr_bytes_def tcphdr_bytes_def store16_def store32_def)

section \<open>Reading a packet\<close>

record tcp_info =
  ti_proto :: u16
  ti_syn :: bool
  ti_ack :: bool
  ti_rst :: bool
  ti_fin :: bool
  ti_psh :: bool
  ti_urg :: bool
  ti_ece :: bool
  ti_cwr :: bool
  ti_window_size :: u16
  ti_port_src :: u16
  ti_port_dst :: u16
  ti_seq :: u32
  ti_ack_seq :: u32
  ti_data_len :: u32
  ti_ip_src :: u32
  ti_ip_dst :: u32
  ti_iphdr_len :: u16

text \<open>\<^verbatim>\<open>memset(info, 0, sizeof(tcp_info))\<close>\<close>

definition tcp_info0 :: tcp_info where
  "tcp_info0 = \<lparr>ti_proto = 0, ti_syn = False, ti_ack = False, ti_rst = False, ti_fin = False, ti_psh = False,
     ti_urg = False, ti_ece = False, ti_cwr = False, ti_window_size = 0, ti_port_src = 0, ti_port_dst = 0,
     ti_seq = 0, ti_ack_seq = 0, ti_data_len = 0, ti_ip_src = 0, ti_ip_dst = 0, ti_iphdr_len = 0\<rparr>"

definition mem16 :: "bytes \<Rightarrow> nat \<Rightarrow> u16" where
  "mem16 m i = load16 (m ! i) (m ! (i + 1))"

definition mem32 :: "bytes \<Rightarrow> nat \<Rightarrow> u32" where
  "mem32 m i = load32 (m ! i) (m ! (i + 1)) (m ! (i + 2)) (m ! (i + 3))"

text \<open>
  The function copies 40 bytes out of the buffer whatever \<^verbatim>\<open>len\<close> is; \<^const>\<open>None\<close> is a buffer with
  less memory than that.
\<close>

definition prase_tcp_packet :: "bytes \<Rightarrow> tcp_info option" where
  "prase_tcp_packet buffer =
     (if length buffer < 40 then None
      else
        let ip_header = take 20 buffer;
            tcp_header = take 20 (drop 20 buffer);
            info = tcp_info0;
            info = info\<lparr>ti_ack := bit (tcp_header ! 13) 4\<rparr>;
            info = info\<lparr>ti_ack_seq := ntohl (mem32 tcp_header 8)\<rparr>;
            info = info\<lparr>ti_port_src := ntohs (mem16 tcp_header 0)\<rparr>;
            info = info\<lparr>ti_port_dst := ntohs (mem16 tcp_header 2)\<rparr>;
            info = info\<lparr>ti_seq := ntohl (mem32 tcp_header 4)\<rparr>;
            info = info\<lparr>ti_fin := bit (tcp_header ! 13) 0\<rparr>;
            info = info\<lparr>ti_rst := bit (tcp_header ! 13) 2\<rparr>;
            info = info\<lparr>ti_iphdr_len := ucast (ip_header ! 0 AND 15)\<rparr>
        in Some info)"

lemma bit_flag: "i < 8 \<Longrightarrow> bit (flag b i) j \<longleftrightarrow> b \<and> i = j"
  by (auto simp: flag_def bit_push_bit_iff bit_1_iff simp del: push_bit_of_1)

lemma bit_th_flags:
  "bit (th_flags t) 0 = th_fin t" "bit (th_flags t) 2 = th_rst t" "bit (th_flags t) 4 = th_ack t"
  by (simp_all add: th_flags_def bit_or_iff bit_flag)

lemma ihl_byte: "((x AND 15) OR push_bit 4 v) AND 15 = x AND 15" for x v :: u8
proof (rule bit_word_eqI)
  fix n assume "n < LENGTH(8)"
  have "bit (15 :: u8) n \<longleftrightarrow> n < 4"
    using bit_mask_iff [where 'a = u8, of 4 n] \<open>n < LENGTH(8)\<close> by (simp add: mask_eq_exp_minus_1)
  then show "bit (((x AND 15) OR push_bit 4 v) AND 15) n = bit (x AND 15) n"
    by (auto simp: bit_and_iff bit_or_iff bit_push_bit_iff)
qed

text \<open>What is read of a packet is what its headers say.\<close>

lemma prase_headers:
  "prase_tcp_packet (iphdr_bytes h @ tcphdr_bytes t @ payload) = Some (tcp_info0\<lparr>
     ti_ack := th_ack t, ti_rst := th_rst t, ti_fin := th_fin t,
     ti_port_src := ntohs (th_source t), ti_port_dst := ntohs (th_dest t),
     ti_seq := ntohl (th_seq t), ti_ack_seq := ntohl (th_ack_seq t), ti_iphdr_len := ucast (ip_ihl h AND 15)\<rparr>)"
proof -
  have "iphdr_bytes h ! 0 AND 15 = ip_ihl h AND 15"
    by (simp add: iphdr_bytes_def ihl_byte)
  moreover have "tcphdr_bytes t ! 13 = th_flags t" "mem16 (tcphdr_bytes t) 0 = th_source t"
    "mem16 (tcphdr_bytes t) 2 = th_dest t" "mem32 (tcphdr_bytes t) 4 = th_seq t" "mem32 (tcphdr_bytes t) 8 = th_ack_seq t"
    by (simp_all add: tcphdr_bytes_def store16_def store32_def mem16_def mem32_def)
  ultimately show ?thesis
    by (simp add: prase_tcp_packet_def Let_def bit_th_flags)
qed

section \<open>Addresses\<close>

record sockaddr_in =
  sin_family :: u16
  sin_port :: u16
  sin_addr :: u32

definition AF_INET :: u16 where "AF_INET = 2"

text \<open>The address is the value of \<^verbatim>\<open>inet_addr(ip)\<close>; \<^verbatim>\<open>port\<close> is a \<^verbatim>\<open>short\<close>.\<close>

definition setAddr :: "u32 \<Rightarrow> int \<Rightarrow> sockaddr_in" where
  "setAddr addr port = \<lparr>sin_family = AF_INET, sin_port = htons (word_of_int port), sin_addr = addr\<rparr>"

section \<open>Checksums\<close>

text \<open>Memory read through a \<^verbatim>\<open>uint16_t\<close> pointer.\<close>

fun words16 :: "bytes \<Rightarrow> u16 list" where
  "words16 (a # b # m) = load16 a b # words16 m"
| "words16 _ = []"

text \<open>\<^verbatim>\<open>sum += ntohs(buf[i])\<close> over the first \<^verbatim>\<open>n\<close> words\<close>

definition add_words :: "u32 \<Rightarrow> u16 list \<Rightarrow> u32" where
  "add_words s ws = foldl (\<lambda>s w. s + ucast (ntohs w)) s ws"

text \<open>\<^verbatim>\<open>while (sum >> 16) sum = (sum & 0xffff) + (sum >> 16)\<close>\<close>

lemma unat_and_ffff: "unat (s AND 0xffff :: u32) = unat s mod 65536"
proof -
  have "s AND 0xffff = take_bit 16 s" by (simp add: take_bit_eq_mask mask_eq_exp_minus_1)
  then have "unat (s AND 0xffff) = take_bit 16 (unat s)" by (simp only: unsigned_take_bit_eq)
  then show ?thesis by (simp add: take_bit_eq_mod)
qed

lemma unat_fold_step:
  "unat ((s AND 0xffff) + drop_bit 16 s) = unat s mod 65536 + unat s div 65536" for s :: u32
proof -
  have "unat s div 65536 < 65536" using unat_u32_less [of s] by (simp add: less_mult_imp_div_less)
  moreover have "unat s mod 65536 < 65536" by simp
  ultimately show ?thesis
    by (simp add: unat_word_ariths unat_and_ffff unat_drop)
qed

lemma unat_drop16: "unat (drop_bit 16 s :: u32) = unat s div 65536"
  by (simp add: unat_drop)

function checksum_fold :: "u32 \<Rightarrow> u32" where
  "checksum_fold s =
     (if drop_bit 16 s \<noteq> 0 then checksum_fold ((s AND 0xffff) + drop_bit 16 s) else s)"
  by auto
termination
proof (relation "measure unat")
  fix s :: u32
  assume "drop_bit 16 s \<noteq> 0"
  then have "unat s div 65536 > 0" by (metis gr0I unat_drop16 unat_eq_0)
  moreover have "r + q < 65536 * q + r" if "q > 0" for q r :: nat using that by simp
  ultimately have "unat s mod 65536 + unat s div 65536 < unat s" by (metis mult_div_mod_eq)
  then show "((s AND 0xffff) + drop_bit 16 s, s) \<in> measure unat"
    unfolding in_measure unat_fold_step .
qed simp
declare checksum_fold.simps [simp del]


definition calculate_ip_checksum :: "iphdr \<Rightarrow> u16 option" where
  "calculate_ip_checksum h =
     (let n = unat (ip_ihl h AND 15) * 4;
          buf = words16 (iphdr_bytes h)
      in if n > 20 then None
         else
           let s = add_words 0 (take (n div 2) buf);
               s = (if n mod 2 \<noteq> 0 then s + ucast (iphdr_bytes h ! (n - 1)) else s)
           in Some (ucast (NOT (checksum_fold s))))"

record pseudo_header =
  source_address :: u32
  dest_address :: u32
  placeholder :: u8
  ph_protocol :: u8
  ph_tcp_length :: u16

definition pseudo_header_bytes :: "pseudo_header \<Rightarrow> bytes" where
  "pseudo_header_bytes p = store32 (source_address p) @ store32 (dest_address p) @
     [placeholder p, ph_protocol p] @ store16 (ph_tcp_length p)"

definition IPPROTO_TCP :: u8 where "IPPROTO_TCP = 6"

text \<open>The sum before folding; \<^const>\<open>None\<close> where the code would read past the data.\<close>

definition tcp_sum :: "iphdr \<Rightarrow> tcphdr \<Rightarrow> bytes \<Rightarrow> nat \<Rightarrow> u32 option" where
  "tcp_sum h t data data_len =
     (let pseudo_hdr = \<lparr>source_address = ip_saddr h, dest_address = ip_daddr h, placeholder = 0,
            ph_protocol = IPPROTO_TCP, ph_tcp_length = htons (of_nat (20 + data_len))\<rparr>;
          s = add_words 0 (words16 (pseudo_header_bytes pseudo_hdr));
          s = add_words s (words16 (tcphdr_bytes t))
      in if data_len = 0 then Some s
         else if data_len > length data then None
         else
           let new_data = take data_len data;
               new_data = (if odd data_len then new_data @ [0] else new_data)
           in Some (add_words s (words16 new_data)))"

definition calculate_tcp_checksum :: "iphdr \<Rightarrow> tcphdr \<Rightarrow> bytes \<Rightarrow> nat \<Rightarrow> u16 option" where
  "calculate_tcp_checksum h t data data_len =
     map_option (\<lambda>s. ucast (NOT (checksum_fold s))) (tcp_sum h t data data_len)"

section \<open>What the checksums guarantee\<close>

lemma fold_arith:
  fixes x :: nat
  shows "(x mod 65536 + x div 65536) mod 65535 = x mod 65535"
    and "x mod 65536 + x div 65536 = 0 \<longleftrightarrow> x = 0"
proof -
  obtain q r where x: "x = 65536 * q + r" and r: "r < 65536" and e: "x mod 65536 = r" "x div 65536 = q"
    by (metis mod_less_divisor mult_div_mod_eq zero_less_numeral)
  have "x = (r + q) + 65535 * q" by (simp add: x)
  then have "x mod 65535 = (r + q) mod 65535" by (metis mod_mult_self2)
  then show "(x mod 65536 + x div 65536) mod 65535 = x mod 65535" by (simp only: e)
  show "x mod 65536 + x div 65536 = 0 \<longleftrightarrow> x = 0" unfolding e using x by auto
qed

lemma checksum_fold_spec:
  "unat (checksum_fold s) < 65536 \<and> unat (checksum_fold s) mod 65535 = unat s mod 65535 \<and>
   (checksum_fold s = 0 \<longleftrightarrow> s = 0)"
proof (induction s rule: checksum_fold.induct)
  case (1 s)
  let ?n = "(s AND 0xffff) + drop_bit 16 s"
  have n: "unat ?n mod 65535 = unat s mod 65535" "?n = 0 \<longleftrightarrow> s = 0"
    using fold_arith [of "unat s"] unat_fold_step [of s] by (simp_all only: unat_eq_0 [symmetric])
  show ?case
  proof (cases "drop_bit 16 s = 0")
    case True
    then have "unat s div 65536 = 0" by (metis unat_drop16 unat_0)
    then have "unat s < 65536" by (simp add: div_eq_0_iff)
    then show ?thesis using True by (simp add: checksum_fold.simps [of s])
  next
    case False
    then have "checksum_fold s = checksum_fold ?n" by (simp add: checksum_fold.simps [of s])
    then show ?thesis using "1.IH" [OF False] n by simp
  qed
qed

lemma add_words_unat:
  "unat s + 65535 * length ws < 4294967296 \<Longrightarrow>
    unat (add_words s ws) = unat s + sum_list (map (\<lambda>w. unat (ntohs w)) ws)"
proof (induction ws arbitrary: s)
  case Nil
  then show ?case by (simp add: add_words_def)
next
  case (Cons w ws)
  have "unat (ucast (ntohs w) :: u32) = unat (ntohs w)"
    using unat_u16_less [of "ntohs w"] by (simp add: unsigned_ucast_eq take_bit_nat_eq_self)
  then have u: "unat (s + ucast (ntohs w)) = unat s + unat (ntohs w)"
    using Cons.prems unat_u16_less [of "ntohs w"] by (simp add: unat_word_ariths)
  have "add_words s (w # ws) = add_words (s + ucast (ntohs w)) ws" by (simp add: add_words_def)
  then show ?case
    using Cons.IH [of "s + ucast (ntohs w)"] Cons.prems unat_u16_less [of "ntohs w"] u by simp
qed

lemma length_words16: "length (words16 m) = length m div 2"
  by (induction m rule: words16.induct) auto

text \<open>When a sum verifies, and that the complement of a folded sum makes it verify.\<close>

lemma checksum_fold_ones: "checksum_fold s = 0xffff \<longleftrightarrow> unat s mod 65535 = 0 \<and> s \<noteq> 0"
proof
  assume "checksum_fold s = 0xffff"
  then show "unat s mod 65535 = 0 \<and> s \<noteq> 0" using checksum_fold_spec [of s] by auto
next
  assume "unat s mod 65535 = 0 \<and> s \<noteq> 0"
  then have g: "unat (checksum_fold s) < 65536" "unat (checksum_fold s) mod 65535 = 0" "unat (checksum_fold s) \<noteq> 0"
    using checksum_fold_spec [of s] by (simp_all add: unat_eq_0)
  obtain q where "unat (checksum_fold s) = 65535 * q"
    using g(2) by (auto simp: mod_eq_0_iff_dvd dvd_def)
  then have "unat (checksum_fold s) = 65535" using g(1,3) by simp
  then show "checksum_fold s = 0xffff" by (simp add: word_unat_eq_iff)
qed

lemma unat_not_ucast:
  assumes "unat (x :: u32) < 65536"
  shows "unat (ucast (NOT x) :: u16) = 65535 - unat x"
proof -
  have "(ucast (NOT x) :: u16) = NOT (ucast x)"
    by (rule bit_word_eqI) (simp add: bit_ucast_iff bit_not_iff)
  moreover have "unat (NOT y) = 65535 - unat y" for y :: u16
  proof -
    have "NOT y = - 1 - y" by (simp add: not_eq_complement)
    moreover have "y \<le> - 1" by simp
    ultimately have "unat (NOT y) = unat (- 1 :: u16) - unat y" by (simp only: unat_sub)
    moreover have "unat (- 1 :: u16) = 65535" by (simp add: unsigned_minus_1_eq_mask mask_eq_exp_minus_1)
    ultimately show ?thesis by simp
  qed
  moreover have "unat (ucast x :: u16) = unat x"
    using assms by (simp add: unsigned_ucast_eq take_bit_nat_eq_self)
  ultimately show ?thesis by simp
qed

lemma complement_verifies:
  assumes "unat s' = unat s + unat (ucast (NOT (checksum_fold s)) :: u16)"
  shows "checksum_fold s' = 0xffff"
proof -
  define f where "f = unat (checksum_fold s)"
  have f: "f < 65536" "f mod 65535 = unat s mod 65535" "f = 0 \<longleftrightarrow> s = 0"
    using checksum_fold_spec [of s] by (simp_all add: f_def unat_eq_0)
  have u: "unat s' = unat s + (65535 - f)"
    using assms f(1) by (simp add: unat_not_ucast f_def)
  have "(unat s + (65535 - f)) mod 65535 = (f + (65535 - f)) mod 65535"
    using f(2) by (metis mod_add_left_eq)
  then have "unat s' mod 65535 = 0" using f(1) u by simp
  moreover have "s' \<noteq> 0"
  proof
    assume "s' = 0"
    then have z: "unat s = 0" "65535 \<le> f" using u by simp_all
    then show False using f(3) by (simp add: unat_eq_0)
  qed
  ultimately show ?thesis by (simp add: checksum_fold_ones)
qed

lemma words16_append: "even (length m) \<Longrightarrow> words16 (m @ n) = words16 m @ words16 n"
  by (induction m rule: words16.induct) auto

lemma words16_store [simp]:
  "words16 (store16 w @ m) = w # words16 m" "words16 (a # b # m) = load16 a b # words16 m"
  by (simp_all add: store16_def)

lemma add_words_append: "add_words s (xs @ ys) = add_words (add_words s xs) ys"
  by (simp add: add_words_def)

text \<open>The words of a segment, in the order the sum takes them.\<close>

definition pseudo_words :: "iphdr \<Rightarrow> nat \<Rightarrow> u16 list" where
  "pseudo_words h n = words16 (pseudo_header_bytes \<lparr>source_address = ip_saddr h, dest_address = ip_daddr h,
     placeholder = 0, ph_protocol = IPPROTO_TCP, ph_tcp_length = htons (of_nat (20 + n))\<rparr>)"

definition padded :: "bytes \<Rightarrow> bytes" where
  "padded data = (if odd (length data) then data @ [0] else data)"

lemma tcp_sum_words:
  assumes "n \<le> length data"
  shows "tcp_sum h t data n =
    Some (add_words 0 (pseudo_words h n @ words16 (tcphdr_bytes t) @ words16 (padded (take n data))))"
proof (cases "n = 0")
  case True
  then show ?thesis by (simp add: tcp_sum_def pseudo_words_def padded_def add_words_append add_words_def)
next
  case False
  then show ?thesis using assms by (auto simp: tcp_sum_def Let_def pseudo_words_def padded_def add_words_append)
qed

lemma tcp_words:
  "\<exists>us vs. words16 (tcphdr_bytes (t\<lparr>th_check := c\<rparr>)) = us @ c # vs \<and>
     words16 (tcphdr_bytes (t\<lparr>th_check := 0\<rparr>)) = us @ 0 # vs \<and> length us + length vs = 9"
proof -
  have "words16 (tcphdr_bytes (t\<lparr>th_check := x\<rparr>)) = take 8 (words16 (tcphdr_bytes t)) @ x # [th_urg_ptr t]" for x
    by (simp add: tcphdr_bytes_def store16_def store32_def th_flags_def)
  moreover have "length (words16 (tcphdr_bytes t)) = 10" by (simp add: length_words16)
  ultimately show ?thesis
    by (intro exI [of _ "take 8 (words16 (tcphdr_bytes t))"] exI [of _ "[th_urg_ptr t]"]) simp
qed

lemma length_words [simp]:
  "length (pseudo_words h n) = 6" "length (words16 (padded m)) = (length m + 1) div 2"
  by (auto simp: pseudo_words_def length_words16 pseudo_header_bytes_def store16_def store32_def padded_def)

lemma ntohs_0 [simp]: "ntohs 0 = 0"
  by (simp add: htons_def load16_def)

lemma sum_words_replaced:
  assumes "length (us @ vs) < 65530"
  shows "unat (add_words 0 (us @ w # vs)) = unat (add_words 0 (us @ 0 # vs)) + unat (ntohs w)"
proof -
  have "unat (0 :: u32) + 65535 * length (us @ x # vs) < 4294967296" for x
    using assms by simp
  then show ?thesis by (simp add: add_words_unat del: length_append list.size)
qed

lemma tcp_checksum_holds:
  assumes "length data \<le> 65515"
  shows "\<exists>c s. calculate_tcp_checksum h (t\<lparr>th_check := 0\<rparr>) data (length data) = Some c \<and>
    tcp_sum h (t\<lparr>th_check := htons c\<rparr>) data (length data) = Some s \<and> checksum_fold s = 0xffff"
proof -
  let ?n = "length data"
  define c where "c = (ucast (NOT (checksum_fold (the (tcp_sum h (t\<lparr>th_check := 0\<rparr>) data ?n)))) :: u16)"
  obtain us vs where w: "words16 (tcphdr_bytes (t\<lparr>th_check := htons c\<rparr>)) = us @ htons c # vs"
    "words16 (tcphdr_bytes (t\<lparr>th_check := 0\<rparr>)) = us @ 0 # vs" "length us + length vs = 9"
    using tcp_words by blast
  let ?u = "pseudo_words h ?n @ us" and ?v = "vs @ words16 (padded data)"
  have 0: "tcp_sum h (t\<lparr>th_check := 0\<rparr>) data ?n = Some (add_words 0 (?u @ 0 # ?v))"
    and 1: "tcp_sum h (t\<lparr>th_check := htons c\<rparr>) data ?n = Some (add_words 0 (?u @ htons c # ?v))"
    by (simp_all add: tcp_sum_words w)
  have "length (?u @ ?v) < 65530" using assms w(3) by simp
  from sum_words_replaced [OF this, of "htons c"]
  have "checksum_fold (add_words 0 (?u @ htons c # ?v)) = 0xffff"
    by (intro complement_verifies [where s = "add_words 0 (?u @ 0 # ?v)"]) (simp add: c_def 0)
  then show ?thesis using 0 1 by (auto simp: calculate_tcp_checksum_def c_def)
qed



lemma ip_words:
  "words16 (iphdr_bytes (h\<lparr>ip_check := x\<rparr>)) = take 5 (words16 (iphdr_bytes h)) @ x # drop 6 (words16 (iphdr_bytes h))"
  by (simp add: iphdr_bytes_def store16_def store32_def)

text \<open>
  The IP checksum is right when it is stored in network order: the header with
  \<^verbatim>\<open>check = htons(calculate_ip_checksum(...))\<close> verifies. The code stores the value itself, and that
  header verifies only if the two bytes of the checksum are equal.
\<close>

theorem ip_checksum_byte_order:
  assumes "ip_ihl h = 5"
  shows "\<exists>c. calculate_ip_checksum (h\<lparr>ip_check := 0\<rparr>) = Some c \<and>
    checksum_fold (add_words 0 (words16 (iphdr_bytes (h\<lparr>ip_check := htons c\<rparr>)))) = 0xffff \<and>
    (checksum_fold (add_words 0 (words16 (iphdr_bytes (h\<lparr>ip_check := c\<rparr>)))) = 0xffff \<longleftrightarrow> htons c = c)"
proof -
  let ?u = "take 5 (words16 (iphdr_bytes h))" and ?v = "drop 6 (words16 (iphdr_bytes h))"
  define s where "s = add_words 0 (?u @ 0 # ?v)"
  define c where "c = (ucast (NOT (checksum_fold s)) :: u16)"
  define f where "f = unat (checksum_fold s)"
  have small: "length (?u @ ?v) < 65530" by (simp add: length_words16)
  have f: "f < 65536" "f mod 65535 = unat s mod 65535" using checksum_fold_spec [of s] by (simp_all add: f_def)
  have c: "unat c = 65535 - f" using f(1) by (simp add: c_def f_def unat_not_ucast)
  have sum: "unat (add_words 0 (?u @ x # ?v)) = unat s + unat (htons x)" for x
    using sum_words_replaced [OF small, of x] by (simp add: s_def)
  have good: "checksum_fold (add_words 0 (?u @ htons c # ?v)) = 0xffff"
    by (rule complement_verifies [where s = s]) (use sum [of "htons c"] in \<open>simp add: c_def\<close>)
  have "htons c = c" if "checksum_fold (add_words 0 (?u @ c # ?v)) = 0xffff"
  proof -
    have "(unat s + unat (htons c)) mod 65535 = 0" using that sum [of c] by (simp add: checksum_fold_ones)
    then have "(f + unat (htons c)) mod 65535 = 0" using f(2) by (metis mod_add_left_eq)
    then obtain q where q: "f + unat (htons c) = 65535 * q" by (auto simp: mod_eq_0_iff_dvd dvd_def)
    have "unat (htons c) < 65536" by (rule unat_u16_less)
    with q f(1) have "q < 3" by simp
    then consider "q = 0" | "q = 1" | "q = 2" by linarith
    then show ?thesis
    proof cases
      case 1
      then have "htons c = 0" "unat c = 65535" using q c by (simp_all add: unat_eq_0)
      then have "c = 0" by (metis htons_htons ntohs_0)
      with \<open>unat c = 65535\<close> show ?thesis by simp
    next
      case 2
      then have "unat (htons c) = unat c" using q c f(1) by simp
      then show ?thesis by (simp add: word_unat_eq_iff)
    next
      case 3
      then have "f = 65535" using q f(1) \<open>unat (htons c) < 65536\<close> by simp
      then have "c = 0" using c by (simp add: unat_eq_0)
      then show ?thesis by simp
    qed
  qed
  moreover have "calculate_ip_checksum (h\<lparr>ip_check := 0\<rparr>) = Some c"
    using assms by (simp add: calculate_ip_checksum_def ip_words c_def s_def length_words16)
  ultimately show ?thesis using good by (auto simp: ip_words)
qed

definition sample_iphdr :: iphdr where
  "sample_iphdr = \<lparr>ip_ihl = 5, ip_version = 4, ip_tos = 0, ip_tot_len = 40, ip_idn = htons 1232, ip_frag_off = 0,
     ip_ttl = 255, ip_protocol = 6, ip_check = 0, ip_saddr = 0x0100007f, ip_daddr = 0x0100007f\<rparr>"

lemma sample_ihl: "ip_ihl sample_iphdr = 5"
  by (simp add: sample_iphdr_def)

theorem ip_checksum_byte_order_witness:
  "\<exists>c. calculate_ip_checksum (sample_iphdr\<lparr>ip_check := 0\<rparr>) = Some c"
  using ip_checksum_byte_order [OF sample_ihl] by blast

definition sample_tcphdr :: tcphdr where
  "sample_tcphdr = \<lparr>th_source = htons 4000, th_dest = htons 8888, th_seq = htonl 7, th_ack_seq = htonl 9, th_doff = 5,
     th_fin = False, th_syn = False, th_rst = False, th_psh = True, th_ack = True, th_urg = False,
     th_window = htons 8192, th_check = 0, th_urg_ptr = 0\<rparr>"


section \<open>The clock\<close>

definition iclock64 :: "int \<Rightarrow> int \<Rightarrow> int" where
  "iclock64 s u = s * 1000 + u sdiv 1000"

definition iclock :: "int \<Rightarrow> int \<Rightarrow> u32" where
  "iclock s u = word_of_int (iclock64 s u) AND 0xffffffff"

text \<open>The argument of \<^verbatim>\<open>usleep\<close> in \<^verbatim>\<open>isleep\<close>, an \<^verbatim>\<open>unsigned long\<close>.\<close>

definition isleep :: "64 word \<Rightarrow> 64 word" where
  "isleep millisecond = push_bit 10 millisecond - push_bit 4 millisecond - push_bit 3 millisecond"

lemma isleep_microseconds: "isleep ms = 1000 * ms"
  by (simp add: isleep_def push_bit_eq_mult algebra_simps)


text \<open>The 32-bit clock measures times up to 24 days, across its wrap-around.\<close>

lemma iclock_difference:
  assumes "0 \<le> iclock64 s' u' - iclock64 s u" and "iclock64 s' u' - iclock64 s u < 2147483648"
  shows "itimediff (iclock s' u') (iclock s u) = iclock64 s' u' - iclock64 s u"
proof -
  have "w AND 0xffffffff = w" for w :: u32
  proof -
    have "w AND mask 32 = take_bit 32 w" by (simp only: take_bit_eq_mask)
    then show ?thesis by (simp add: mask_eq_exp_minus_1 take_bit_word_eq_self)
  qed
  then have "iclock s' u' - iclock s u = word_of_int (iclock64 s' u' - iclock64 s u)"
    by (simp add: iclock_def)
  then show ?thesis using assms by (simp only: itimediff_def) (intro sint_of_int_small; linarith)
qed

end
