(* ===== verification/Tcp_Client.thy ===== *)
theory Tcp_Client
  imports Fake_Tcp Kcp_Api
begin

text \<open>
  The client of \<^verbatim>\<open>kcp_client.cc\<close>: the object \<^verbatim>\<open>KcpClient\<close>, the construction of its packets, the
  output callback of its control block, the handshake and the closing sequence. What the kernel
  answers (\<^verbatim>\<open>select\<close>, \<^verbatim>\<open>sendto\<close>, \<^verbatim>\<open>recvfrom\<close>, the deadline checks) is a list of events that the
  functions consume; a function that would go on waiting at the end of the list is \<open>Pending\<close>, a
  failing assertion or an access outside of a buffer is \<open>Abort\<close>. Packets are the bytes handed to
  the raw socket.
\<close>

section \<open>The client object\<close>

datatype conn_state =
    TCP_CLOSED
  | TCP_SYN_SEND
  | TCP_ESTABLISHED
  | TCP_FIN_WAIT1
  | TCP_FIN_WAIT2
  | TCP_CLOSE_WAIT
  | TCP_CLOSING

text \<open>\<^verbatim>\<open>c_addr\<close> and \<^verbatim>\<open>s_addr\<close> are the values of \<^verbatim>\<open>inet_addr(c_ip)\<close> and \<^verbatim>\<open>inet_addr(s_ip)\<close>.\<close>

record kcp_client =
  ip_id :: int
  c_port :: int
  s_port :: int
  c_addr :: u32
  s_addr :: u32
  s_state :: conn_state
  finish_loop :: bool
  m_kcp :: "kcpcb option"
  cl_seq :: u32
  server_ack_seq :: u32
  CLIENT_SUM_SEND :: u32
  stopFlag :: bool
  finishSend :: bool

text \<open>The constructor; \<^verbatim>\<open>finish_loop\<close> keeps whatever was in memory.\<close>

definition KcpClient :: "bool \<Rightarrow> bool \<Rightarrow> bool \<Rightarrow> int \<Rightarrow> u16 \<Rightarrow> u16 \<Rightarrow> u32 \<Rightarrow> u32 \<Rightarrow> kcp_client option" where
  "KcpClient junk malloc_kcp malloc_buffer rand cp sp ca sa =
     (case ikcp_create malloc_kcp malloc_buffer (ucast cp) of
        None \<Rightarrow> None
      | Some k \<Rightarrow> Some \<lparr>ip_id = 1231, c_port = uint cp, s_port = uint sp, c_addr = ca, s_addr = sa,
          s_state = TCP_CLOSED, finish_loop = junk, m_kcp = Some k, cl_seq = word_of_int rand,
          server_ack_seq = 0, CLIENT_SUM_SEND = 0, stopFlag = False, finishSend = False\<rparr>)"

datatype 'a run = Pending | Abort | Done 'a

section \<open>Packets\<close>

definition IPVERSION :: u8 where "IPVERSION = 4"

text \<open>The two headers, before the checksums are filled in.\<close>

definition client_iphdr :: "kcp_client \<Rightarrow> nat \<Rightarrow> iphdr" where
  "client_iphdr c data_len =
     \<lparr>ip_ihl = 5, ip_version = IPVERSION, ip_tos = 0, ip_tot_len = of_nat (20 + 20 + data_len),
      ip_idn = htons (word_of_int (ip_id c)), ip_frag_off = 0, ip_ttl = 255, ip_protocol = IPPROTO_TCP,
      ip_check = 0, ip_saddr = c_addr c, ip_daddr = s_addr c\<rparr>"

definition client_tcphdr :: "kcp_client \<Rightarrow> int \<Rightarrow> int \<Rightarrow> int \<Rightarrow> int \<Rightarrow> tcphdr" where
  "client_tcphdr c ack psh syn fin =
     \<lparr>th_source = htons (word_of_int (c_port c)), th_dest = htons (word_of_int (s_port c)),
      th_seq = htonl (cl_seq c + CLIENT_SUM_SEND c), th_ack_seq = htonl (server_ack_seq c), th_doff = 5,
      th_fin = odd fin, th_syn = odd syn, th_rst = False, th_psh = odd psh, th_ack = odd ack, th_urg = False,
      th_window = htons 8192, th_check = 0, th_urg_ptr = 0\<rparr>"

definition seal_headers :: "iphdr \<Rightarrow> tcphdr \<Rightarrow> bytes \<Rightarrow> nat \<Rightarrow> (iphdr \<times> tcphdr) option" where
  "seal_headers h t buf data_len =
     (case calculate_ip_checksum h of None \<Rightarrow> None
      | Some ic \<Rightarrow> let h = h\<lparr>ip_check := ic\<rparr> in
        (case calculate_tcp_checksum h t buf data_len of None \<Rightarrow> None
         | Some tc \<Rightarrow> Some (h, t\<lparr>th_check := htons tc\<rparr>)))"

text \<open>\<^const>\<open>None\<close>: the packet does not fit into \<^verbatim>\<open>data\<close>, or the buffer is shorter than announced.\<close>

definition build_ip_tcp_header ::
  "kcp_client \<Rightarrow> bytes \<Rightarrow> bytes \<Rightarrow> nat \<Rightarrow> int \<Rightarrow> int \<Rightarrow> int \<Rightarrow> int \<Rightarrow> (bytes \<times> kcp_client) option" where
  "build_ip_tcp_header c data buf data_len ack psh syn fin =
     (let c = c\<lparr>ip_id := ip_id c + 1\<rparr>
      in case seal_headers (client_iphdr c data_len) (client_tcphdr c ack psh syn fin) buf data_len of
        None \<Rightarrow> None
      | Some (h, t) \<Rightarrow>
          if length data < 40 + data_len \<or> length buf < data_len then None
          else
            let data = memcpy_at data 0 (iphdr_bytes h) 20;
                data = memcpy_at data 20 (tcphdr_bytes t) 20;
                data = memcpy_at data 40 buf data_len
            in Some (data, c\<lparr>CLIENT_SUM_SEND := CLIENT_SUM_SEND c + of_nat data_len\<rparr>))"

text \<open>
  The output callback of the control block: one packet per \<^verbatim>\<open>UDP_MTU\<close> bytes. Each pass of the loop
  takes one event: \<^verbatim>\<open>select\<close> fails, the socket is not writable, or \<^verbatim>\<open>sendto\<close> fails or succeeds.
\<close>

datatype send_ev = Select_fails | Not_writable | Sendto bool

definition UDP_MTU :: nat where "UDP_MTU = 1400 + 48"

fun tcp_client_cb_loop ::
  "kcp_client \<Rightarrow> bytes \<Rightarrow> nat \<Rightarrow> nat \<Rightarrow> bytes list \<Rightarrow> send_ev list \<Rightarrow> (int \<times> kcp_client \<times> bytes list) run" where
  "tcp_client_cb_loop c buf len sended sent [] =
     (if sended < len then Pending else Done (int sended, c, sent))"
| "tcp_client_cb_loop c buf len sended sent (ev # evs) =
     (if \<not> sended < len then Done (int sended, c, sent)
      else
        let s = len - sended;
            s = (if s > UDP_MTU then UDP_MTU else s);
            data_len = s;
            c = c\<lparr>ip_id := ip_id c + 1\<rparr>
        in if sended + data_len > length buf then Abort
           else case seal_headers (client_iphdr c data_len) (client_tcphdr c 1 1 0 0) buf data_len of
             None \<Rightarrow> Abort
           | Some (h, t) \<Rightarrow>
               let packet = iphdr_bytes h @ tcphdr_bytes t @ take data_len (drop sended buf)
               in case ev of
                    Select_fails \<Rightarrow> Done (0, c, sent)
                  | Not_writable \<Rightarrow> tcp_client_cb_loop c buf len sended sent evs
                  | Sendto ok \<Rightarrow>
                      if \<not> ok then tcp_client_cb_loop c buf len sended sent evs
                      else tcp_client_cb_loop (c\<lparr>CLIENT_SUM_SEND := CLIENT_SUM_SEND c + of_nat data_len\<rparr>)
                             buf len (sended + s) (sent @ [packet]) evs)"

definition tcp_client_cb :: "kcp_client \<Rightarrow> bytes \<Rightarrow> int \<Rightarrow> send_ev list \<Rightarrow> (int \<times> kcp_client \<times> bytes list) run" where
  "tcp_client_cb c buf len evs = tcp_client_cb_loop c buf (nat len) 0 [] evs"

section \<open>What the packets of the client say\<close>

lemma ip_checksum_total: "ip_ihl h = 5 \<Longrightarrow> \<exists>c. calculate_ip_checksum h = Some c"
  by (simp add: calculate_ip_checksum_def Let_def)

lemma seal_headers_total:
  assumes "ip_ihl h = 5" and "n \<le> length buf"
  obtains ic tc where "seal_headers h t buf n = Some (h\<lparr>ip_check := ic\<rparr>, t\<lparr>th_check := htons tc\<rparr>)"
    and "calculate_tcp_checksum (h\<lparr>ip_check := ic\<rparr>) t buf n = Some tc"
proof -
  obtain ic where ic: "calculate_ip_checksum h = Some ic" using ip_checksum_total [OF assms(1)] by blast
  obtain tc where tc: "calculate_tcp_checksum (h\<lparr>ip_check := ic\<rparr>) t buf n = Some tc"
    using assms(2) by (simp add: calculate_tcp_checksum_def tcp_sum_words)
  show ?thesis using that [of ic tc] ic tc by (simp add: seal_headers_def)
qed

text \<open>A control packet: the two headers, which say what the client's fields say.\<close>

definition control_packet :: "kcp_client \<Rightarrow> bool \<Rightarrow> bool \<Rightarrow> bool \<Rightarrow> bytes \<Rightarrow> bool" where
  "control_packet c ack syn fin p \<longleftrightarrow>
     (\<exists>h t. p = iphdr_bytes h @ tcphdr_bytes t \<and> ip_saddr h = c_addr c \<and> ip_daddr h = s_addr c \<and>
        th_source t = htons (word_of_int (c_port c)) \<and> th_dest t = htons (word_of_int (s_port c)) \<and>
        th_seq t = htonl (cl_seq c + CLIENT_SUM_SEND c) \<and> th_ack_seq t = htonl (server_ack_seq c) \<and>
        th_ack t = ack \<and> th_syn t = syn \<and> th_fin t = fin \<and> \<not> th_rst t \<and>
        (\<exists>s. tcp_sum h t [] 0 = Some s \<and> checksum_fold s = 0xffff))"

lemma control_packet_built:
  assumes "length data \<ge> 40"
  obtains p where "build_ip_tcp_header c data [] 0 ack psh syn fin = Some (p @ drop 40 data, c\<lparr>ip_id := ip_id c + 1\<rparr>)"
    and "length p = 40" and "control_packet c (odd ack) (odd syn) (odd fin) p"
proof -
  let ?c = "c\<lparr>ip_id := ip_id c + 1\<rparr>"
  let ?h = "client_iphdr ?c 0" and ?t = "client_tcphdr ?c ack psh syn fin"
  obtain ic tc where s: "seal_headers ?h ?t [] 0 = Some (?h\<lparr>ip_check := ic\<rparr>, ?t\<lparr>th_check := htons tc\<rparr>)"
    and tc: "calculate_tcp_checksum (?h\<lparr>ip_check := ic\<rparr>) ?t [] 0 = Some tc"
    by (rule seal_headers_total [of ?h 0 "[]" ?t]) (simp_all add: client_iphdr_def)
  let ?p = "iphdr_bytes (?h\<lparr>ip_check := ic\<rparr>) @ tcphdr_bytes (?t\<lparr>th_check := htons tc\<rparr>)"
  have "?t\<lparr>th_check := 0\<rparr> = ?t" by (simp add: client_tcphdr_def)
  with tcp_checksum_holds [of "[]" "?h\<lparr>ip_check := ic\<rparr>" ?t] tc
  have "\<exists>s. tcp_sum (?h\<lparr>ip_check := ic\<rparr>) (?t\<lparr>th_check := htons tc\<rparr>) [] 0 = Some s \<and> checksum_fold s = 0xffff"
    by auto
  then have "control_packet c (odd ack) (odd syn) (odd fin) ?p"
    unfolding control_packet_def
    by (intro exI [of _ "?h\<lparr>ip_check := ic\<rparr>"] exI [of _ "?t\<lparr>th_check := htons tc\<rparr>"])
       (simp add: client_iphdr_def client_tcphdr_def)
  moreover have "build_ip_tcp_header c data [] 0 ack psh syn fin = Some (?p @ drop 40 data, ?c)"
    using assms s by (simp add: build_ip_tcp_header_def Let_def memcpy_at_def)
  ultimately show ?thesis using that [of ?p] by simp
qed

section \<open>The output callback sends a TCP stream\<close>

text \<open>Packets of the client whose sequence numbers continue from \<open>n\<close>.\<close>

fun in_order :: "kcp_client \<Rightarrow> u32 \<Rightarrow> bytes list \<Rightarrow> bool" where
  "in_order c n [] = True"
| "in_order c n (p # ps) =
     (prase_tcp_packet p = Some (tcp_info0\<lparr>ti_ack := True, ti_rst := False, ti_fin := False,
        ti_port_src := word_of_int (c_port c), ti_port_dst := word_of_int (s_port c),
        ti_seq := n, ti_ack_seq := server_ack_seq c, ti_iphdr_len := 5\<rparr>) \<and>
      in_order c (n + of_nat (length (drop 40 p))) ps)"

lemma in_order_frame [simp]:
  "in_order (c\<lparr>ip_id := i\<rparr>) n ps = in_order c n ps"
  "in_order (c\<lparr>ip_id := i, CLIENT_SUM_SEND := s\<rparr>) n ps = in_order c n ps"
  by (induction ps arbitrary: n) simp_all

lemma data_packet_read:
  assumes "seal_headers (client_iphdr c n) (client_tcphdr c 1 1 0 0) buf n = Some (h, t)"
  shows "prase_tcp_packet (iphdr_bytes h @ tcphdr_bytes t @ d) = Some (tcp_info0\<lparr>ti_ack := True, ti_rst := False,
     ti_fin := False, ti_port_src := word_of_int (c_port c), ti_port_dst := word_of_int (s_port c),
     ti_seq := cl_seq c + CLIENT_SUM_SEND c, ti_ack_seq := server_ack_seq c, ti_iphdr_len := 5\<rparr>)"
proof -
  obtain ic tc where "h = client_iphdr c n\<lparr>ip_check := ic\<rparr>" "t = client_tcphdr c 1 1 0 0\<lparr>th_check := tc\<rparr>"
    using assms by (auto simp: seal_headers_def Let_def split: option.splits)
  then show ?thesis by (simp add: prase_headers client_iphdr_def client_tcphdr_def)
qed

lemma cb_loop_stream:
  assumes "len \<le> length buf" and "Select_fails \<notin> set evs" and "sended \<le> len"
    and "len \<le> sended + UDP_MTU * length (filter ((=) (Sendto True)) evs)"
  shows "\<exists>i new. tcp_client_cb_loop c buf len sended sent evs =
      Done (int len, c\<lparr>ip_id := i, CLIENT_SUM_SEND := CLIENT_SUM_SEND c + of_nat (len - sended)\<rparr>, sent @ new) \<and>
    concat (map (drop 40) new) = take (len - sended) (drop sended buf) \<and>
    in_order c (cl_seq c + CLIENT_SUM_SEND c) new"
  using assms
proof (induction evs arbitrary: c sended sent)
  case Nil
  then show ?case by (auto intro!: exI [of _ "ip_id c"] exI [of _ "[]"])
next
  case (Cons ev evs)
  show ?case
  proof (cases "sended < len")
    case False
    then show ?thesis using Cons.prems by (auto intro!: exI [of _ "ip_id c"] exI [of _ "[]"])
  next
    case True
    define s where "s = (if len - sended > UDP_MTU then UDP_MTU else len - sended)"
    let ?c = "c\<lparr>ip_id := ip_id c + 1\<rparr>"
    have s: "s \<le> length buf" "sended + s \<le> len" "0 < s" "s \<le> UDP_MTU"
      using True Cons.prems(1) by (auto simp: s_def UDP_MTU_def)
    obtain ic tc where h: "seal_headers (client_iphdr ?c s) (client_tcphdr ?c 1 1 0 0) buf s =
        Some (client_iphdr ?c s\<lparr>ip_check := ic\<rparr>, client_tcphdr ?c 1 1 0 0\<lparr>th_check := htons tc\<rparr>)"
      by (rule seal_headers_total [of "client_iphdr ?c s" s buf "client_tcphdr ?c 1 1 0 0"])
        (simp_all add: client_iphdr_def s(1))
    define p where "p = iphdr_bytes (client_iphdr ?c s\<lparr>ip_check := ic\<rparr>) @
        tcphdr_bytes (client_tcphdr ?c 1 1 0 0\<lparr>th_check := htons tc\<rparr>) @ take s (drop sended buf)"
    have step: "tcp_client_cb_loop c buf len sended sent (ev # evs) =
        (case ev of Select_fails \<Rightarrow> Done (0, ?c, sent)
         | Not_writable \<Rightarrow> tcp_client_cb_loop ?c buf len sended sent evs
         | Sendto ok \<Rightarrow> if \<not> ok then tcp_client_cb_loop ?c buf len sended sent evs
             else tcp_client_cb_loop (?c\<lparr>CLIENT_SUM_SEND := CLIENT_SUM_SEND ?c + of_nat s\<rparr>) buf len (sended + s) (sent @ [p]) evs)"
      unfolding tcp_client_cb_loop.simps Let_def s_def [symmetric]
      using True s Cons.prems(1) h by (cases ev) (simp_all add: p_def)
    show ?thesis
    proof (cases "ev = Sendto True")
      case False
      then have "tcp_client_cb_loop c buf len sended sent (ev # evs) = tcp_client_cb_loop ?c buf len sended sent evs"
        using Cons.prems(2) unfolding step by (cases ev) auto
      moreover have "len \<le> sended + UDP_MTU * length (filter ((=) (Sendto True)) evs)"
        using Cons.prems(4) False by auto
      ultimately show ?thesis using Cons.IH [of sended ?c sent] Cons.prems(1-3) by fastforce
    next
      case True
      let ?c2 = "?c\<lparr>CLIENT_SUM_SEND := CLIENT_SUM_SEND c + of_nat s\<rparr>"
      have "len \<le> (sended + s) + UDP_MTU * length (filter ((=) (Sendto True)) evs)"
        using Cons.prems(4) True by (auto simp: s_def)
      then obtain i new where IH: "tcp_client_cb_loop ?c2 buf len (sended + s) (sent @ [p]) evs =
          Done (int len, ?c2\<lparr>ip_id := i, CLIENT_SUM_SEND := CLIENT_SUM_SEND ?c2 + of_nat (len - (sended + s))\<rparr>, (sent @ [p]) @ new)"
        "concat (map (drop 40) new) = take (len - (sended + s)) (drop (sended + s) buf)"
        "in_order ?c2 (cl_seq ?c2 + CLIENT_SUM_SEND ?c2) new"
        using Cons.IH [of "sended + s" ?c2 "sent @ [p]"] Cons.prems(1,2) s(2) by auto
      have sum: "of_nat s + of_nat (len - (sended + s)) = (of_nat (len - sended) :: u32)"
        using s(2) by (metis of_nat_add diff_diff_left le_add_diff_inverse add.commute add_le_imp_le_diff)
      have d: "drop 40 p = take s (drop sended buf)" "length (take s (drop sended buf)) = s"
        using s(2) Cons.prems(1) by (simp_all add: p_def)
      have "concat (map (drop 40) (p # new)) = take (len - sended) (drop sended buf)"
      proof -
        have "take (s + (len - (sended + s))) (drop sended buf) =
            take s (drop sended buf) @ take (len - (sended + s)) (drop (sended + s) buf)"
          by (simp add: take_add add.commute)
        then show ?thesis using IH(2) d(1) s(2) by simp
      qed
      moreover have "in_order c (cl_seq c + CLIENT_SUM_SEND c) (p # new)"
        using IH(3) d data_packet_read [OF h] by (simp add: p_def add.assoc)
      moreover have "tcp_client_cb_loop c buf len sended sent (ev # evs) =
          Done (int len, c\<lparr>ip_id := i, CLIENT_SUM_SEND := CLIENT_SUM_SEND c + of_nat (len - sended)\<rparr>, sent @ p # new)"
        unfolding step using True IH(1) by (simp add: sum add.assoc)
      ultimately show ?thesis by blast
    qed
  qed
qed



definition sample_client :: kcp_client where
  "sample_client = the (KcpClient False True True 100 4000 8888 0x0100007f 0x0100007f)"


text \<open>
  The checksum is computed over the start of the buffer for every packet. That is right for the first
  one, and the protocol never sends more than that at once: its datagrams are at most 1400 bytes.
\<close>

lemma first_packet_checksum:
  assumes "n \<le> length buf" and "n \<le> 65515"
    and "seal_headers (client_iphdr c n) (client_tcphdr c 1 1 0 0) buf n = Some (h, t)"
  shows "\<exists>s. tcp_sum h t (take n buf) n = Some s \<and> checksum_fold s = 0xffff"
proof -
  let ?t = "client_tcphdr c 1 1 0 0"
  obtain ic tc where h: "h = client_iphdr c n\<lparr>ip_check := ic\<rparr>" "t = ?t\<lparr>th_check := htons tc\<rparr>"
    and tc: "calculate_tcp_checksum h ?t buf n = Some tc"
    using assms(3) by (auto simp: seal_headers_def Let_def split: option.splits)
  have "calculate_tcp_checksum h ?t (take n buf) n = Some tc"
    using tc assms(1) by (simp add: calculate_tcp_checksum_def tcp_sum_words)
  moreover have "?t\<lparr>th_check := 0\<rparr> = ?t" by (simp add: client_tcphdr_def)
  ultimately show ?thesis
    using tcp_checksum_holds [of "take n buf" h ?t] assms(1,2) h by auto
qed

section \<open>The handshake\<close>

text \<open>\<^verbatim>\<open>nonBlockingSend\<close>: its result and what went out.\<close>

definition nonBlockingSend :: "bytes \<Rightarrow> send_ev \<Rightarrow> int \<times> bytes list" where
  "nonBlockingSend data ev =
     (case ev of
        Select_fails \<Rightarrow> (0, [])
      | Not_writable \<Rightarrow> (0, [])
      | Sendto ok \<Rightarrow> if ok then (int (length data), [data]) else (-1, []))"

text \<open>
  One pass of a receive loop: \<^verbatim>\<open>select\<close> fails or times out, \<^verbatim>\<open>recvfrom\<close> fails, or a packet comes in;
  the flag tells whether the deadline has passed when the loop looks at the clock after the packet.
\<close>

datatype net_ev = Ev_select_error | Ev_timeout | Ev_recv_error | Ev_packet bytes bool

text \<open>\<^verbatim>\<open>recvfrom(fd, data, sizeof(data), ...)\<close>: the rest of the buffer keeps its old contents.\<close>

definition recv_into :: "bytes \<Rightarrow> bytes \<Rightarrow> bytes" where
  "recv_into data p = memcpy_at data 0 p (min (length data) (length p))"

text \<open>
  Waiting for the answer to the SYN. Only a packet for another port makes the loop look at the clock.
  The result is the buffer and the answer, or \<^const>\<open>None\<close> when the deadline has passed.
\<close>

fun hand_shake_wait :: "kcp_client \<Rightarrow> bytes \<Rightarrow> net_ev list \<Rightarrow> (bytes \<times> tcp_info option) run" where
  "hand_shake_wait c data [] = Pending"
| "hand_shake_wait c data (Ev_packet p late # evs) =
     (let data = recv_into data p
      in case prase_tcp_packet data of
           None \<Rightarrow> Abort
         | Some info \<Rightarrow>
             if uint (ti_port_dst info) = c_port c then Done (data, Some info)
             else if late then Done (data, None)
             else hand_shake_wait c data evs)"
| "hand_shake_wait c data (_ # evs) = hand_shake_wait c data evs"

definition waving_send_fin :: "kcp_client \<Rightarrow> bool \<Rightarrow> (kcp_client \<times> bytes list) run" where
  "waving_send_fin c ok =
     (case build_ip_tcp_header c (replicate 41 0) [] 0 1 0 0 1 of
        None \<Rightarrow> Abort
      | Some (data, c) \<Rightarrow>
          if \<not> ok then Done (c, [])
          else Done (c\<lparr>s_state := TCP_FIN_WAIT1\<rparr>, [take 40 data]))"

text \<open>
  What follows the answer. The flag of the result tells that the function goes on to \<^verbatim>\<open>send_file\<close>;
  \<open>snd2\<close> is what happens to the acknowledgement, \<open>fin_ok\<close> whether a FIN can be sent.
\<close>

definition hand_shake_reply ::
  "kcp_client \<Rightarrow> bytes \<Rightarrow> tcp_info \<Rightarrow> send_ev \<Rightarrow> bool \<Rightarrow> (kcp_client \<times> bytes list \<times> bool) run" where
  "hand_shake_reply c data info snd2 fin_ok =
     (if ti_fin info then
        (case waving_send_fin (c\<lparr>s_state := TCP_ESTABLISHED\<rparr>) fin_ok of
           Done (c, out) \<Rightarrow> Done (c, out, False)
         | Pending \<Rightarrow> Pending
         | Abort \<Rightarrow> Abort)
      else if ti_ack_seq info \<noteq> cl_seq c + 1 then Done (c, [], False)
      else
        let c = c\<lparr>cl_seq := cl_seq c + 1, server_ack_seq := ti_seq info + 1\<rparr>
        in case build_ip_tcp_header c data [] 0 1 0 0 0 of
             None \<Rightarrow> Abort
           | Some (data, c) \<Rightarrow>
               let (ret, out) = nonBlockingSend (take 40 data) snd2
               in if ret \<le> 0 then Done (c, out, False)
                  else Done (c\<lparr>s_state := TCP_ESTABLISHED\<rparr>, out, True))"

text \<open>\<open>snd1\<close> is what happens to the SYN.\<close>

definition start_hand_shake ::
  "kcp_client \<Rightarrow> send_ev \<Rightarrow> net_ev list \<Rightarrow> send_ev \<Rightarrow> bool \<Rightarrow> (kcp_client \<times> bytes list \<times> bool) run" where
  "start_hand_shake c snd1 evs snd2 fin_ok =
     (if s_state c \<noteq> TCP_CLOSED then Abort
      else case build_ip_tcp_header c (replicate 1024 0) [] 0 0 0 1 0 of
        None \<Rightarrow> Abort
      | Some (data, c) \<Rightarrow>
          let c = c\<lparr>s_state := TCP_SYN_SEND\<rparr>;
              (ret, out1) = nonBlockingSend (take 40 data) snd1
          in if ret \<le> 0 then Done (c, out1, False)
             else case hand_shake_wait c data evs of
               Pending \<Rightarrow> Pending
             | Abort \<Rightarrow> Abort
             | Done (data, None) \<Rightarrow> Done (c, out1, False)
             | Done (data, Some info) \<Rightarrow>
                 (case hand_shake_reply c data info snd2 fin_ok of
                    Done (c, out2, cont) \<Rightarrow> Done (c, out1 @ out2, cont)
                  | Pending \<Rightarrow> Pending
                  | Abort \<Rightarrow> Abort))"

section \<open>Closing the connection\<close>

fun waving_recv_ack_loop :: "kcp_client \<Rightarrow> bytes \<Rightarrow> net_ev list \<Rightarrow> kcp_client run" where
  "waving_recv_ack_loop c data [] = Pending"
| "waving_recv_ack_loop c data (Ev_packet p late # evs) =
     (let data = recv_into data p
      in case prase_tcp_packet data of
           None \<Rightarrow> Abort
         | Some info \<Rightarrow>
             if ti_rst info then Done (c\<lparr>s_state := TCP_CLOSING\<rparr>)
             else if uint (ti_port_dst info) = c_port c \<and> ti_ack_seq info = cl_seq c + CLIENT_SUM_SEND c + 1 then
               (if \<not> ti_ack info then Abort
                else if ti_fin info then
                  Done (c\<lparr>server_ack_seq := ti_seq info + 1, cl_seq := cl_seq c + 1, s_state := TCP_CLOSE_WAIT\<rparr>)
                else Done (c\<lparr>s_state := TCP_FIN_WAIT2\<rparr>))
             else if late then Done (c\<lparr>s_state := TCP_ESTABLISHED\<rparr>)
             else waving_recv_ack_loop c data evs)"
| "waving_recv_ack_loop c data (_ # evs) = Done c"

definition waving_recv_ack :: "kcp_client \<Rightarrow> net_ev list \<Rightarrow> kcp_client run" where
  "waving_recv_ack c evs = waving_recv_ack_loop c (replicate 41 0) evs"

fun waving_recv_fin_loop :: "kcp_client \<Rightarrow> bytes \<Rightarrow> net_ev list \<Rightarrow> kcp_client run" where
  "waving_recv_fin_loop c data [] = Pending"
| "waving_recv_fin_loop c data (Ev_packet p late # evs) =
     (let data = recv_into data p
      in case prase_tcp_packet data of
           None \<Rightarrow> Abort
         | Some info \<Rightarrow>
             if uint (ti_port_dst info) = c_port c then
               (if ti_rst info then Done (c\<lparr>s_state := TCP_CLOSING\<rparr>)
                else if \<not> ti_fin info then Abort
                else Done (c\<lparr>server_ack_seq := ti_seq info + 1, cl_seq := cl_seq c + 1, s_state := TCP_CLOSE_WAIT\<rparr>))
             else if late then Done (c\<lparr>s_state := TCP_ESTABLISHED\<rparr>)
             else waving_recv_fin_loop c data evs)"
| "waving_recv_fin_loop c data (_ # evs) = Done c"

definition waving_recv_fin :: "kcp_client \<Rightarrow> net_ev list \<Rightarrow> kcp_client run" where
  "waving_recv_fin c evs = waving_recv_fin_loop c (replicate 41 0) evs"

definition waving_send_ack :: "kcp_client \<Rightarrow> bool \<Rightarrow> (kcp_client \<times> bytes list) run" where
  "waving_send_ack c ok =
     (case build_ip_tcp_header c (replicate 41 0) [] 0 1 0 0 0 of
        None \<Rightarrow> Abort
      | Some (data, c) \<Rightarrow>
          if \<not> ok then Done (c, [])
          else Done (c\<lparr>s_state := TCP_CLOSING\<rparr>, [take 40 data]))"

definition silently :: "kcp_client run \<Rightarrow> (kcp_client \<times> bytes list) run" where
  "silently r = (case r of Pending \<Rightarrow> Pending | Abort \<Rightarrow> Abort | Done c \<Rightarrow> Done (c, []))"

fun start_waving :: "kcp_client \<Rightarrow> bool \<times> net_ev list \<Rightarrow> (kcp_client \<times> bytes list) run" where
  "start_waving c (ok, evs) =
     (case s_state c of
        TCP_ESTABLISHED \<Rightarrow> waving_send_fin c ok
      | TCP_FIN_WAIT1 \<Rightarrow> silently (waving_recv_ack c evs)
      | TCP_FIN_WAIT2 \<Rightarrow> silently (waving_recv_fin c evs)
      | TCP_CLOSE_WAIT \<Rightarrow> waving_send_ack c ok
      | _ \<Rightarrow> Done (c, []))"

text \<open>\<^verbatim>\<open>finish\<close>: per pass the inputs of \<^verbatim>\<open>start_waving\<close> and whether the deadline has passed after it.\<close>

fun finish :: "kcp_client \<Rightarrow> bytes list \<Rightarrow> ((bool \<times> net_ev list) \<times> bool) list \<Rightarrow> (kcp_client \<times> bytes list) run" where
  "finish c sent [] = (if s_state c = TCP_CLOSING then Done (c, sent) else Pending)"
| "finish c sent ((inp, late) # ins) =
     (if s_state c = TCP_CLOSING then Done (c, sent)
      else case start_waving c inp of
        Pending \<Rightarrow> Pending
      | Abort \<Rightarrow> Abort
      | Done (c, out) \<Rightarrow> if late then Done (c, sent @ out) else finish c (sent @ out) ins)"

section \<open>What the handshake establishes\<close>

lemma recv_into_whole: "length p = n \<Longrightarrow> n \<le> length data \<Longrightarrow> recv_into data p = p @ drop n data"
  by (simp add: recv_into_def memcpy_at_def)

lemma prase_prefix: "length p \<ge> 40 \<Longrightarrow> prase_tcp_packet (p @ q) = prase_tcp_packet p"
  by (simp add: prase_tcp_packet_def Let_def)

text \<open>An answer of the server: a packet of 40 bytes for the client's port.\<close>

definition answer :: "kcp_client \<Rightarrow> bytes \<Rightarrow> tcp_info \<Rightarrow> bool" where
  "answer c p info \<longleftrightarrow> length p = 40 \<and> prase_tcp_packet p = Some info \<and> uint (ti_port_dst info) = c_port c"

lemma answer_received:
  "answer c p info \<Longrightarrow> length data \<ge> 40 \<Longrightarrow> prase_tcp_packet (recv_into data p) = Some info"
  by (simp add: answer_def recv_into_whole prase_prefix)

lemma length_recv_into [simp]: "length (recv_into data p) = length data"
  by (simp add: recv_into_def memcpy_at_def)

text \<open>Passes that do not end the wait.\<close>

definition idle :: "net_ev \<Rightarrow> bool" where
  "idle ev \<longleftrightarrow> (case ev of Ev_packet _ _ \<Rightarrow> False | _ \<Rightarrow> True)"

lemma hand_shake_wait_idle: "list_all idle evs \<Longrightarrow> hand_shake_wait c data (evs @ rest) = hand_shake_wait c data rest"
  by (induction evs) (auto simp: idle_def split: net_ev.splits)

lemma hand_shake_answered:
  assumes "answer c p info" and "length data \<ge> 40" and "list_all idle evs"
  obtains d where "hand_shake_wait c data (evs @ Ev_packet p late # rest) = Done (d, Some info)" and "length d = length data"
  using assms by (auto simp: hand_shake_wait_idle answer_received Let_def) (auto simp: answer_def)

lemma control_packet_frame [simp]:
  "control_packet (c\<lparr>ip_id := i\<rparr>) a s f p = control_packet c a s f p"
  "control_packet (c\<lparr>s_state := st\<rparr>) a s f p = control_packet c a s f p"
  "control_packet (c\<lparr>ip_id := i, s_state := st\<rparr>) a s f p = control_packet c a s f p"
  "control_packet (c\<lparr>s_state := st, ip_id := i\<rparr>) a s f p = control_packet c a s f p"
  by (simp_all add: control_packet_def)

lemma nonBlockingSend_ok [simp]: "nonBlockingSend d (Sendto True) = (int (length d), [d])"
  by (simp add: nonBlockingSend_def)

text \<open>The handshake up to the answer.\<close>

lemma hand_shake_answer:
  assumes "s_state c = TCP_CLOSED" and idle: "list_all idle evs" and ans: "answer c p info"
  obtains syn d where "length d = 1024" and "control_packet c False True False syn" and
    "start_hand_shake c (Sendto True) (evs @ Ev_packet p late # rest) snd2 fin_ok =
       (case hand_shake_reply (c\<lparr>ip_id := ip_id c + 1, s_state := TCP_SYN_SEND\<rparr>) d info snd2 fin_ok of
          Done (c, out2, cont) \<Rightarrow> Done (c, syn # out2, cont)
        | Pending \<Rightarrow> Pending
        | Abort \<Rightarrow> Abort)"
proof -
  obtain syn where b1: "build_ip_tcp_header c (replicate 1024 0) [] 0 0 0 1 0 =
      Some (syn @ drop 40 (replicate 1024 0), c\<lparr>ip_id := ip_id c + 1\<rparr>)"
    and syn: "length syn = 40" "control_packet c False True False syn"
    by (rule control_packet_built [of "replicate 1024 0" c 0 0 1 0]) auto
  define data where "data = syn @ drop 40 (replicate 1024 (0 :: u8))"
  let ?c1 = "c\<lparr>ip_id := ip_id c + 1, s_state := TCP_SYN_SEND\<rparr>"
  have data: "length data = 1024" "take 40 data = syn" using syn(1) by (simp_all add: data_def)
  have "answer ?c1 p info" using ans by (simp add: answer_def)
  from hand_shake_answered [OF this _ idle, of data late rest] obtain d where
    w: "hand_shake_wait ?c1 data (evs @ Ev_packet p late # rest) = Done (d, Some info)" "length d = 1024"
    using data(1) by auto
  have "build_ip_tcp_header c (replicate 1024 0) [] 0 0 0 1 0 = Some (data, c\<lparr>ip_id := ip_id c + 1\<rparr>)"
    unfolding b1 data_def ..
  then show ?thesis
    by (intro that [OF w(2) syn(2)]) (simp add: start_hand_shake_def Let_def assms(1) w(1) data cong: run.case_cong)
qed

lemma hand_shake_completes:
  assumes start: "s_state c = TCP_CLOSED" "list_all idle evs" "answer c p info"
    and fin: "\<not> ti_fin info" and ack: "ti_ack_seq info = cl_seq c + 1"
  shows "\<exists>c' syn ackp. start_hand_shake c (Sendto True) (evs @ Ev_packet p late # rest) (Sendto True) fin_ok =
      Done (c', [syn, ackp], True) \<and> s_state c' = TCP_ESTABLISHED \<and>
    cl_seq c' = cl_seq c + 1 \<and> server_ack_seq c' = ti_seq info + 1 \<and>
    control_packet c False True False syn \<and> control_packet c' True False False ackp"
proof -
  let ?c1 = "c\<lparr>ip_id := ip_id c + 1, s_state := TCP_SYN_SEND\<rparr>"
  obtain syn d where d: "length d = 1024" "control_packet c False True False syn"
    and run: "start_hand_shake c (Sendto True) (evs @ Ev_packet p late # rest) (Sendto True) fin_ok =
       (case hand_shake_reply ?c1 d info (Sendto True) fin_ok of
          Done (c, out2, cont) \<Rightarrow> Done (c, syn # out2, cont)
        | Pending \<Rightarrow> Pending
        | Abort \<Rightarrow> Abort)"
    by (rule hand_shake_answer [OF start])
  define c2 where "c2 = ?c1\<lparr>cl_seq := cl_seq ?c1 + 1, server_ack_seq := ti_seq info + 1\<rparr>"
  obtain ackp where b2: "build_ip_tcp_header c2 d [] 0 1 0 0 0 = Some (ackp @ drop 40 d, c2\<lparr>ip_id := ip_id c2 + 1\<rparr>)"
    and ackp: "length ackp = 40" "control_packet c2 True False False ackp"
    by (rule control_packet_built [of d c2 1 0 0 0]) (auto simp: d)
  let ?c3 = "c2\<lparr>ip_id := ip_id c2 + 1, s_state := TCP_ESTABLISHED\<rparr>"
  have "hand_shake_reply ?c1 d info (Sendto True) fin_ok = Done (?c3, [ackp], True)"
    unfolding hand_shake_reply_def Let_def c2_def [symmetric] b2
    using fin ack ackp(1) by simp
  then have "start_hand_shake c (Sendto True) (evs @ Ev_packet p late # rest) (Sendto True) fin_ok = Done (?c3, [syn, ackp], True)"
    by (simp add: run)
  moreover have "cl_seq ?c3 = cl_seq c + 1" "server_ack_seq ?c3 = ti_seq info + 1" by (simp_all add: c2_def)
  ultimately show ?thesis using ackp(2) d(2) by fastforce
qed

lemma hand_shake_refuses:
  assumes start: "s_state c = TCP_CLOSED" "list_all idle evs" "answer c p info"
    and fin: "\<not> ti_fin info" and ack: "ti_ack_seq info \<noteq> cl_seq c + 1"
  shows "\<exists>c' syn. start_hand_shake c (Sendto True) (evs @ Ev_packet p late # rest) snd2 fin_ok =
          Done (c', [syn], False) \<and> s_state c' = TCP_SYN_SEND \<and> cl_seq c' = cl_seq c"
  by (rule hand_shake_answer [OF start, of late rest snd2 fin_ok])
     (use fin ack in \<open>simp add: hand_shake_reply_def\<close>)

text \<open>
  C19: The handshake. When the first answer for the client's port acknowledges the SYN and is not a FIN,
  the client ends up established: it has sent a SYN with its initial sequence number and an
  acknowledgement that continues it by one and acknowledges the server's sequence number plus one,
  both with valid checksums, and goes on to send the file. Failing and empty polls before the answer
  do not matter. An answer that acknowledges something else leaves the connection unopened.
\<close>

theorem hand_shake_establishes:
  assumes "s_state c = TCP_CLOSED" and "list_all idle evs" and "answer c p info" and "\<not> ti_fin info"
  shows "(ti_ack_seq info = cl_seq c + 1 \<longrightarrow>
      (\<exists>c' syn ackp. start_hand_shake c (Sendto True) (evs @ Ev_packet p late # rest) (Sendto True) fin_ok =
          Done (c', [syn, ackp], True) \<and> s_state c' = TCP_ESTABLISHED \<and>
        cl_seq c' = cl_seq c + 1 \<and> server_ack_seq c' = ti_seq info + 1 \<and>
        control_packet c False True False syn \<and> control_packet c' True False False ackp)) \<and>
    (ti_ack_seq info \<noteq> cl_seq c + 1 \<longrightarrow>
      (\<exists>c' syn. start_hand_shake c (Sendto True) (evs @ Ev_packet p late # rest) snd2 fin_ok =
          Done (c', [syn], False) \<and> s_state c' = TCP_SYN_SEND \<and> cl_seq c' = cl_seq c))"
  using hand_shake_completes [OF assms] hand_shake_refuses [OF assms] by blast


definition sample_answer :: "bool \<Rightarrow> u32 \<Rightarrow> bytes" where
  "sample_answer rst n = iphdr_bytes sample_iphdr @ tcphdr_bytes (sample_tcphdr\<lparr>th_source := htons 8888, th_dest := htons 4000,
     th_seq := htonl 500, th_ack_seq := htonl n, th_syn := \<not> rst, th_rst := rst\<rparr>)"

lemma sample_answer_read:
  "\<exists>info. answer sample_client (sample_answer rst n) info \<and> ti_ack_seq info = n \<and> ti_seq info = 500 \<and> \<not> ti_fin info \<and> ti_rst info = rst"
  using prase_headers [of sample_iphdr "sample_tcphdr\<lparr>th_source := htons 8888, th_dest := htons 4000,
     th_seq := htonl 500, th_ack_seq := htonl n, th_syn := \<not> rst, th_rst := rst\<rparr>" "[]"]
  by (simp add: answer_def sample_answer_def sample_tcphdr_def sample_client_def KcpClient_def ikcp_create_def)

lemma sample_client_values:
  "s_state sample_client = TCP_CLOSED" "cl_seq sample_client = 100"
  by (simp_all add: sample_client_def KcpClient_def ikcp_create_def)

theorem hand_shake_establishes_witness:
  "\<exists>c' syn ackp. start_hand_shake sample_client (Sendto True) ([Ev_timeout] @ Ev_packet (sample_answer False 101) False # []) (Sendto True) True =
          Done (c', [syn, ackp], True) \<and> s_state c' = TCP_ESTABLISHED \<and> server_ack_seq c' = 501"
proof -
  obtain info where i: "answer sample_client (sample_answer False 101) info" "ti_ack_seq info = 101" "ti_seq info = 500"
    "\<not> ti_fin info"
    using sample_answer_read by blast
  show ?thesis
    using hand_shake_establishes [OF sample_client_values(1) _ i(1) i(4), of "[Ev_timeout]" False "[]" True]
    by (auto simp: i sample_client_values idle_def)
qed

text \<open>
  C32: Two ways in which opening a connection goes wrong. While nothing arrives the function never
  gives up, its deadline notwithstanding, since only a packet for another port makes it look at the clock.
  And an answer that resets the connection, as a host without a server sends it, is taken for the
  server's agreement: the client considers itself connected.
\<close>

theorem hand_shake_hazards:
  "(s_state c = TCP_CLOSED \<and> list_all idle evs \<longrightarrow>
      start_hand_shake c (Sendto True) evs snd2 fin_ok = Pending) \<and>
   (s_state c = TCP_CLOSED \<and> answer c p info \<and> ti_rst info \<and> \<not> ti_fin info \<and> ti_ack_seq info = cl_seq c + 1 \<longrightarrow>
      (\<exists>c' out. start_hand_shake c (Sendto True) [Ev_packet p late] (Sendto True) fin_ok = Done (c', out, True) \<and>
        s_state c' = TCP_ESTABLISHED))"
proof -
  have "hand_shake_wait c' d evs = Pending" if "list_all idle evs" for c' d
    using hand_shake_wait_idle [OF that, of c' d "[]"] by simp
  moreover obtain syn where "build_ip_tcp_header c (replicate 1024 0) [] 0 0 0 1 0 =
      Some (syn @ drop 40 (replicate 1024 0), c\<lparr>ip_id := ip_id c + 1\<rparr>)" "length syn = 40"
    by (rule control_packet_built [of "replicate 1024 0" c 0 0 1 0]) auto
  ultimately have 1: "start_hand_shake c (Sendto True) evs snd2 fin_ok = Pending"
    if "s_state c = TCP_CLOSED" "list_all idle evs"
    using that by (simp add: start_hand_shake_def Let_def)
  have 2: "\<exists>c' out. start_hand_shake c (Sendto True) [Ev_packet p late] (Sendto True) fin_ok = Done (c', out, True) \<and>
        s_state c' = TCP_ESTABLISHED"
    if "s_state c = TCP_CLOSED" "answer c p info" "\<not> ti_fin info" "ti_ack_seq info = cl_seq c + 1"
    using hand_shake_completes [OF that(1) _ that(2-4), of "[]" late "[]" fin_ok] by auto
  show ?thesis using 1 2 by blast
qed

theorem hand_shake_hazards_witness:
  "start_hand_shake sample_client (Sendto True) [Ev_timeout, Ev_recv_error] (Sendto True) True = Pending \<and>
   (\<exists>c' out. start_hand_shake sample_client (Sendto True) [Ev_packet (sample_answer True 101) False] (Sendto True) True =
      Done (c', out, True))"
proof -
  obtain info where i: "answer sample_client (sample_answer True 101) info" "ti_ack_seq info = 101" "\<not> ti_fin info"
    "ti_rst info"
    using sample_answer_read by blast
  show ?thesis
    using hand_shake_hazards [of sample_client "[Ev_timeout, Ev_recv_error]" "Sendto True" True "sample_answer True 101" info False]
    by (auto simp: i sample_client_values idle_def)
qed

section \<open>The closing sequence as a state machine\<close>

text \<open>
  What one pass of \<^verbatim>\<open>start_waving\<close> may do, as a step relation between clients, labelled with the packets
  it sends.
\<close>

inductive wave :: "kcp_client \<Rightarrow> bytes list \<Rightarrow> kcp_client \<Rightarrow> bool" where
  wave_fin: "s_state c = TCP_ESTABLISHED \<Longrightarrow> control_packet c True False True p \<Longrightarrow>
     wave c [p] (c\<lparr>ip_id := i, s_state := TCP_FIN_WAIT1\<rparr>)"
| wave_acked: "s_state c = TCP_FIN_WAIT1 \<Longrightarrow> wave c [] (c\<lparr>s_state := TCP_FIN_WAIT2\<rparr>)"
| wave_peer_fin: "s_state c \<in> {TCP_FIN_WAIT1, TCP_FIN_WAIT2} \<Longrightarrow>
     wave c [] (c\<lparr>server_ack_seq := a, cl_seq := cl_seq c + 1, s_state := TCP_CLOSE_WAIT\<rparr>)"
| wave_reset: "s_state c \<in> {TCP_FIN_WAIT1, TCP_FIN_WAIT2} \<Longrightarrow> wave c [] (c\<lparr>s_state := TCP_CLOSING\<rparr>)"
| wave_again: "s_state c \<in> {TCP_FIN_WAIT1, TCP_FIN_WAIT2} \<Longrightarrow> wave c [] (c\<lparr>s_state := TCP_ESTABLISHED\<rparr>)"
| wave_last: "s_state c = TCP_CLOSE_WAIT \<Longrightarrow> control_packet c True False False p \<Longrightarrow>
     wave c [p] (c\<lparr>ip_id := i, s_state := TCP_CLOSING\<rparr>)"
| wave_none: "wave c [] (c\<lparr>ip_id := i\<rparr>)"

inductive_cases wave_elim: "wave c out c'"

inductive waves :: "kcp_client \<Rightarrow> bytes list \<Rightarrow> kcp_client \<Rightarrow> bool" where
  waves_refl: "waves c [] c"
| waves_step: "waves c sent c' \<Longrightarrow> wave c' out c'' \<Longrightarrow> waves c (sent @ out) c''"

text \<open>The functions of the code take such steps.\<close>

lemma wave_same: "wave c [] c"
  using wave_none [of c "ip_id c"] by simp

lemma recv_ack_wave:
  "waving_recv_ack_loop c d evs = Done c' \<Longrightarrow> s_state c = TCP_FIN_WAIT1 \<Longrightarrow> wave c [] c'"
proof (induction c d evs rule: waving_recv_ack_loop.induct)
  case (2 c d p late evs)
  then show ?case
    by (auto simp: Let_def split: option.splits if_splits
        intro: wave_acked wave_peer_fin wave_reset wave_again)
qed (auto intro: wave_same)

lemma recv_fin_wave:
  "waving_recv_fin_loop c d evs = Done c' \<Longrightarrow> s_state c = TCP_FIN_WAIT2 \<Longrightarrow> wave c [] c'"
proof (induction c d evs rule: waving_recv_fin_loop.induct)
  case (2 c d p late evs)
  then show ?case
    by (auto simp: Let_def split: option.splits if_splits intro: wave_peer_fin wave_reset wave_again)
qed (auto intro: wave_same)

lemma send_fin_cases:
  assumes "waving_send_fin c ok = r"
  obtains "\<not> ok" and "r = Done (c\<lparr>ip_id := ip_id c + 1\<rparr>, [])"
  | p where "ok" and "control_packet c True False True p" and
      "r = Done (c\<lparr>ip_id := ip_id c + 1, s_state := TCP_FIN_WAIT1\<rparr>, [p])"
proof -
  obtain p where "build_ip_tcp_header c (replicate 41 0) [] 0 1 0 0 1 = Some (p @ drop 40 (replicate 41 0), c\<lparr>ip_id := ip_id c + 1\<rparr>)"
    "length p = 40" "control_packet c True False True p"
    by (rule control_packet_built [of "replicate 41 0" c 1 0 0 1]) auto
  then show ?thesis using assms that by (auto simp: waving_send_fin_def split: if_splits)
qed

lemma send_ack_cases:
  assumes "waving_send_ack c ok = r"
  obtains "\<not> ok" and "r = Done (c\<lparr>ip_id := ip_id c + 1\<rparr>, [])"
  | p where "ok" and "control_packet c True False False p" and
      "r = Done (c\<lparr>ip_id := ip_id c + 1, s_state := TCP_CLOSING\<rparr>, [p])"
proof -
  obtain p where "build_ip_tcp_header c (replicate 41 0) [] 0 1 0 0 0 = Some (p @ drop 40 (replicate 41 0), c\<lparr>ip_id := ip_id c + 1\<rparr>)"
    "length p = 40" "control_packet c True False False p"
    by (rule control_packet_built [of "replicate 41 0" c 1 0 0 0]) auto
  then show ?thesis using assms that by (auto simp: waving_send_ack_def split: if_splits)
qed

lemma start_waving_wave:
  assumes "start_waving c inp = Done (c', out)"
  shows "wave c out c'"
proof -
  obtain ok evs where inp: "inp = (ok, evs)" by (cases inp)
  show ?thesis
  proof (cases "s_state c")
    case TCP_ESTABLISHED
    then have "waving_send_fin c ok = Done (c', out)" using assms inp by simp
    then show ?thesis using TCP_ESTABLISHED by (cases rule: send_fin_cases) (auto intro: wave_fin wave_none)
  next
    case TCP_CLOSE_WAIT
    then have "waving_send_ack c ok = Done (c', out)" using assms inp by simp
    then show ?thesis using TCP_CLOSE_WAIT by (cases rule: send_ack_cases) (auto intro: wave_last wave_none)
  next
    case TCP_FIN_WAIT1
    then show ?thesis using assms inp recv_ack_wave
      by (auto simp: silently_def waving_recv_ack_def split: run.splits)
  next
    case TCP_FIN_WAIT2
    then show ?thesis using assms inp recv_fin_wave
      by (auto simp: silently_def waving_recv_fin_def split: run.splits)
  qed (use assms inp wave_none [of c "ip_id c"] in simp_all)
qed

lemma finish_waves:
  assumes "finish c sent ins = Done (c', sent')" and "waves c0 sent c"
  shows "waves c0 sent' c'"
  using assms
proof (induction ins arbitrary: c sent)
  case Nil
  then show ?case by (auto split: if_splits)
next
  case (Cons i ins)
  obtain inp late where i: "i = (inp, late)" by (cases i)
  show ?case
  proof (cases "s_state c = TCP_CLOSING")
    case True
    then show ?thesis using Cons.prems i by simp
  next
    case False
    then obtain c1 out where s: "start_waving c inp = Done (c1, out)"
      "(if late then Done (c1, sent @ out) else finish c1 (sent @ out) ins) = Done (c', sent')"
      using Cons.prems(1) i by (auto split: run.splits)
    have "waves c0 (sent @ out) c1" by (rule waves_step [OF Cons.prems(2) start_waving_wave [OF s(1)]])
    then show ?thesis using Cons.IH s(2) by (auto split: if_splits)
  qed
qed

text \<open>What all sequences of steps from an established connection have in common.\<close>

definition closing_inv :: "kcp_client \<Rightarrow> bytes list \<Rightarrow> kcp_client \<Rightarrow> bool" where
  "closing_inv c0 sent c \<longleftrightarrow>
     c_port c = c_port c0 \<and> s_port c = s_port c0 \<and> c_addr c = c_addr c0 \<and> s_addr c = s_addr c0 \<and>
     CLIENT_SUM_SEND c = CLIENT_SUM_SEND c0 \<and> m_kcp c = m_kcp c0 \<and>
     (case s_state c of
        TCP_CLOSED \<Rightarrow> False
      | TCP_SYN_SEND \<Rightarrow> False
      | TCP_CLOSE_WAIT \<Rightarrow> cl_seq c = cl_seq c0 + 1 \<and> list_all (control_packet c0 True False True) sent
      | TCP_CLOSING \<Rightarrow>
          cl_seq c = cl_seq c0 \<and> list_all (control_packet c0 True False True) sent \<or>
          cl_seq c = cl_seq c0 + 1 \<and>
            (\<exists>fins ackp. sent = fins @ [ackp] \<and> list_all (control_packet c0 True False True) fins \<and>
              control_packet c True False False ackp)
      | _ \<Rightarrow> cl_seq c = cl_seq c0 \<and> server_ack_seq c = server_ack_seq c0 \<and>
          list_all (control_packet c0 True False True) sent)"

lemma control_packet_same:
  "c_port c = c_port c' \<Longrightarrow> s_port c = s_port c' \<Longrightarrow> c_addr c = c_addr c' \<Longrightarrow> s_addr c = s_addr c' \<Longrightarrow>
   CLIENT_SUM_SEND c = CLIENT_SUM_SEND c' \<Longrightarrow> cl_seq c = cl_seq c' \<Longrightarrow> server_ack_seq c = server_ack_seq c' \<Longrightarrow>
   control_packet c = control_packet c'"
  by (simp add: control_packet_def fun_eq_iff)

lemma closing_inv_step:
  assumes "closing_inv c0 sent c" and "wave c out c'"
  shows "closing_inv c0 (sent @ out) c'"
  using assms(2,1)
proof (induction rule: wave.induct)
  case (wave_fin c p i)
  then have "control_packet c = control_packet c0"
    by (intro control_packet_same) (simp_all add: closing_inv_def)
  then show ?case using wave_fin by (simp add: closing_inv_def)
next
  case (wave_none c i)
  then show ?case by (auto simp: closing_inv_def split: conn_state.splits)
qed (auto simp: closing_inv_def)

lemma waves_closing_inv:
  "waves c0 sent c \<Longrightarrow> s_state c0 = TCP_ESTABLISHED \<Longrightarrow> closing_inv c0 sent c"
proof (induction rule: waves.induct)
  case (waves_refl c)
  then show ?case by (simp add: closing_inv_def)
next
  case (waves_step c sent c' out c'')
  then show ?case by (blast intro: closing_inv_step)
qed

text \<open>
  C13: Closing an established connection is safe whatever the network answers, however often the
  loop runs and wherever the deadline interrupts it: the client never falls back to an unopened
  state, every packet it sends is a FIN with the next sequence number of the stream, except
  that the last one may be the acknowledgement that ends the connection with the number after the FIN;
  the sequence number advances at most once, and exactly when the server's FIN was taken.
\<close>

theorem closing_is_safe:
  assumes "s_state c = TCP_ESTABLISHED" and "finish c [] ins = Done (c', sent)"
  shows "s_state c' \<notin> {TCP_CLOSED, TCP_SYN_SEND} \<and> CLIENT_SUM_SEND c' = CLIENT_SUM_SEND c \<and>
    (\<exists>fins lasts. sent = fins @ lasts \<and> list_all (control_packet c True False True) fins \<and> length lasts \<le> 1 \<and>
       list_all (control_packet c' True False False) lasts \<and>
       (lasts \<noteq> [] \<longrightarrow> s_state c' = TCP_CLOSING \<and> cl_seq c' = cl_seq c + 1)) \<and>
    (s_state c' = TCP_CLOSE_WAIT \<longrightarrow> cl_seq c' = cl_seq c + 1) \<and>
    cl_seq c' \<in> {cl_seq c, cl_seq c + 1}"
proof -
  have inv: "closing_inv c sent c'"
    using waves_closing_inv [OF finish_waves [OF assms(2) waves_refl] assms(1)] .
  have lasts: "\<exists>fins lasts. sent = fins @ lasts \<and> list_all (control_packet c True False True) fins \<and> length lasts \<le> 1 \<and>
       list_all (control_packet c' True False False) lasts \<and>
       (lasts \<noteq> [] \<longrightarrow> s_state c' = TCP_CLOSING \<and> cl_seq c' = cl_seq c + 1)"
  proof (cases "list_all (control_packet c True False True) sent")
    case True
    then show ?thesis by (intro exI [of _ sent] exI [of _ "[]"]) simp
  next
    case False
    then obtain fins ackp where "sent = fins @ [ackp]" "list_all (control_packet c True False True) fins"
      "control_packet c' True False False ackp" "s_state c' = TCP_CLOSING" "cl_seq c' = cl_seq c + 1"
      using inv by (auto simp: closing_inv_def split: conn_state.splits)
    then show ?thesis by (intro exI [of _ fins] exI [of _ "[ackp]"]) simp
  qed
  then show ?thesis using inv by (auto simp: closing_inv_def split: conn_state.splits)
qed


theorem closing_is_safe_witness:
  "\<exists>c' sent. finish (sample_client\<lparr>s_state := TCP_ESTABLISHED\<rparr>) [] [((True, []), False), ((True, [Ev_timeout]), True)] =
      Done (c', sent) \<and> s_state c' \<notin> {TCP_CLOSED, TCP_SYN_SEND}"
proof -
  let ?c = "sample_client\<lparr>s_state := TCP_ESTABLISHED\<rparr>"
  obtain c' sent where f: "finish ?c [] [((True, []), False), ((True, [Ev_timeout]), True)] = Done (c', sent)"
    by (rule send_fin_cases [where c = "?c" and ok = True, OF refl])
      (auto simp: waving_recv_ack_def silently_def)
  from closing_is_safe [OF _ this] f show ?thesis by simp
qed

text \<open>Once the connection is closing, no further step does anything.\<close>

lemma closing_is_final:
  assumes "wave c out c'" and "s_state c = TCP_CLOSING"
  shows "out = [] \<and> s_state c' = TCP_CLOSING"
  using assms(1) by (rule wave_elim) (use assms(2) in auto)

section \<open>A cooperative server lets the close complete\<close>

text \<open>Passes in which nothing can be sent and nothing arrives.\<close>

definition patience :: "nat \<Rightarrow> ((bool \<times> net_ev list) \<times> bool) list" where
  "patience n = replicate n ((False, [Ev_timeout]), False)"

lemma patient_pass:
  assumes "s_state c \<in> {TCP_ESTABLISHED, TCP_FIN_WAIT1, TCP_FIN_WAIT2, TCP_CLOSE_WAIT}"
  shows "\<exists>i. start_waving c (False, [Ev_timeout]) = Done (c\<lparr>ip_id := i\<rparr>, [])"
proof -
  have "waving_send_fin c False = Done (c\<lparr>ip_id := ip_id c + 1\<rparr>, [])"
    by (rule send_fin_cases [where c = "c" and ok = False, OF refl]) auto
  moreover have "waving_send_ack c False = Done (c\<lparr>ip_id := ip_id c + 1\<rparr>, [])"
    by (rule send_ack_cases [where c = "c" and ok = False, OF refl]) auto
  moreover have "\<exists>i. (c, []) = (c\<lparr>ip_id := i\<rparr>, [])" by (rule exI [of _ "ip_id c"]) simp
  ultimately show ?thesis
    using assms by (auto simp: waving_recv_ack_def waving_recv_fin_def silently_def)
qed

lemma finish_patience:
  assumes "s_state c \<in> {TCP_ESTABLISHED, TCP_FIN_WAIT1, TCP_FIN_WAIT2, TCP_CLOSE_WAIT}"
  shows "\<exists>i. finish c sent (patience n @ ins) = finish (c\<lparr>ip_id := i\<rparr>) sent ins"
  using assms
proof (induction n arbitrary: c)
  case 0
  have "finish c sent (patience 0 @ ins) = finish (c\<lparr>ip_id := ip_id c\<rparr>) sent ins"
    by (simp add: patience_def)
  then show ?case by blast
next
  case (Suc n)
  obtain i where "start_waving c (False, [Ev_timeout]) = Done (c\<lparr>ip_id := i\<rparr>, [])"
    using patient_pass [OF Suc.prems] by blast
  then have "finish c sent (patience (Suc n) @ ins) = finish (c\<lparr>ip_id := i\<rparr>) sent (patience n @ ins)"
    using Suc.prems by (auto simp: patience_def)
  then show ?case using Suc.IH [of "c\<lparr>ip_id := i\<rparr>"] Suc.prems by auto
qed

lemma finish_pass:
  assumes "s_state c \<noteq> TCP_CLOSING" and "start_waving c inp = Done (c', out)"
  shows "finish c sent ((inp, False) # ins) = finish c' (sent @ out) ins"
  using assms by (cases inp) simp

lemma finish_closed: "s_state c = TCP_CLOSING \<Longrightarrow> finish c sent ins = Done (c, sent)"
  by (cases "(c, sent, ins)" rule: finish.cases) auto

lemma recv_ack_answer:
  assumes "answer c p info" and "\<not> ti_rst info" and "ti_ack info" and "\<not> ti_fin info"
    and "ti_ack_seq info = cl_seq c + CLIENT_SUM_SEND c + 1"
  shows "waving_recv_ack c [Ev_packet p l] = Done (c\<lparr>s_state := TCP_FIN_WAIT2\<rparr>)"
  using assms answer_received [OF assms(1), of "replicate 41 0"]
  by (simp add: waving_recv_ack_def answer_def)

lemma recv_fin_answer:
  assumes "answer c p info" and "\<not> ti_rst info" and "ti_fin info"
  shows "waving_recv_fin c [Ev_packet p l] =
    Done (c\<lparr>server_ack_seq := ti_seq info + 1, cl_seq := cl_seq c + 1, s_state := TCP_CLOSE_WAIT\<rparr>)"
  using assms answer_received [OF assms(1), of "replicate 41 0"]
  by (simp add: waving_recv_fin_def answer_def)

text \<open>
  C22: A connection can be closed. When the server acknowledges the client's FIN and then sends its
  own, the loop of \<^verbatim>\<open>finish\<close> reaches \<^verbatim>\<open>TCP_CLOSING\<close> and returns, after any number of passes in which
  nothing could be sent or received. It has sent exactly the FIN and the final acknowledgement, which
  acknowledges the server's FIN, both with valid checksums.
\<close>

theorem closing_completes:
  assumes est: "s_state c = TCP_ESTABLISHED"
    and ack: "answer c pa ia" "\<not> ti_rst ia" "ti_ack ia" "\<not> ti_fin ia"
      "ti_ack_seq ia = cl_seq c + CLIENT_SUM_SEND c + 1"
    and fin: "answer c pf f" "\<not> ti_rst f" "ti_fin f"
  shows "\<exists>c' p1 p2. finish c [] (patience n1 @ ((True, e1), False) # patience n2 @ ((b2, [Ev_packet pa l2]), False) #
        patience n3 @ ((b3, [Ev_packet pf l3]), False) # patience n4 @ ((True, e4), False) # rest) = Done (c', [p1, p2]) \<and>
    s_state c' = TCP_CLOSING \<and> cl_seq c' = cl_seq c + 1 \<and> server_ack_seq c' = ti_seq f + 1 \<and>
    control_packet c True False True p1 \<and> control_packet c' True False False p2"
proof -
  let ?r4 = "((True, e4), False) # rest"
  let ?r3 = "((b3, [Ev_packet pf l3]), False) # patience n4 @ ?r4"
  let ?r2 = "((b2, [Ev_packet pa l2]), False) # patience n3 @ ?r3"
  obtain i1 where 1: "finish c [] (patience n1 @ ((True, e1), False) # patience n2 @ ?r2) =
      finish (c\<lparr>ip_id := i1\<rparr>) [] (((True, e1), False) # patience n2 @ ?r2)"
    using finish_patience [of c] est by blast
  let ?c1 = "c\<lparr>ip_id := i1\<rparr>"
  obtain p1 where p1: "control_packet ?c1 True False True p1"
    "waving_send_fin ?c1 True = Done (?c1\<lparr>ip_id := ip_id ?c1 + 1, s_state := TCP_FIN_WAIT1\<rparr>, [p1])"
    by (rule send_fin_cases [where c = "?c1" and ok = True, OF refl]) auto
  let ?c2 = "c\<lparr>ip_id := i1 + 1, s_state := TCP_FIN_WAIT1\<rparr>"
  have 2: "finish ?c1 [] (((True, e1), False) # patience n2 @ ?r2) = finish ?c2 [p1] (patience n2 @ ?r2)"
    by (subst finish_pass [where c' = ?c2 and out = "[p1]"]) (use est p1 in simp_all)
  have "s_state ?c2 \<in> {TCP_ESTABLISHED, TCP_FIN_WAIT1, TCP_FIN_WAIT2, TCP_CLOSE_WAIT}" by simp
  from finish_patience [OF this] obtain i2 where 3: "finish ?c2 [p1] (patience n2 @ ?r2) = finish (?c2\<lparr>ip_id := i2\<rparr>) [p1] ?r2" by blast
  let ?c3 = "c\<lparr>ip_id := i2, s_state := TCP_FIN_WAIT2\<rparr>"
  have "waving_recv_ack (?c2\<lparr>ip_id := i2\<rparr>) [Ev_packet pa l2] = Done (?c2\<lparr>ip_id := i2\<rparr>\<lparr>s_state := TCP_FIN_WAIT2\<rparr>)"
    by (rule recv_ack_answer) (use ack in \<open>simp_all add: answer_def\<close>)
  then have 4: "finish (?c2\<lparr>ip_id := i2\<rparr>) [p1] ?r2 = finish ?c3 [p1] (patience n3 @ ?r3)"
    by (subst finish_pass [where c' = ?c3 and out = "[]"]) (simp_all add: silently_def)
  have "s_state ?c3 \<in> {TCP_ESTABLISHED, TCP_FIN_WAIT1, TCP_FIN_WAIT2, TCP_CLOSE_WAIT}" by simp
  from finish_patience [OF this] obtain i3 where 5: "finish ?c3 [p1] (patience n3 @ ?r3) = finish (?c3\<lparr>ip_id := i3\<rparr>) [p1] ?r3" by blast
  let ?c4 = "c\<lparr>ip_id := i3, server_ack_seq := ti_seq f + 1, cl_seq := cl_seq c + 1, s_state := TCP_CLOSE_WAIT\<rparr>"
  have "waving_recv_fin (?c3\<lparr>ip_id := i3\<rparr>) [Ev_packet pf l3] = Done ?c4"
    by (subst recv_fin_answer [of _ _ f]) (use fin in \<open>simp_all add: answer_def\<close>)
  then have 6: "finish (?c3\<lparr>ip_id := i3\<rparr>) [p1] ?r3 = finish ?c4 [p1] (patience n4 @ ?r4)"
    by (subst finish_pass [where c' = ?c4 and out = "[]"]) (simp_all add: silently_def)
  have "s_state ?c4 \<in> {TCP_ESTABLISHED, TCP_FIN_WAIT1, TCP_FIN_WAIT2, TCP_CLOSE_WAIT}" by simp
  from finish_patience [OF this] obtain i4 where 7: "finish ?c4 [p1] (patience n4 @ ?r4) = finish (?c4\<lparr>ip_id := i4\<rparr>) [p1] ?r4" by blast
  let ?c5 = "?c4\<lparr>ip_id := i4\<rparr>"
  obtain p2 where p2: "control_packet ?c5 True False False p2"
    "waving_send_ack ?c5 True = Done (?c5\<lparr>ip_id := ip_id ?c5 + 1, s_state := TCP_CLOSING\<rparr>, [p2])"
    by (rule send_ack_cases [where c = "?c5" and ok = True, OF refl]) auto
  let ?c6 = "?c5\<lparr>ip_id := ip_id ?c5 + 1, s_state := TCP_CLOSING\<rparr>"
  have 8: "finish ?c5 [p1] ?r4 = Done (?c6, [p1, p2])"
    by (subst finish_pass [where c' = ?c6 and out = "[p2]"]) (use p2 in \<open>simp_all add: finish_closed\<close>)
  have "control_packet ?c6 True False False p2" using p2(1) by (simp add: control_packet_def)
  moreover have "control_packet c True False True p1" using p1(1) by simp
  moreover have "finish c [] (patience n1 @ ((True, e1), False) # patience n2 @ ?r2) = Done (?c6, [p1, p2])"
    by (simp only: 1 2 3 4 5 6 7 8)
  moreover have "s_state ?c6 = TCP_CLOSING" "cl_seq ?c6 = cl_seq c + 1" "server_ack_seq ?c6 = ti_seq f + 1" by simp_all
  ultimately show ?thesis by blast
qed


definition sample_close :: "bool \<Rightarrow> bytes" where
  "sample_close fin = iphdr_bytes sample_iphdr @ tcphdr_bytes (sample_tcphdr\<lparr>th_source := htons 8888, th_dest := htons 4000,
     th_seq := htonl 500, th_ack_seq := htonl 101, th_fin := fin\<rparr>)"

lemma sample_close_read:
  "\<exists>info. answer (sample_client\<lparr>s_state := TCP_ESTABLISHED\<rparr>) (sample_close fin) info \<and> \<not> ti_rst info \<and> ti_ack info \<and>
     ti_fin info = fin \<and> ti_ack_seq info = 101"
  using prase_headers [of sample_iphdr "sample_tcphdr\<lparr>th_source := htons 8888, th_dest := htons 4000,
     th_seq := htonl 500, th_ack_seq := htonl 101, th_fin := fin\<rparr>" "[]"]
  by (simp add: answer_def sample_close_def sample_tcphdr_def sample_client_def KcpClient_def ikcp_create_def)

theorem closing_completes_witness:
  "\<exists>c' p1 p2. finish (sample_client\<lparr>s_state := TCP_ESTABLISHED\<rparr>) [] (patience 1 @ ((True, []), False) #
      patience 1 @ ((True, [Ev_packet (sample_close False) False]), False) # patience 0 @
      ((True, [Ev_packet (sample_close True) False]), False) # patience 2 @ ((True, []), False) # []) = Done (c', [p1, p2]) \<and>
    s_state c' = TCP_CLOSING"
proof -
  obtain ia f where i: "answer (sample_client\<lparr>s_state := TCP_ESTABLISHED\<rparr>) (sample_close False) ia"
    "\<not> ti_rst ia" "ti_ack ia" "\<not> ti_fin ia" "ti_ack_seq ia = 101"
    "answer (sample_client\<lparr>s_state := TCP_ESTABLISHED\<rparr>) (sample_close True) f" "\<not> ti_rst f" "ti_fin f"
    using sample_close_read [of False] sample_close_read [of True] by blast
  have "CLIENT_SUM_SEND sample_client = 0" by (simp add: sample_client_def KcpClient_def ikcp_create_def)
  then show ?thesis
    using closing_completes [OF _ i(1-4) _ i(6-8), of 1 "[]" 1 True False 0 True False 2 "[]" "[]"] i(5)
    by (auto simp: sample_client_values)
qed

text \<open>
  Two packets that the closing sequence should survive and does not. While it waits for the
  acknowledgement of its FIN, a reset that belongs to any other connection of the host closes this
  one, because the port is not looked at first. While it waits for the server's FIN, an ordinary data
  packet of the connection fails the assertion and ends the program.
\<close>

theorem closing_hazards:
  "(s_state c = TCP_FIN_WAIT1 \<and> length p = 40 \<and> prase_tcp_packet p = Some i \<and> ti_rst i \<and> uint (ti_port_dst i) \<noteq> c_port c \<longrightarrow>
      start_waving c (ok, [Ev_packet p late]) = Done (c\<lparr>s_state := TCP_CLOSING\<rparr>, [])) \<and>
   (s_state c = TCP_FIN_WAIT2 \<and> answer c q j \<and> \<not> ti_rst j \<and> \<not> ti_fin j \<longrightarrow>
      start_waving c (ok, [Ev_packet q late]) = Abort)"
proof -
  have "prase_tcp_packet (recv_into (replicate 41 0) p) = Some i" if "length p = 40" "prase_tcp_packet p = Some i"
    using that by (simp add: recv_into_whole prase_prefix)
  moreover have "prase_tcp_packet (recv_into (replicate 41 0) q) = Some j" if "answer c q j"
    using answer_received [OF that, of "replicate 41 0"] by simp
  ultimately show ?thesis
    by (auto simp: waving_recv_ack_def waving_recv_fin_def silently_def answer_def)
qed

theorem closing_hazards_witness:
  "\<exists>j. answer (sample_client\<lparr>s_state := TCP_ESTABLISHED\<rparr>) (sample_close False) j \<and>
     start_waving (sample_client\<lparr>s_state := TCP_FIN_WAIT2\<rparr>) (True, [Ev_packet (sample_close False) False]) = Abort"
proof -
  obtain j where j: "answer (sample_client\<lparr>s_state := TCP_ESTABLISHED\<rparr>) (sample_close False) j" "\<not> ti_rst j" "\<not> ti_fin j"
    using sample_close_read [of False] by blast
  then have "answer (sample_client\<lparr>s_state := TCP_FIN_WAIT2\<rparr>) (sample_close False) j" by (simp add: answer_def)
  with j closing_hazards [of "sample_client\<lparr>s_state := TCP_FIN_WAIT2\<rparr>" "[]" j True False "sample_close False" j]
  show ?thesis by auto
qed

end
