(* ===== verification/File_Server.thy ===== *)
theory File_Server
  imports Tcp_Client
begin

text \<open>
  The server of \<^verbatim>\<open>server_epoll.cc\<close> and the per-connection object of \<^verbatim>\<open>kcp_server.cc\<close>: one session per
  accepted connection, with a control block and the file it writes. A message of the protocol is
  first the header with the file size and name, then file contents. The loop that takes messages out of
  the control block is a partial function: \<^const>\<open>None\<close> would be a loop that does not end, and a lemma shows that
  it always does. \<open>Abort\<close> is a failing assertion or the use of a null pointer.
\<close>

section \<open>A session\<close>

record session =
  ss_c_port :: u16
  ss_read_file :: bool
  ss_open :: bool
  ss_data :: bytes
  ss_prefix_path :: string
  ss_filePath :: string
  ss_file_sended :: u32
  ss_file_size :: u32
  ss_kcp :: "kcpcb option"
  ss_stopFlag :: bool

text \<open>The constructor; \<open>junk\<close> is the uninitialised \<^verbatim>\<open>stopFlag\<close>. \<^const>\<open>None\<close> is the failing assertion.\<close>

definition KcpHandleClient :: "bool \<Rightarrow> bool \<Rightarrow> bool \<Rightarrow> u16 \<Rightarrow> session option" where
  "KcpHandleClient junk malloc_kcp malloc_buffer cp =
     (case ikcp_create malloc_kcp malloc_buffer (ucast cp) of
        None \<Rightarrow> None
      | Some k \<Rightarrow> Some \<lparr>ss_c_port = cp, ss_read_file = False, ss_open = False, ss_data = [],
          ss_prefix_path = ''/home/hzh/workspace/work/bin/'', ss_filePath = [], ss_file_sended = 0, ss_file_size = 0,
          ss_kcp = Some k, ss_stopFlag = junk\<rparr>)"

definition start_kcp_server :: "int \<Rightarrow> session \<Rightarrow> session run" where
  "start_kcp_server fd s =
     (case ss_kcp s of
        None \<Rightarrow> Abort
      | Some k \<Rightarrow>
          if fd = 0 then Abort else
          let k = ikcp_setoutput k True;
              k = snd (ikcp_wndsize k 256 256);
              k = snd (ikcp_nodelay k 1 10 0 0)
          in Done (s\<lparr>ss_kcp := Some k, ss_stopFlag := False\<rparr>))"

text \<open>\<^verbatim>\<open>Close\<close>: the freed segments and the closed session.\<close>

definition session_Close :: "session \<Rightarrow> ikcpseg list \<times> session" where
  "session_Close s =
     (case ss_kcp s of
        None \<Rightarrow> ([], s)
      | Some k \<Rightarrow> (fst (ikcp_release k), s\<lparr>ss_kcp := None\<rparr>))"

text \<open>
  The output callback of a session: it counts the bytes of each piece as sent even if \<^verbatim>\<open>send\<close> took
  only \<open>ret\<close> of them. The second result is what the kernel accepted.
\<close>

fun tcp_server_send_cb :: "bytes \<Rightarrow> nat \<Rightarrow> nat \<Rightarrow> bytes \<Rightarrow> int list \<Rightarrow> (int \<times> bytes) run" where
  "tcp_server_send_cb buf len sended out [] = (if sended < len then Pending else Done (int sended, out))"
| "tcp_server_send_cb buf len sended out (ret # rets) =
     (if \<not> sended < len then Done (int sended, out)
      else
        let s = len - sended;
            s = (if s > UDP_MTU then UDP_MTU else s)
        in if ret < 0 then Done (-1, out)
           else tcp_server_send_cb buf len (sended + s) (out @ take (nat ret) (take s (drop sended buf))) rets)"

section \<open>Messages\<close>

text \<open>\<^verbatim>\<open>std::to_string\<close> on a non-negative number\<close>

fun to_string :: "nat \<Rightarrow> string" where
  "to_string n = (if n < 10 then [char_of (48 + n)] else to_string (n div 10) @ [char_of (48 + n mod 10)])"

declare to_string.simps [simp del]

definition file_write :: "session \<Rightarrow> bytes \<Rightarrow> session" where
  "file_write s b = (if ss_open s then s\<lparr>ss_data := ss_data s @ b\<rparr> else s)"

definition send_finish :: bytes where
  "send_finish = map (of_nat \<circ> of_char) ''send_finish''"

text \<open>
  One message of \<open>len > 0\<close> bytes; \<open>open_ok\<close> tells whether the file can be opened, \<open>cnt\<close> numbers the files of
  the process, \<open>junk\<close> is the memory of the new segment.
\<close>

definition session_message ::
  "nat \<Rightarrow> bool \<Rightarrow> (nat \<Rightarrow> ikcpseg) \<Rightarrow> nat \<Rightarrow> session \<Rightarrow> bytes \<Rightarrow> (session \<times> nat) run" where
  "session_message pid open_ok junk cnt s msg =
     (if \<not> ss_read_file s then
        (if length msg < 128 + 8 then Abort
         else
           let s = s\<lparr>ss_read_file := True\<rparr>;
               s = s\<lparr>ss_file_size := ntohl (mem32 msg 0)\<rparr>;
               s = s\<lparr>ss_filePath := ss_prefix_path s @ to_string pid @ ''_'' @ to_string cnt @ ''.txt''\<rparr>;
               s = s\<lparr>ss_open := open_ok, ss_data := []\<rparr>
           in if length msg > 8 + 128
              then Done ((file_write s (drop (8 + 128) msg))
                     \<lparr>ss_file_sended := ss_file_sended s + of_nat (length msg - (8 + 128))\<rparr>, cnt + 1)
              else Done (s, cnt + 1))
      else
        let s = file_write s msg;
            s = s\<lparr>ss_file_sended := ss_file_sended s + of_nat (length msg)\<rparr>
        in if ss_file_sended s \<ge> ss_file_size s then
             let s = s\<lparr>ss_open := False\<rparr>
             in case ss_kcp s of
                  None \<Rightarrow> Abort
                | Some k \<Rightarrow>
                    (case ikcp_send junk k (Some send_finish) (int (length send_finish)) of
                       None \<Rightarrow> Abort
                     | Some (r, k) \<Rightarrow> Done (s\<lparr>ss_kcp := Some k\<rparr>, cnt))
           else Done (s, cnt))"

text \<open>The inner loop of \<^verbatim>\<open>startEpoll\<close>: take messages of at most \<open>n\<close> bytes until there is none.\<close>

partial_function (option) session_drain ::
  "nat \<Rightarrow> bool \<Rightarrow> (nat \<Rightarrow> ikcpseg) \<Rightarrow> int \<Rightarrow> nat \<Rightarrow> session \<Rightarrow> (session \<times> nat) run option" where
  "session_drain pid open_ok junk n cnt s =
     (case ss_kcp s of
        None \<Rightarrow> Some Abort
      | Some k \<Rightarrow>
          (case ikcp_recv k True n of
             None \<Rightarrow> Some Abort
           | Some (len, buf, k) \<Rightarrow>
               let s = s\<lparr>ss_kcp := Some k\<rparr>
               in if len < 0 then Some (Done (s, cnt))
                  else if len > 0 then
                    (case session_message pid open_ok junk cnt s buf of
                       Pending \<Rightarrow> Some Pending
                     | Abort \<Rightarrow> Some Abort
                     | Done (s, cnt) \<Rightarrow> session_drain pid open_ok junk n cnt s)
                  else session_drain pid open_ok junk n cnt s))"

text \<open>
  The handler of \<^verbatim>\<open>EPOLLIN\<close>: what \<^verbatim>\<open>read\<close> returns, one event per call. The result carries what is written
  to the socket directly.
\<close>

datatype read_ev = Read_data bytes | Read_closed | Read_error

fun session_epollin ::
  "nat \<Rightarrow> bool \<Rightarrow> (nat \<Rightarrow> ikcpseg) \<Rightarrow> (int \<Rightarrow> ikcpseg) \<Rightarrow> nat \<Rightarrow> session \<Rightarrow> bytes list \<Rightarrow> read_ev list \<Rightarrow>
     (session \<times> nat \<times> bytes list) run option" where
  "session_epollin pid open_ok junk junk_in cnt s sent [] = Some Pending"
| "session_epollin pid open_ok junk junk_in cnt s sent (Read_error # evs) = Some (Done (s, cnt, sent))"
| "session_epollin pid open_ok junk junk_in cnt s sent (Read_closed # evs) =
     Some (Done (s\<lparr>ss_stopFlag := True\<rparr>, cnt, sent))"
| "session_epollin pid open_ok junk junk_in cnt s sent (Read_data b # evs) =
     (case ss_kcp s of
        None \<Rightarrow> Some Abort
      | Some k \<Rightarrow>
          (case ikcp_input junk_in k (Some (b @ replicate (2058 - length b) 0)) (int (length b)) of
             None \<Rightarrow> Some Abort
           | Some (kcp_ret, k) \<Rightarrow>
               let s = s\<lparr>ss_kcp := Some k\<rparr>
               in if kcp_ret < 0 then session_epollin pid open_ok junk junk_in cnt s (sent @ [send_finish]) evs
                  else (case session_drain pid open_ok junk (int (length b)) cnt s of
                          None \<Rightarrow> None
                        | Some Pending \<Rightarrow> Some Pending
                        | Some Abort \<Rightarrow> Some Abort
                        | Some (Done (s, cnt)) \<Rightarrow> session_epollin pid open_ok junk junk_in cnt s sent evs)))"

section \<open>The server\<close>

text \<open>
  The sessions by file descriptor; \<open>Some None\<close> is the null pointer that \<^verbatim>\<open>clients[fd]\<close> inserts for an
  unknown descriptor.
\<close>

record server =
  clients :: "int \<rightharpoonup> session option"
  file_cnt :: nat

text \<open>One pass of \<^verbatim>\<open>updateKcp\<close> over a session: \<^const>\<open>None\<close> means that it is erased.\<close>

definition update_client :: "u32 \<Rightarrow> session \<Rightarrow> (session \<times> bytes list) option run" where
  "update_client now s =
     (if ss_stopFlag s then Done None
      else case ss_kcp s of
        None \<Rightarrow> Abort
      | Some k \<Rightarrow>
          (case ikcp_update k now of
             Inl _ \<Rightarrow> Abort
           | Inr (k, ps) \<Rightarrow> Done (Some (s\<lparr>ss_kcp := Some k\<rparr>, ps))))"

fun updateKcp :: "u32 \<Rightarrow> int list \<Rightarrow> (int \<rightharpoonup> session option) \<Rightarrow> ((int \<rightharpoonup> session option) \<times> (int \<times> bytes list) list) run" where
  "updateKcp now [] m = Done (m, [])"
| "updateKcp now (fd # fds) m =
     (case m fd of
        None \<Rightarrow> updateKcp now fds m
      | Some None \<Rightarrow> Abort
      | Some (Some s) \<Rightarrow>
          (case update_client now s of
             Pending \<Rightarrow> Pending
           | Abort \<Rightarrow> Abort
           | Done None \<Rightarrow> updateKcp now fds (m(fd := None))
           | Done (Some (s, ps)) \<Rightarrow>
               (case updateKcp now fds (m(fd \<mapsto> Some s)) of
                  Pending \<Rightarrow> Pending
                | Abort \<Rightarrow> Abort
                | Done (m, out) \<Rightarrow> Done (m, (fd, ps) # out))))"

text \<open>A new connection, and an event on a connection.\<close>

definition accept_client :: "bool \<Rightarrow> bool \<Rightarrow> bool \<Rightarrow> bool \<Rightarrow> int \<Rightarrow> u16 \<Rightarrow> server \<Rightarrow> server run" where
  "accept_client junk malloc_kcp malloc_buffer setup_ok fd cp v =
     (if fd = -1 \<or> \<not> setup_ok then Done v
      else case KcpHandleClient junk malloc_kcp malloc_buffer cp of
        None \<Rightarrow> Abort
      | Some s \<Rightarrow>
          (case start_kcp_server fd s of
             Pending \<Rightarrow> Pending
           | Abort \<Rightarrow> Abort
           | Done s \<Rightarrow> Done (v\<lparr>clients := (clients v)(fd \<mapsto> Some s)\<rparr>)))"

definition client_event ::
  "nat \<Rightarrow> bool \<Rightarrow> (nat \<Rightarrow> ikcpseg) \<Rightarrow> (int \<Rightarrow> ikcpseg) \<Rightarrow> bool \<Rightarrow> bool \<Rightarrow> int \<Rightarrow> read_ev list \<Rightarrow> server \<Rightarrow>
     (server \<times> bytes list) run option" where
  "client_event pid open_ok junk junk_in hup epollin fd evs v =
     (let v = (if clients v fd = None then v\<lparr>clients := (clients v)(fd \<mapsto> None)\<rparr> else v)
      in case clients v fd of
        None \<Rightarrow> Some Abort
      | Some client \<Rightarrow>
          if hup then
            (case client of
               None \<Rightarrow> Some Abort
             | Some s \<Rightarrow> Some (Done (v\<lparr>clients := (clients v)(fd \<mapsto> Some (s\<lparr>ss_stopFlag := True\<rparr>))\<rparr>, [])))
          else if epollin then
            (case client of
               None \<Rightarrow> (case evs of Read_error # _ \<Rightarrow> Some (Done (v, [])) | [] \<Rightarrow> Some Pending | _ \<Rightarrow> Some Abort)
             | Some s \<Rightarrow>
                 (case session_epollin pid open_ok junk junk_in (file_cnt v) s [] evs of
                    None \<Rightarrow> None
                  | Some Pending \<Rightarrow> Some Pending
                  | Some Abort \<Rightarrow> Some Abort
                  | Some (Done (s, cnt, sent)) \<Rightarrow>
                      Some (Done (v\<lparr>clients := (clients v)(fd \<mapsto> Some s), file_cnt := cnt\<rparr>, sent))))
          else Some (Done (v, [])))"

section \<open>The message loop ends\<close>

lemma recv_shrinks:
  assumes "ikcp_recv k has_buf n = Some (len, out, k')" and "0 \<le> len" and "0 \<le> n"
  shows "length (rcv_queue k') + length (rcv_buf k') < length (rcv_queue k) + length (rcv_buf k)"
proof -
  obtain a b k1 where m: "ikcp_recv_merge (n < 0) has_buf (rcv_queue k) k 0 [] = (a, b, k1)"
    by (metis prod.exhaust)
  have ne: "rcv_queue k \<noteq> []" using assms(1,2) by (auto simp: ikcp_recv_def)
  have k1: "k1 = k\<lparr>rcv_queue := after_message (rcv_queue k), nrcv_que := nrcv_que k - of_nat (length (head_message (rcv_queue k)))\<rparr>"
    using recv_merge_state [OF refl, of "n < 0" has_buf k 0 "[]"] m assms(3) by simp
  have "k' = recv_settle (nrcv_que k \<ge> rcv_wnd k) k1"
    using assms m ne by (auto simp: ikcp_recv_def Let_def recv_settle_def split: if_splits)
  moreover obtain d where "rcv_queue (ikcp_move_ready k1) = rcv_queue k1 @ d" "rcv_buf k1 = d @ rcv_buf (ikcp_move_ready k1)"
    using move_ready_spec [of k1] by (auto simp: exI)
  ultimately have "length (rcv_queue k') + length (rcv_buf k') = length (rcv_queue k1) + length (rcv_buf k1)"
    by (simp add: recv_settle_def Let_def)
  moreover have "length (after_message (rcv_queue k)) < length (rcv_queue k)"
    using ne by (cases "rcv_queue k") (auto simp: after_message_def)
  ultimately show ?thesis by (simp add: k1)
qed

definition pending :: "session \<Rightarrow> nat" where
  "pending s = (case ss_kcp s of None \<Rightarrow> 0 | Some k \<Rightarrow> length (rcv_queue k) + length (rcv_buf k))"

lemma file_write_kcp [simp]: "ss_kcp (file_write s b) = ss_kcp s"
  by (simp add: file_write_def)

lemma message_pending:
  "session_message pid open_ok junk cnt s msg = Done (s', cnt') \<Longrightarrow> pending s' = pending s"
  by (auto simp: session_message_def Let_def pending_def split: if_splits option.splits dest!: send_only)

lemma message_not_pending: "session_message pid open_ok junk cnt s msg \<noteq> Pending"
  by (auto simp: session_message_def Let_def split: option.split)

lemma drain_returns:
  assumes "0 \<le> n"
  shows "\<exists>r. session_drain pid open_ok junk n cnt s = Some r \<and> r \<noteq> Pending"
proof (induction "pending s" arbitrary: s cnt rule: less_induct)
  case less
  show ?case
  proof (cases "ss_kcp s")
    case None
    then show ?thesis by (subst session_drain.simps) simp
  next
    case (Some k)
    obtain len buf k' where r: "ikcp_recv k True n = Some (len, buf, k')"
      using ikcp_recv_total [of k True n] by auto
    let ?s = "s\<lparr>ss_kcp := Some k'\<rparr>"
    have smaller: "pending ?s < pending s" if "0 \<le> len"
      using recv_shrinks [OF r that assms] Some by (simp add: pending_def)
    consider "len < 0" | "len = 0" | "len > 0" by linarith
    then show ?thesis
    proof cases
      case 1
      then show ?thesis using Some r by (subst session_drain.simps) simp
    next
      case 2
      then show ?thesis using less [OF smaller] Some r by (subst session_drain.simps) simp
    next
      case 3
      then have step: "session_drain pid open_ok junk n cnt s =
          (case session_message pid open_ok junk cnt ?s buf of
             Pending \<Rightarrow> Some Pending | Abort \<Rightarrow> Some Abort
           | Done (s, cnt) \<Rightarrow> session_drain pid open_ok junk n cnt s)"
        using Some r by (subst session_drain.simps) simp
      show ?thesis
      proof (cases "session_message pid open_ok junk cnt ?s buf")
        case (Done x)
        then obtain s2 c2 where d: "session_message pid open_ok junk cnt ?s buf = Done (s2, c2)" by (cases x) simp
        have "pending s2 < pending s" using message_pending [OF d] smaller 3 by simp
        from less [OF this, of c2] show ?thesis by (simp add: step d)
      qed (simp_all add: step message_not_pending)
    qed
  qed
qed

text \<open>
  C30: The loop that takes the messages out of a session always ends: it returns or fails an assertion,
  whatever is queued, because every turn takes at least one segment.
\<close>

theorem drain_terminates:
  assumes "0 \<le> n"
  shows "\<exists>r. session_drain pid open_ok junk n cnt s = Some r \<and> r \<noteq> Pending"
  by (rule drain_returns [OF assms])

section \<open>File names\<close>

definition digits :: "string \<Rightarrow> bool" where
  "digits s \<longleftrightarrow> (\<forall>c \<in> set s. 48 \<le> (of_char c :: nat) \<and> (of_char c :: nat) < 58)"

definition string_value :: "string \<Rightarrow> nat" where
  "string_value s = foldl (\<lambda>v c. v * 10 + (of_char c - 48)) 0 s"

lemma of_digit: "(n :: nat) < 10 \<Longrightarrow> of_char (char_of (48 + n) :: char) = 48 + n"
  by (simp add: of_char_of)

lemma to_string_value: "string_value (to_string n) = n \<and> digits (to_string n)"
proof (induction n rule: to_string.induct)
  case (1 n)
  show ?case
  proof (cases "n < 10")
    case True
    then show ?thesis
      by (subst (1 2) to_string.simps) (simp add: string_value_def digits_def of_digit)
  next
    case False
    have "to_string n = to_string (n div 10) @ [char_of (48 + n mod 10)]"
      using False by (simp add: to_string.simps [of n])
    then show ?thesis
      using 1 [OF False] of_digit [of "n mod 10"] by (simp add: string_value_def digits_def)
  qed
qed

lemma to_string_inject: "to_string m = to_string n \<longleftrightarrow> m = n"
  by (metis to_string_value)

lemma no_underscore: "digits s \<Longrightarrow> CHR ''_'' \<notin> set s"
  by (auto simp: digits_def)

lemma file_name_inject:
  assumes "to_string p @ ''_'' @ to_string c @ ''.txt'' = to_string q @ ''_'' @ to_string d @ ''.txt''"
  shows "p = q \<and> c = d"
proof -
  have tw: "takeWhile (\<lambda>x. x \<noteq> CHR ''_'') (to_string n @ CHR ''_'' # r) = to_string n" for n r
  proof -
    have "\<forall>x \<in> set (to_string n). x \<noteq> CHR ''_''" using no_underscore to_string_value by metis
    then show ?thesis by (simp add: takeWhile_append2)
  qed
  have "to_string p = to_string q" using assms tw [of p] tw [of q] by (metis append_Cons append_Nil)
  then show ?thesis using assms by (auto simp: to_string_inject)
qed

text \<open>
  No two files of a server are confused. The first message of a session gives it a file whose name
  is built from the process number and a counter, and advances the counter; two sessions that got
  theirs with different counters, or in different processes of one server, write different files.
\<close>

theorem file_names_distinct:
  assumes "session_message p ok1 j1 c s m = Done (s', c')" and "\<not> ss_read_file s"
    and "session_message q ok2 j2 d t l = Done (t', d')" and "\<not> ss_read_file t"
    and "ss_prefix_path s = ss_prefix_path t" and "(p, c) \<noteq> (q, d)"
  shows "ss_filePath s' \<noteq> ss_filePath t' \<and> c' = c + 1 \<and> d' = d + 1 \<and> ss_read_file s' \<and> ss_read_file t'"
proof -
  have path: "ss_filePath s1 = ss_prefix_path s0 @ to_string r @ ''_'' @ to_string e @ ''.txt'' \<and> e1 = e + 1 \<and> ss_read_file s1"
    if "session_message r ok j e s0 b = Done (s1, e1)" "\<not> ss_read_file s0" for r ok j e s0 b s1 e1
    using that by (auto simp: session_message_def Let_def file_write_def split: if_splits)
  show ?thesis
    using path [OF assms(1,2)] path [OF assms(3,4)] assms(5,6) file_name_inject [of p c q d] by auto
qed


definition sample_session :: session where
  "sample_session = the (KcpHandleClient False True True 4000)"

lemma sample_session_values:
  "\<not> ss_read_file sample_session" "ss_file_sended sample_session = 0" "ss_prefix_path sample_session = ''/home/hzh/workspace/work/bin/''"
  "\<exists>k. ss_kcp sample_session = Some k \<and> ikcp_create True True 4000 = Some k" "ss_data sample_session = []"
  by (simp_all add: sample_session_def KcpHandleClient_def ikcp_create_def)

theorem drain_terminates_witness:
  "\<exists>r. session_drain 1 True (\<lambda>_. seg0) 160 0 sample_session = Some r \<and> r \<noteq> Pending"
  using drain_terminates [of 160 1 True "\<lambda>_. seg0" 0 sample_session] by simp

theorem file_names_distinct_witness:
  "\<exists>s1 t1. session_message 7 True (\<lambda>_. seg0) 0 sample_session (replicate 136 0) = Done (s1, 1) \<and>
     session_message 7 True (\<lambda>_. seg0) 1 sample_session (replicate 136 0) = Done (t1, 2) \<and> ss_filePath s1 \<noteq> ss_filePath t1"
proof -
  obtain s1 where s1: "session_message 7 True (\<lambda>_. seg0) 0 sample_session (replicate 136 0) = Done (s1, 1)"
    by (simp add: session_message_def Let_def sample_session_values)
  obtain t1 where t1: "session_message 7 True (\<lambda>_. seg0) 1 sample_session (replicate 136 0) = Done (t1, 2)"
    by (simp add: session_message_def Let_def sample_session_values)
  show ?thesis
    using file_names_distinct [OF s1 sample_session_values(1) t1 sample_session_values(1)] s1 t1 by simp
qed

end
