(* ===== verification/File_Invariant.thy ===== *)
theory File_Invariant
  imports File_Server Kcp_Endpoint
begin

text \<open>
  The server as a transition system: connections are accepted, events arrive on known descriptors with
  any bytes, and update passes run, in any order. Every session keeps a control block that can be updated.
\<close>

section \<open>Sessions\<close>

definition session_ok :: "session \<Rightarrow> bool" where
  "session_ok s \<longleftrightarrow> (\<exists>k. ss_kcp s = Some k \<and> endpoint_ok k)"

lemma session_start:
  assumes "KcpHandleClient junk True True cp = Some s" and "start_kcp_server fd s = Done s'"
  shows "session_ok s'"
proof -
  obtain k where k: "ikcp_create True True (ucast cp) = Some k" "ss_kcp s = Some k"
    using assms(1) by (auto simp: KcpHandleClient_def split: option.splits)
  have "endpoint_ok (snd (ikcp_nodelay (snd (ikcp_wndsize (ikcp_setoutput k True) 256 256)) 1 10 0 0))"
    by (rule endpoint_start [OF k(1)]) simp_all
  then show ?thesis using assms(2) k(2) by (auto simp: start_kcp_server_def session_ok_def Let_def split: if_splits)
qed

lemma create_needs_memory:
  "KcpHandleClient junk a b cp = Some s \<Longrightarrow> a \<and> b"
  by (auto simp: KcpHandleClient_def ikcp_create_def split: option.splits if_splits)

text \<open>A message ends the server exactly when it is a first message without a complete header.\<close>

lemma message_ok:
  assumes "session_ok s"
  shows "(session_message pid open_ok junk cnt s msg = Abort \<longleftrightarrow> \<not> ss_read_file s \<and> length msg < 136) \<and>
    (\<forall>s' cnt'. session_message pid open_ok junk cnt s msg = Done (s', cnt') \<longrightarrow> session_ok s' \<and> ss_read_file s')"
proof -
  obtain k where k: "ss_kcp s = Some k" "endpoint_ok k" using assms by (auto simp: session_ok_def)
  have "length send_finish < 2147483648" by (simp add: send_finish_def)
  from endpoint_send [OF k(2) this, of junk] obtain r k' where
    "ikcp_send junk k (Some send_finish) (int (length send_finish)) = Some (r, k')" "endpoint_ok k'" by blast
  then show ?thesis using k
    by (auto simp: session_message_def Let_def file_write_def session_ok_def)
qed

lemma drain_ok:
  assumes "session_drain pid open_ok junk n cnt s = Some r" and "session_ok s"
  shows "(\<forall>s' cnt'. r = Done (s', cnt') \<longrightarrow> session_ok s') \<and> (ss_read_file s \<longrightarrow> r \<noteq> Abort)"
proof -
  have "session_ok s \<longrightarrow> (\<forall>s' cnt'. r = Done (s', cnt') \<longrightarrow> session_ok s') \<and> (ss_read_file s \<longrightarrow> r \<noteq> Abort)"
  proof (induction rule: session_drain.raw_induct [OF _ assms(1)])
    case (1 rec pid open_ok junk n cnt s y)
    note ih = 1(1) and body = 1(2)
    show ?case
    proof
      assume ok: "session_ok s"
      then obtain k where k: "ss_kcp s = Some k" "endpoint_ok k" by (auto simp: session_ok_def)
      obtain len buf k' where r: "ikcp_recv k True n = Some (len, buf, k')" using ikcp_recv_total [of k True n] by auto
      let ?s = "s\<lparr>ss_kcp := Some k'\<rparr>"
      have ok': "session_ok ?s" using endpoint_recv [OF k(2) r] by (simp add: session_ok_def)
      consider "len < 0" | "len = 0" | "len > 0" by linarith
      then show "(\<forall>s' cnt'. y = Done (s', cnt') \<longrightarrow> session_ok s') \<and> (ss_read_file s \<longrightarrow> y \<noteq> Abort)"
      proof cases
        case 1
        then show ?thesis using body k r ok' by auto
      next
        case 2
        then have "rec pid open_ok junk n cnt ?s = Some y" using body k r by simp
        from ih [OF this] ok' show ?thesis by simp
      next
        case 3
        then have y: "(case session_message pid open_ok junk cnt ?s buf of Pending \<Rightarrow> Some Pending | Abort \<Rightarrow> Some Abort
            | Done (s, cnt) \<Rightarrow> rec pid open_ok junk n cnt s) = Some y"
          using body k r by simp
        show ?thesis
        proof (cases "session_message pid open_ok junk cnt ?s buf")
          case Pending
          then show ?thesis using message_not_pending by blast
        next
          case Abort
          then show ?thesis using y message_ok [OF ok', of pid open_ok junk cnt buf] by auto
        next
          case (Done p)
          obtain s1 c1 where p: "p = (s1, c1)" by (cases p)
          have "session_ok s1" "ss_read_file s1" using message_ok [OF ok', of pid open_ok junk cnt buf] Done p by auto
          then show ?thesis using ih [of pid open_ok junk n c1 s1] y Done p by simp
        qed
      qed
    qed
  qed
  then show ?thesis using assms(2) by simp
qed

lemma epollin_ok:
  assumes "session_epollin pid open_ok junk junk_in cnt s sent evs = Some (Done (s', cnt', out))" and "session_ok s"
  shows "session_ok s'"
  using assms
proof (induction evs arbitrary: s cnt sent)
  case Nil
  then show ?case by simp
next
  case (Cons ev evs)
  show ?case
  proof (cases ev)
    case Read_error
    then show ?thesis using Cons.prems by simp
  next
    case Read_closed
    then show ?thesis using Cons.prems by (auto simp: session_ok_def)
  next
    case (Read_data b)
    obtain k where k: "ss_kcp s = Some k" "endpoint_ok k" using Cons.prems(2) by (auto simp: session_ok_def)
    obtain r k1 where i: "ikcp_input junk_in k (Some (b @ replicate (2058 - length b) 0)) (int (length b)) = Some (r, k1)"
      using Cons.prems(1) Read_data k(1) by (auto split: option.splits)
    let ?s = "s\<lparr>ss_kcp := Some k1\<rparr>"
    have ok: "session_ok ?s" using endpoint_input [OF k(2) i] by (simp add: session_ok_def)
    show ?thesis
    proof (cases "r < 0")
      case True
      then have "session_epollin pid open_ok junk junk_in cnt ?s (sent @ [send_finish]) evs = Some (Done (s', cnt', out))"
        using Cons.prems(1) Read_data k(1) i by simp
      then show ?thesis using Cons.IH ok by blast
    next
      case False
      then obtain s1 c1 where d: "session_drain pid open_ok junk (int (length b)) cnt ?s = Some (Done (s1, c1))"
        "session_epollin pid open_ok junk junk_in c1 s1 sent evs = Some (Done (s', cnt', out))"
        using Cons.prems(1) Read_data k(1) i by (auto split: option.splits run.splits)
      then show ?thesis using Cons.IH drain_ok [OF d(1) ok] by blast
    qed
  qed
qed

lemma update_client_ok:
  assumes "session_ok s" and "\<forall>k. ss_kcp s = Some k \<longrightarrow> unat (ackcount k) < 2147483648"
  shows "\<exists>r. update_client now s = Done r \<and> (case r of None \<Rightarrow> True | Some (s', ps) \<Rightarrow> \<forall>p \<in> set ps. 0 < length p \<and> length p \<le> 1400)"
proof -
  obtain k where k: "ss_kcp s = Some k" "endpoint_ok k" using assms(1) by (auto simp: session_ok_def)
  then obtain k' ps where "ikcp_update k now = Inr (k', ps)" "\<forall>p \<in> set ps. 0 < length p \<and> length p \<le> 1400"
    using endpoint_update [OF k(2)] assms(2) by blast
  then show ?thesis using k by (simp add: update_client_def)
qed

lemma update_client_keeps:
  assumes "session_ok s" and "update_client now s = Done (Some (s', ps))"
  shows "session_ok s'"
  using assms endpoint_updated by (auto simp: update_client_def session_ok_def split: if_splits sum.splits)

section \<open>The server\<close>

text \<open>
  The environment: what the system calls return, the memory of new segments, and which descriptors have events.
  epoll reports events of registered descriptors only; the sessions' descriptors are the registered ones.
\<close>

datatype server_act =
    Act_accept bool bool bool bool int u16
  | Act_event nat bool "nat \<Rightarrow> ikcpseg" "int \<Rightarrow> ikcpseg" bool bool int "read_ev list"
  | Act_update u32 "int list"

fun server_step :: "server_act \<Rightarrow> server \<Rightarrow> server option" where
  "server_step (Act_accept junk malloc_kcp malloc_buffer setup_ok fd cp) v =
     (case accept_client junk malloc_kcp malloc_buffer setup_ok fd cp v of Done v \<Rightarrow> Some v | _ \<Rightarrow> None)"
| "server_step (Act_event pid open_ok junk junk_in hup epollin fd evs) v =
     (if clients v fd = None then None
      else case client_event pid open_ok junk junk_in hup epollin fd evs v of Some (Done (v, out)) \<Rightarrow> Some v | _ \<Rightarrow> None)"
| "server_step (Act_update now fds) v =
     (case updateKcp now fds (clients v) of Done (m, out) \<Rightarrow> Some (v\<lparr>clients := m\<rparr>) | _ \<Rightarrow> None)"

definition sessions_ok :: "(int \<rightharpoonup> session option) \<Rightarrow> bool" where
  "sessions_ok m \<longleftrightarrow> (\<forall>fd x. m fd = Some x \<longrightarrow> (\<exists>s. x = Some s \<and> session_ok s))"

lemma sessions_upd: "sessions_ok m \<Longrightarrow> session_ok s \<Longrightarrow> sessions_ok (m(fd \<mapsto> Some s))"
  "sessions_ok m \<Longrightarrow> sessions_ok (m(fd := None))"
  by (auto simp: sessions_ok_def)

lemma update_keeps:
  "updateKcp now fds m = Done (m', out) \<Longrightarrow> sessions_ok m \<Longrightarrow> sessions_ok m'"
proof (induction fds arbitrary: m out)
  case Nil
  then show ?case by simp
next
  case (Cons fd fds)
  show ?case
  proof (cases "m fd")
    case None
    then show ?thesis using Cons by simp
  next
    case (Some x)
    then obtain s where x: "x = Some s" "session_ok s" using Cons.prems(2) by (auto simp: sessions_ok_def)
    show ?thesis
    proof (cases "update_client now s")
      case (Done r)
      show ?thesis
      proof (cases r)
        case None
        then have "updateKcp now fds (m(fd := None)) = Done (m', out)" using Cons.prems(1) Some x Done by simp
        then show ?thesis using Cons.IH sessions_upd(2) [OF Cons.prems(2)] by blast
      next
        case (Some p)
        obtain s1 ps where p: "p = (s1, ps)" by (cases p)
        have "session_ok s1" using update_client_keeps [OF x(2)] Done Some p by simp
        moreover obtain out' where "updateKcp now fds (m(fd \<mapsto> Some s1)) = Done (m', out')"
          using Cons.prems(1) \<open>m fd = Some x\<close> x Done Some p by (auto split: run.splits)
        ultimately show ?thesis using Cons.IH sessions_upd(1) [OF Cons.prems(2)] by blast
      qed
    qed (use Cons.prems Some x in simp_all)
  qed
qed

lemma event_keeps:
  assumes "client_event pid open_ok junk junk_in hup epollin fd evs v = Some (Done (v', out))"
    and "clients v fd \<noteq> None" and "sessions_ok (clients v)"
  shows "sessions_ok (clients v')"
proof -
  obtain s where s: "clients v fd = Some (Some s)" "session_ok s" using assms(2,3) by (fastforce simp: sessions_ok_def)
  have stop: "session_ok (s\<lparr>ss_stopFlag := True\<rparr>)" using s(2) by (simp add: session_ok_def)
  show ?thesis
  proof (cases hup)
    case True
    then show ?thesis using assms(1,3) s(1) sessions_upd(1) [OF _ stop] by (auto simp: client_event_def)
  next
    case no_hup: False
    show ?thesis
    proof (cases epollin)
      case False
      then show ?thesis using assms(1,3) s(1) no_hup by (auto simp: client_event_def)
    next
      case True
      then obtain s1 cnt where e: "session_epollin pid open_ok junk junk_in (file_cnt v) s [] evs = Some (Done (s1, cnt, out))"
        "v' = v\<lparr>clients := (clients v)(fd \<mapsto> Some s1), file_cnt := cnt\<rparr>"
        using assms(1) s(1) no_hup by (auto simp: client_event_def split: option.splits run.splits)
      then show ?thesis using sessions_upd(1) [OF assms(3) epollin_ok [OF e(1) s(2)]] by simp
    qed
  qed
qed

lemma accept_spec:
  assumes "accept_client junk a b setup_ok fd cp v = Done v'" and "fd \<noteq> -1" and "setup_ok"
  shows "\<exists>s. v' = v\<lparr>clients := (clients v)(fd \<mapsto> Some s)\<rparr> \<and> session_ok s \<and> \<not> ss_stopFlag s"
proof -
  obtain s s1 where s: "KcpHandleClient junk a b cp = Some s" "start_kcp_server fd s = Done s1"
    "v' = v\<lparr>clients := (clients v)(fd \<mapsto> Some s1)\<rparr>"
    using assms by (auto simp: accept_client_def split: option.splits run.splits)
  have "KcpHandleClient junk True True cp = Some s" using create_needs_memory [OF s(1)] s(1) by simp
  then have "session_ok s1" using session_start s(2) by blast
  moreover have "\<not> ss_stopFlag s1" using s(2) by (auto simp: start_kcp_server_def Let_def split: option.splits if_splits)
  ultimately show ?thesis using s(3) by blast
qed

interpretation srv: safe_steps server_step "\<lambda>_. True" "\<lambda>v. sessions_ok (clients v)"
proof unfold_locales
  fix v a v'
  assume ok: "sessions_ok (clients v)" and step: "server_step a v = Some v'"
  show "sessions_ok (clients v')"
  proof (cases a)
    case (Act_accept junk a b setup_ok fd cp)
    then have acc: "accept_client junk a b setup_ok fd cp v = Done v'" using step by (auto split: run.splits)
    show ?thesis
    proof (cases "fd = -1 \<or> \<not> setup_ok")
      case True
      then show ?thesis using acc ok by (auto simp: accept_client_def)
    next
      case False
      then obtain s where "v' = v\<lparr>clients := (clients v)(fd \<mapsto> Some s)\<rparr>" "session_ok s"
        using accept_spec [OF acc] by blast
      then show ?thesis using ok sessions_upd(1) by simp
    qed
  next
    case (Act_event pid open_ok junk junk_in hup epollin fd evs)
    then obtain out where "client_event pid open_ok junk junk_in hup epollin fd evs v = Some (Done (v', out))" "clients v fd \<noteq> None"
      using step by (auto split: option.splits run.splits if_splits)
    then show ?thesis using event_keeps ok by blast
  next
    case (Act_update now fds)
    then obtain m out where "updateKcp now fds (clients v) = Done (m, out)" "v' = v\<lparr>clients := m\<rparr>"
      using step by (auto split: run.splits)
    then show ?thesis using update_keeps ok by simp
  qed
qed

lemma update_pass:
  assumes "sessions_ok m" and "distinct fds"
    and "\<forall>fd \<in> set fds. \<forall>s k. m fd = Some (Some s) \<longrightarrow> ss_kcp s = Some k \<longrightarrow> unat (ackcount k) < 2147483648"
  shows "\<exists>m' out. updateKcp now fds m = Done (m', out) \<and> (\<forall>(fd, ps) \<in> set out. \<forall>p \<in> set ps. 0 < length p \<and> length p \<le> 1400)"
  using assms
proof (induction fds arbitrary: m)
  case Nil
  then show ?case by simp
next
  case (Cons fd fds)
  have later: "\<exists>m' out. updateKcp now fds (m(fd := x)) = Done (m', out) \<and>
      (\<forall>(fd, ps) \<in> set out. \<forall>p \<in> set ps. 0 < length p \<and> length p \<le> 1400)" if "sessions_ok (m(fd := x))" for x
  proof (rule Cons.IH [OF that])
    show "distinct fds" using Cons.prems(2) by simp
    show "\<forall>fd' \<in> set fds. \<forall>s k. (m(fd := x)) fd' = Some (Some s) \<longrightarrow> ss_kcp s = Some k \<longrightarrow> unat (ackcount k) < 2147483648"
      using Cons.prems(2,3) by auto
  qed
  show ?case
  proof (cases "m fd")
    case None
    then have "m(fd := None) = m" by auto
    then show ?thesis using later [of None] Cons.prems(1) None by simp
  next
    case (Some x)
    then obtain s where x: "x = Some s" "session_ok s" using Cons.prems(1) by (auto simp: sessions_ok_def)
    have "\<forall>k. ss_kcp s = Some k \<longrightarrow> unat (ackcount k) < 2147483648" using Cons.prems(3) Some x(1) by simp
    from update_client_ok [OF x(2) this, of now] obtain r where r: "update_client now s = Done r"
      "case r of None \<Rightarrow> True | Some (s', ps) \<Rightarrow> \<forall>p \<in> set ps. 0 < length p \<and> length p \<le> 1400" by blast
    show ?thesis
    proof (cases r)
      case None
      then show ?thesis using later [of None] sessions_upd(2) [OF Cons.prems(1)] Some x r(1) by simp
    next
      case (Some p)
      obtain s1 ps where p: "r = Some (s1, ps)" using Some by (cases p) simp
      have "session_ok s1" using update_client_keeps [OF x(2)] r(1) p by simp
      from later [OF sessions_upd(1) [OF Cons.prems(1) this]] obtain m' out where
        "updateKcp now fds (m(fd \<mapsto> Some s1)) = Done (m', out)"
        "\<forall>(fd, ps) \<in> set out. \<forall>p \<in> set ps. 0 < length p \<and> length p \<le> 1400" by blast
      then show ?thesis using \<open>m fd = Some x\<close> x(1) r p by simp
    qed
  qed
qed

definition server_start :: server where
  "server_start = \<lparr>clients = Map.empty, file_cnt = 0\<rparr>"



end
