(* ===== verification/Server_Run.thy ===== *)
theory Server_Run
  imports File_Invariant
begin

text \<open>
  The server process around its sessions: the listening socket, the epoll descriptor, and the loop that hands
  events to the handlers of \<open>File_Server\<close>, of \<^verbatim>\<open>server_epoll.cc\<close>; and the two functions of \<^verbatim>\<open>kcp_socket.cc\<close> that open
  sockets. What a system call answers is an argument. The part of the kernel's state that the code is responsible
  for is in the model: which descriptors the process has open, which sockets listen, and which descriptors the
  epoll instance watches.
\<close>

section \<open>State\<close>

record server_proc =
  sp_server :: server
  listen_sock :: int
  epoll_fd :: int
  sp_stopFlag :: bool
  opened :: "int set"
  listening :: "int set"
  watched :: "int set"

text \<open>The constructor; the two descriptors hold what was in memory.\<close>

definition ServerEpoll :: "int \<Rightarrow> int \<Rightarrow> server_proc" where
  "ServerEpoll junk_listen junk_epoll =
     \<lparr>sp_server = server_start, listen_sock = junk_listen, epoll_fd = junk_epoll, sp_stopFlag = True,
      opened = {}, listening = {}, watched = {}\<rparr>"

definition create_thread :: "server_proc \<Rightarrow> server_proc" where
  "create_thread p = p\<lparr>sp_stopFlag := False\<rparr>"

text \<open>The end of a set-up function: it returns a number, or ends the process.\<close>

datatype set_up = Exited server_proc | Returned int server_proc

section \<open>Sockets\<close>

text \<open>\<^verbatim>\<open>fcntl\<close> answers the flags, and then what setting them gives.\<close>

definition setNonBlocking :: "int \<Rightarrow> (int \<Rightarrow> int) \<Rightarrow> int" where
  "setNonBlocking flags set_flags =
     (if flags = -1 then -1
      else if set_flags (flags OR 2048) = -1 then -1
      else 0)"

text \<open>The raw socket of the client, and the listening socket of the first server, over the descriptors in use.\<close>

definition StartFakeTcp :: "int \<Rightarrow> int \<Rightarrow> int set \<Rightarrow> int \<times> int set" where
  "StartFakeTcp sock hdrincl fds =
     (if sock < 0 then (-1, fds)
      else
        let fds = insert sock fds
        in if hdrincl < 0 then (-1, fds) else (sock, fds))"

definition StartServer :: "int \<Rightarrow> int \<Rightarrow> int \<Rightarrow> int set \<times> int set \<Rightarrow> int \<times> int set \<times> int set" where
  "StartServer sock bound listened fl =
     (case fl of (fds, ls) \<Rightarrow>
        if sock < 0 then (-1, fds, ls)
        else
          let fds = insert sock fds
          in if bound < 0 then (-1, fds, ls)
             else
               let ls = (if listened < 0 then ls else insert sock ls)
               in (sock, fds, ls))"

definition startServer :: "int \<Rightarrow> int \<Rightarrow> int \<Rightarrow> int \<Rightarrow> server_proc \<Rightarrow> set_up" where
  "startServer sock reuseport bound listened p =
     (let p = p\<lparr>listen_sock := sock\<rparr>
      in if sock < 0 then Returned (-1) p
         else
           let p = p\<lparr>opened := insert sock (opened p)\<rparr>
           in if reuseport = -1 then Exited p
              else if bound < 0 then Returned (-1) p
              else
                let p = (if listened < 0 then p else p\<lparr>listening := insert sock (listening p)\<rparr>)
                in Returned 0 p)"

definition close_fd :: "int \<Rightarrow> server_proc \<Rightarrow> server_proc" where
  "close_fd fd p = p\<lparr>opened := opened p - {fd}, listening := listening p - {fd}, watched := watched p - {fd}\<rparr>"

section \<open>The event loop\<close>

text \<open>Up to the loop: the epoll instance and the registration of the listening socket.\<close>

definition startEpoll_setup :: "int \<Rightarrow> int \<Rightarrow> server_proc \<Rightarrow> set_up" where
  "startEpoll_setup created added p =
     (let p = p\<lparr>epoll_fd := created\<rparr>
      in if created = -1 then Exited (close_fd (listen_sock p) p)
         else
           let p = p\<lparr>opened := insert created (opened p), watched := {}\<rparr>
           in if added = -1 then Exited (close_fd created (close_fd (listen_sock p) p))
              else Returned 0 (create_thread (p\<lparr>watched := insert (listen_sock p) (watched p)\<rparr>)))"

text \<open>
  An event: the descriptor and its flags as \<^verbatim>\<open>epoll_wait\<close> fills them in, and what the calls that the handler makes
  will answer: \<open>ev_sock\<close> to \<open>ev_buffer\<close> when a connection is accepted, the others when one has data.
\<close>

record epoll_ev =
  ev_fd :: int
  ev_hup :: bool
  ev_in :: bool
  ev_sock :: int
  ev_port :: u16
  ev_flags :: int
  ev_set :: "int \<Rightarrow> int"
  ev_added :: int
  ev_stop :: bool
  ev_kcp :: bool
  ev_buffer :: bool
  ev_reads :: "read_ev list"
  ev_open_ok :: bool
  ev_junk :: "nat \<Rightarrow> ikcpseg"
  ev_junk_in :: "int \<Rightarrow> ikcpseg"

definition accept_event :: "epoll_ev \<Rightarrow> server_proc \<Rightarrow> server_proc run" where
  "accept_event e p =
     (let fd = ev_sock e
      in if fd = -1 then Done p
         else
           let p = p\<lparr>opened := insert fd (opened p)\<rparr>
           in if setNonBlocking (ev_flags e) (ev_set e) = -1 then Done (close_fd fd p)
              else if ev_added e = -1 then Done (close_fd fd p)
              else
                let p = p\<lparr>watched := insert fd (watched p)\<rparr>
                in case accept_client (ev_stop e) (ev_kcp e) (ev_buffer e) True fd (ev_port e) (sp_server p) of
                     Pending \<Rightarrow> Pending
                   | Abort \<Rightarrow> Abort
                   | Done v \<Rightarrow> Done (p\<lparr>sp_server := v\<rparr>))"

text \<open>Whether the reads of a descriptor come to the end of the stream before an error.\<close>

fun reads_closed :: "read_ev list \<Rightarrow> bool" where
  "reads_closed [] = False"
| "reads_closed (Read_data b # evs) = reads_closed evs"
| "reads_closed (Read_closed # evs) = True"
| "reads_closed (Read_error # evs) = False"

definition conn_event :: "nat \<Rightarrow> epoll_ev \<Rightarrow> server_proc \<Rightarrow> (server_proc \<times> bytes list) run option" where
  "conn_event pid e p =
     (case client_event pid (ev_open_ok e) (ev_junk e) (ev_junk_in e) (ev_hup e) (ev_in e) (ev_fd e) (ev_reads e) (sp_server p) of
        None \<Rightarrow> None
      | Some Pending \<Rightarrow> Some Pending
      | Some Abort \<Rightarrow> Some Abort
      | Some (Done (v, sent)) \<Rightarrow>
          let p = (if ev_hup e \<or> ev_in e \<and> reads_closed (ev_reads e) then p\<lparr>watched := watched p - {ev_fd e}\<rparr> else p)
          in Some (Done (p\<lparr>sp_server := v\<rparr>, sent)))"

definition epoll_event :: "nat \<Rightarrow> epoll_ev \<Rightarrow> server_proc \<Rightarrow> (server_proc \<times> bytes list) run option" where
  "epoll_event pid e p =
     (if ev_fd e = listen_sock p
      then (case accept_event e p of Pending \<Rightarrow> Some Pending | Abort \<Rightarrow> Some Abort | Done p \<Rightarrow> Some (Done (p, [])))
      else conn_event pid e p)"

fun epoll_events :: "nat \<Rightarrow> epoll_ev list \<Rightarrow> server_proc \<Rightarrow> server_proc run option" where
  "epoll_events pid [] p = Some (Done p)"
| "epoll_events pid (e # es) p =
     (case epoll_event pid e p of
        None \<Rightarrow> None
      | Some Pending \<Rightarrow> Some Pending
      | Some Abort \<Rightarrow> Some Abort
      | Some (Done (p, sent)) \<Rightarrow> epoll_events pid es p)"

text \<open>The calls of \<^verbatim>\<open>epoll_wait\<close>, which fail (\<^const>\<open>None\<close>) or give events.\<close>

fun epoll_loop :: "nat \<Rightarrow> epoll_ev list option list \<Rightarrow> server_proc \<Rightarrow> server_proc run option" where
  "epoll_loop pid [] p = Some Pending"
| "epoll_loop pid (None # ws) p = Some (Done p)"
| "epoll_loop pid (Some es # ws) p =
     (case epoll_events pid es p of
        None \<Rightarrow> None
      | Some Pending \<Rightarrow> Some Pending
      | Some Abort \<Rightarrow> Some Abort
      | Some (Done p) \<Rightarrow> epoll_loop pid ws p)"

definition startEpoll ::
  "nat \<Rightarrow> int \<Rightarrow> int \<Rightarrow> epoll_ev list option list \<Rightarrow> server_proc \<Rightarrow> (set_up + server_proc) run option" where
  "startEpoll pid created added ws p =
     (case startEpoll_setup created added p of
        Exited p \<Rightarrow> Some (Done (Inl (Exited p)))
      | Returned r p \<Rightarrow>
          (case epoll_loop pid ws p of
             None \<Rightarrow> None
           | Some Pending \<Rightarrow> Some Pending
           | Some Abort \<Rightarrow> Some Abort
           | Some (Done p) \<Rightarrow> Some (Done (Inr p))))"

section \<open>Ending sessions\<close>

text \<open>
  A pass of the update thread: a session that is erased is destroyed, and with it its control block and its
  descriptor. \<open>fds\<close> are the keys of the map.
\<close>

definition has_block :: "session option option \<Rightarrow> bool" where
  "has_block x = (case x of Some (Some s) \<Rightarrow> ss_kcp s \<noteq> None | _ \<Rightarrow> False)"

definition stopped :: "session option option \<Rightarrow> bool" where
  "stopped x = (case x of Some (Some s) \<Rightarrow> ss_stopFlag s | _ \<Rightarrow> False)"

definition stopped_fds :: "int list \<Rightarrow> (int \<rightharpoonup> session option) \<Rightarrow> int list" where
  "stopped_fds fds m = filter (\<lambda>fd. stopped (m fd) \<and> has_block (m fd)) fds"

definition update_pass :: "u32 \<Rightarrow> int list \<Rightarrow> server_proc \<Rightarrow> (server_proc \<times> (int \<times> bytes list) list) run" where
  "update_pass now fds p =
     (case updateKcp now fds (clients (sp_server p)) of
        Pending \<Rightarrow> Pending
      | Abort \<Rightarrow> Abort
      | Done (m, out) \<Rightarrow>
          let p' = foldr close_fd (stopped_fds fds (clients (sp_server p))) p
          in Done (p'\<lparr>sp_server := (sp_server p)\<lparr>clients := m\<rparr>\<rparr>, out))"

text \<open>
  The destructor: the descriptors in the order in which they are closed. First every key of the map, then, when the
  map is cleared, every session closes its own again, then the listening socket.
\<close>

definition ServerEpoll_destroy :: "int list \<Rightarrow> server_proc \<Rightarrow> int list \<times> server_proc" where
  "ServerEpoll_destroy fds p =
     (let m = clients (sp_server p);
          closed = fds @ filter (\<lambda>fd. has_block (m fd)) fds @ [listen_sock p]
      in (closed, foldr close_fd closed (p\<lparr>sp_server := (sp_server p)\<lparr>clients := Map.empty\<rparr>\<rparr>)))"

section \<open>The stop flag of a session\<close>

lemma message_stop:
  "session_message pid open_ok junk cnt s msg = Done (s', cnt') \<Longrightarrow> ss_stopFlag s' = ss_stopFlag s"
  by (auto simp: session_message_def file_write_def Let_def split: if_splits option.splits)

lemma drain_stop:
  assumes "session_drain pid open_ok junk n cnt s = Some r"
  shows "\<forall>s' cnt'. r = Done (s', cnt') \<longrightarrow> ss_stopFlag s' = ss_stopFlag s"
proof (induction rule: session_drain.raw_induct [OF _ assms])
  case (1 rec pid open_ok junk n cnt s y)
  show ?case
    using 1(2) by (auto simp: Let_def split: option.splits run.splits if_splits dest!: message_stop 1(1))
qed

lemma epollin_stop:
  assumes "session_epollin pid open_ok junk junk_in cnt s sent evs = Some (Done (s', cnt', out))"
  shows "ss_stopFlag s' = (ss_stopFlag s \<or> reads_closed evs)"
  using assms
proof (induction evs arbitrary: s cnt sent)
  case Nil
  then show ?case by simp
next
  case (Cons ev evs)
  show ?case
  proof (cases ev)
    case (Read_data b)
    then show ?thesis using Cons.prems
      by (auto simp: Let_def split: option.splits run.splits if_splits dest!: Cons.IH drain_stop)
  qed (use Cons.prems in auto)
qed

lemma event_spec:
  assumes "client_event pid open_ok junk junk_in hup epollin fd evs v = Some (Done (v', out))"
    and "clients v fd = Some (Some s)" and "session_ok s" and "\<not> ss_stopFlag s"
  shows "\<exists>s'. clients v' = (clients v)(fd \<mapsto> Some s') \<and> session_ok s' \<and>
    ss_stopFlag s' = (hup \<or> epollin \<and> reads_closed evs)"
proof (cases hup)
  case True
  have "session_ok (s\<lparr>ss_stopFlag := True\<rparr>)" using assms(3) by (simp add: session_ok_def)
  then show ?thesis using assms(1,2) True by (auto simp: client_event_def)
next
  case no_hup: False
  show ?thesis
  proof (cases epollin)
    case False
    have "(clients v)(fd \<mapsto> Some s) = clients v" using assms(2) by auto
    then show ?thesis using assms no_hup False by (auto simp: client_event_def intro!: exI [of _ s])
  next
    case True
    then obtain s1 cnt where e: "session_epollin pid open_ok junk junk_in (file_cnt v) s [] evs = Some (Done (s1, cnt, out))"
      "v' = v\<lparr>clients := (clients v)(fd \<mapsto> Some s1), file_cnt := cnt\<rparr>"
      using assms(1,2) no_hup by (auto simp: client_event_def split: option.splits run.splits)
    then show ?thesis using epollin_ok [OF e(1) assms(3)] epollin_stop [OF e(1)] assms(4) no_hup True by auto
  qed
qed

text \<open>An update pass erases the stopped sessions and leaves the others running.\<close>

lemma update_spec:
  assumes "updateKcp now fds m = Done (m', out)" and "distinct fds" and "sessions_ok m"
  shows "(\<forall>fd. fd \<notin> set fds \<longrightarrow> m' fd = m fd) \<and>
    (\<forall>fd s. fd \<in> set fds \<and> m fd = Some (Some s) \<longrightarrow>
       (if ss_stopFlag s then m' fd = None else \<exists>s'. m' fd = Some (Some s') \<and> \<not> ss_stopFlag s'))"
  using assms
proof (induction fds arbitrary: m out)
  case Nil
  then show ?case by simp
next
  case (Cons fd fds)
  show ?case
  proof (cases "m fd")
    case None
    then have "updateKcp now fds m = Done (m', out)" using Cons.prems(1) by simp
    from Cons.IH [OF this _ Cons.prems(3)] Cons.prems(2) None show ?thesis by auto
  next
    case (Some x)
    then obtain s where x: "x = Some s" "session_ok s" using Cons.prems(3) by (auto simp: sessions_ok_def)
    show ?thesis
    proof (cases "ss_stopFlag s")
      case True
      then have "updateKcp now fds (m(fd := None)) = Done (m', out)" using Cons.prems(1) Some x by (simp add: update_client_def)
      from Cons.IH [OF this _ sessions_upd(2) [OF Cons.prems(3)]] Cons.prems(2)
      show ?thesis using Some x True by (auto split: if_splits)
    next
      case False
      obtain s1 ps out' where u: "update_client now s = Done (Some (s1, ps))"
        "updateKcp now fds (m(fd \<mapsto> Some s1)) = Done (m', out')" "ss_stopFlag s1 = ss_stopFlag s"
        using Cons.prems(1) Some x False by (auto simp: update_client_def split: run.splits option.splits sum.splits)
      have "session_ok s1" using update_client_keeps [OF x(2) u(1)] .
      from Cons.IH [OF u(2) _ sessions_upd(1) [OF Cons.prems(3) this]] Cons.prems(2)
      show ?thesis using Some x False u(3) by (auto split: if_splits)
    qed
  qed
qed

section \<open>Every descriptor is accounted for\<close>

text \<open>
  The process as a transition system: the loop handles an event, or the update thread makes a pass. epoll reports
  watched descriptors only, and a new connection gets a descriptor that is not in use; a pass visits every key of
  the map once.
\<close>

datatype proc_act = Act_epoll nat epoll_ev | Act_pass u32 "int list"

fun proc_step :: "proc_act \<Rightarrow> server_proc \<Rightarrow> server_proc option" where
  "proc_step (Act_epoll pid e) p =
     (if ev_fd e \<in> watched p \<and> (ev_sock e = -1 \<or> ev_sock e \<notin> opened p)
      then (case epoll_event pid e p of Some (Done (p, sent)) \<Rightarrow> Some p | _ \<Rightarrow> None)
      else None)"
| "proc_step (Act_pass now fds) p =
     (if distinct fds \<and> set fds = dom (clients (sp_server p))
      then (case update_pass now fds p of Done (p, out) \<Rightarrow> Some p | _ \<Rightarrow> None)
      else None)"

definition running :: "(int \<rightharpoonup> session option) \<Rightarrow> int set" where
  "running m = {fd. m fd \<noteq> None \<and> \<not> stopped (m fd)}"

definition proc_ok :: "server_proc \<Rightarrow> bool" where
  "proc_ok p \<longleftrightarrow>
     (let m = clients (sp_server p) in
      sessions_ok m \<and> listen_sock p \<noteq> epoll_fd p \<and> listen_sock p \<notin> dom m \<and> epoll_fd p \<notin> dom m \<and>
      opened p = {listen_sock p, epoll_fd p} \<union> dom m \<and> watched p = {listen_sock p} \<union> running m)"

lemma sessions_okD: "sessions_ok m \<Longrightarrow> m fd = Some x \<Longrightarrow> \<exists>s. x = Some s \<and> session_ok s"
  by (simp add: sessions_ok_def)

lemma running_upd:
  "running (m(fd \<mapsto> Some s)) = (if ss_stopFlag s then running m - {fd} else insert fd (running m))"
  by (auto simp: running_def stopped_def)

lemma running_dom: "running m \<subseteq> dom m"
  by (auto simp: running_def)

lemma accept_keeps:
  assumes ok: "proc_ok p" and new: "ev_sock e = -1 \<or> ev_sock e \<notin> opened p" and a: "accept_event e p = Done p'"
  shows "proc_ok p' \<and> listen_sock p' = listen_sock p"
proof (cases "ev_sock e = -1")
  case True
  then show ?thesis using ok a by (simp add: accept_event_def)
next
  case False
  let ?fd = "ev_sock e" and ?m = "clients (sp_server p)"
  have fd: "?fd \<notin> opened p" "?fd \<notin> watched p" "?fd \<noteq> listen_sock p" "?fd \<noteq> epoll_fd p" "?fd \<notin> dom ?m"
    using ok new False running_dom [of ?m] by (auto simp: proc_ok_def Let_def)
  have closed: "proc_ok (close_fd ?fd (p\<lparr>opened := insert ?fd (opened p)\<rparr>))"
    using ok fd by (auto simp: proc_ok_def close_fd_def Let_def)
  show ?thesis
  proof (cases "setNonBlocking (ev_flags e) (ev_set e) = -1 \<or> ev_added e = -1")
    case True
    then have "p' = close_fd ?fd (p\<lparr>opened := insert ?fd (opened p)\<rparr>)"
      using a False by (auto simp: accept_event_def Let_def split: if_splits)
    then show ?thesis using closed by (simp add: close_fd_def)
  next
    case set_up: False
    then obtain v where v: "accept_client (ev_stop e) (ev_kcp e) (ev_buffer e) True ?fd (ev_port e) (sp_server p) = Done v"
      "p' = p\<lparr>opened := insert ?fd (opened p), watched := insert ?fd (watched p), sp_server := v\<rparr>"
      using a False set_up by (auto simp: accept_event_def Let_def split: run.splits)
    from accept_spec [OF v(1) False TrueI] obtain s where s: "v = (sp_server p)\<lparr>clients := ?m(?fd \<mapsto> Some s)\<rparr>"
      "session_ok s" "\<not> ss_stopFlag s" by blast
    then show ?thesis using ok fd sessions_upd(1) [of ?m s ?fd]
      by (auto simp: v(2) proc_ok_def Let_def running_upd)
  qed
qed

lemma conn_keeps:
  assumes ok: "proc_ok p" and w: "ev_fd e \<in> watched p" "ev_fd e \<noteq> listen_sock p" and c: "conn_event pid e p = Some (Done (p', sent))"
  shows "proc_ok p' \<and> listen_sock p' = listen_sock p"
proof -
  let ?fd = "ev_fd e" and ?m = "clients (sp_server p)"
  have run: "?fd \<in> running ?m" "sessions_ok ?m" using ok w by (auto simp: proc_ok_def Let_def)
  then obtain s where s: "?m ?fd = Some (Some s)" "session_ok s" "\<not> ss_stopFlag s"
    using sessions_okD [OF run(2)] by (fastforce simp: running_def stopped_def)
  let ?gone = "ev_hup e \<or> ev_in e \<and> reads_closed (ev_reads e)"
  obtain v where v: "client_event pid (ev_open_ok e) (ev_junk e) (ev_junk_in e) (ev_hup e) (ev_in e) ?fd (ev_reads e) (sp_server p) = Some (Done (v, sent))"
    "p' = p\<lparr>watched := (if ?gone then watched p - {?fd} else watched p), sp_server := v\<rparr>"
    using c by (auto simp: conn_event_def Let_def split: option.splits run.splits)
  from event_spec [OF v(1) s] obtain s' where s': "clients v = ?m(?fd \<mapsto> Some s')" "session_ok s'" "ss_stopFlag s' = ?gone" by blast
  have "running (?m(?fd \<mapsto> Some s')) = (if ?gone then running ?m - {?fd} else running ?m)"
    unfolding running_upd s'(3) using run(1) by auto
  moreover have "dom (?m(?fd \<mapsto> Some s')) = dom ?m" using s(1) by auto
  ultimately show ?thesis using ok w sessions_upd(1) [OF run(2) s'(2), of ?fd]
    by (auto simp: v(2) s'(1) proc_ok_def Let_def)
qed

lemma close_fds: "foldr close_fd fds p = p\<lparr>opened := opened p - set fds, listening := listening p - set fds, watched := watched p - set fds\<rparr>"
  
proof (induction fds)
  case Nil
  then show ?case by simp
next
  case (Cons fd fds)
  have "X - set fds - {fd} = X - insert fd (set fds)" for X by blast
  then show ?case using Cons by (simp add: close_fd_def)
qed

lemma pass_keeps:
  assumes ok: "proc_ok p" and keys: "distinct fds" "set fds = dom (clients (sp_server p))" and u: "update_pass now fds p = Done (p', out)"
  shows "proc_ok p' \<and> listen_sock p' = listen_sock p \<and> dom (clients (sp_server p')) = running (clients (sp_server p))"
proof -
  let ?m = "clients (sp_server p)" and ?S = "stopped_fds fds (clients (sp_server p))"
  have sess: "sessions_ok ?m" using ok by (simp add: proc_ok_def Let_def)
  obtain m where m: "updateKcp now fds ?m = Done (m, out)"
    "p' = (foldr close_fd ?S p)\<lparr>sp_server := (sp_server p)\<lparr>clients := m\<rparr>\<rparr>"
    using u by (auto simp: update_pass_def Let_def split: run.splits)
  note spec = update_spec [OF m(1) keys(1) sess]
  have ok': "sessions_ok m" using update_keeps [OF m(1) sess] .
  have S: "set ?S = dom ?m - running ?m"
    using keys(2) sessions_okD [OF sess]
    by (fastforce simp: stopped_fds_def running_def stopped_def has_block_def session_ok_def split: option.splits)
  have each: "m fd \<noteq> None \<longleftrightarrow> fd \<in> running ?m" "m fd \<noteq> None \<Longrightarrow> \<not> stopped (m fd)" for fd
  proof -
    show "m fd \<noteq> None \<longleftrightarrow> fd \<in> running ?m"
    proof (cases "?m fd")
      case None
      then have "fd \<notin> set fds" using keys(2) by (simp add: domIff)
      then have "m fd = None" using spec None by simp
      then show ?thesis using None by (simp add: running_def)
    next
      case (Some x)
      then obtain s where "?m fd = Some (Some s)" using sessions_okD [OF sess] by blast
      then show ?thesis using spec keys(2) by (fastforce simp: running_def stopped_def split: if_splits)
    qed
    show "\<not> stopped (m fd)" if "m fd \<noteq> None"
    proof -
      have "?m fd \<noteq> None" using that spec keys(2) by (metis domIff)
      then obtain s where "?m fd = Some (Some s)" using sessions_okD [OF sess] by blast
      then show ?thesis using that spec keys(2) by (fastforce simp: stopped_def split: if_splits)
    qed
  qed
  then have dom: "dom m = running ?m" "running m = running ?m" by (auto simp: running_def)
  show ?thesis using ok ok' running_dom [of ?m] dom(1)
    by (auto simp: m(2) close_fds S proc_ok_def Let_def dom)
qed

interpretation proc: safe_steps proc_step "\<lambda>_. True" proc_ok
proof unfold_locales
  fix p a p'
  assume ok: "proc_ok p" and step: "proc_step a p = Some p'"
  show "proc_ok p'"
  proof (cases a)
    case (Act_epoll pid e)
    then obtain sent where e: "epoll_event pid e p = Some (Done (p', sent))" "ev_fd e \<in> watched p" "ev_sock e = -1 \<or> ev_sock e \<notin> opened p"
      using step by (auto split: option.splits run.splits if_splits)
    show ?thesis
    proof (cases "ev_fd e = listen_sock p")
      case True
      then have "accept_event e p = Done p'" using e(1) by (auto simp: epoll_event_def split: run.splits)
      then show ?thesis using accept_keeps [OF ok e(3)] by blast
    next
      case False
      then have "conn_event pid e p = Some (Done (p', sent))" using e(1) by (simp add: epoll_event_def)
      then show ?thesis using conn_keeps [OF ok e(2) False] by blast
    qed
  next
    case (Act_pass now fds)
    then obtain out where "update_pass now fds p = Done (p', out)" "distinct fds" "set fds = dom (clients (sp_server p))"
      using step by (auto split: run.splits if_splits)
    then show ?thesis using pass_keeps [OF ok] by blast
  qed
qed

text \<open>The loop of the code makes these steps, one batch of events after the other.\<close>

lemma epoll_events_steps:
  "run_steps proc_step (map (Act_epoll pid) es) p = Some p' \<Longrightarrow> epoll_events pid es p = Some (Done p')"
  by (induction es arbitrary: p) (auto split: option.splits run.splits if_splits)

lemma epoll_loop_steps:
  "run_steps proc_step (map (Act_epoll pid) (concat ess)) p = Some p' \<Longrightarrow>
     epoll_loop pid (map Some ess @ [None]) p = Some (Done p')"
proof (induction ess arbitrary: p)
  case Nil
  then show ?case by simp
next
  case (Cons es ess)
  then obtain t where "run_steps proc_step (map (Act_epoll pid) es) p = Some t"
    "run_steps proc_step (map (Act_epoll pid) (concat ess)) t = Some p'"
    by (auto simp: proc.run_split split: option.splits)
  then show ?case using Cons.IH epoll_events_steps by simp
qed

lemma setup_ok:
  assumes "startServer sock reuseport bound listened (ServerEpoll jl je) = Returned 0 p0"
    and "startEpoll_setup created added p0 = Returned 0 p1" and "created \<notin> opened p0"
  shows "proc_ok p1"
proof -
  have p0: "sp_server p0 = server_start" "listen_sock p0 = sock" "opened p0 = {sock}"
    using assms(1) by (auto simp: startServer_def ServerEpoll_def Let_def split: if_splits)
  have "p1 = p0\<lparr>epoll_fd := created, opened := {created, sock}, watched := {sock}, sp_stopFlag := False\<rparr>"
    using assms(2) p0 by (auto simp: startEpoll_setup_def create_thread_def Let_def split: if_splits)
  then show ?thesis using p0 assms(3)
    by (auto simp: proc_ok_def server_start_def sessions_ok_def running_def Let_def)
qed

text \<open>
  C8: No descriptor is lost. Once the two set-up functions have succeeded, whatever events arrive and whenever the
  update thread runs: the process has exactly the listening socket, the epoll descriptor and one descriptor for
  each session open; it watches the listening socket and exactly the sessions that are still running; every session
  has a control block that can be updated; and after an update pass only the descriptors of running sessions are
  left. The loop of \<^verbatim>\<open>startEpoll\<close> makes exactly the steps of its events. The kernel is asked for this much: a new
  descriptor is not in use, and epoll reports watched descriptors.
\<close>

theorem descriptors_accounted:
  assumes "startServer sock reuseport bound listened (ServerEpoll jl je) = Returned 0 p0"
    and "startEpoll_setup created added p0 = Returned 0 p1" and "created \<notin> opened p0"
    and "run_steps proc_step acts p1 = Some p"
  shows "opened p = {listen_sock p, epoll_fd p} \<union> dom (clients (sp_server p)) \<and>
    watched p = {listen_sock p} \<union> running (clients (sp_server p)) \<and> sessions_ok (clients (sp_server p)) \<and>
    (distinct fds \<and> set fds = dom (clients (sp_server p)) \<and> update_pass now fds p = Done (p', out) \<longrightarrow>
       opened p' = {listen_sock p', epoll_fd p'} \<union> running (clients (sp_server p))) \<and>
    (acts = map (Act_epoll pid) (concat ess) \<longrightarrow>
       startEpoll pid created added (map Some ess @ [None]) p0 = Some (Done (Inr p)))"
proof -
  have ok: "proc_ok p"
    by (rule proc.run_safe [OF _ _ assms(4)]) (simp_all add: setup_ok [OF assms(1-3)] list_all_iff)
  have "startEpoll pid created added (map Some ess @ [None]) p0 = Some (Done (Inr p))"
    if "acts = map (Act_epoll pid) (concat ess)"
    using epoll_loop_steps assms(4) unfolding that by (simp add: startEpoll_def assms(2))
  moreover have "opened p' = {listen_sock p', epoll_fd p'} \<union> running (clients (sp_server p))"
    if "distinct fds" "set fds = dom (clients (sp_server p))" "update_pass now fds p = Done (p', out)"
    using pass_keeps [OF ok that] by (auto simp: proc_ok_def Let_def)
  ultimately show ?thesis using ok by (auto simp: proc_ok_def Let_def)
qed

text \<open>A process that has accepted one connection.\<close>

definition accept5 :: epoll_ev where
  "accept5 = \<lparr>ev_fd = 3, ev_hup = False, ev_in = True, ev_sock = 5, ev_port = 4000, ev_flags = 0, ev_set = (\<lambda>_. 0), ev_added = 0,
     ev_stop = False, ev_kcp = True, ev_buffer = True, ev_reads = [], ev_open_ok = True, ev_junk = (\<lambda>_. seg0), ev_junk_in = (\<lambda>_. seg0)\<rparr>"

definition proc3 :: server_proc where
  "proc3 = \<lparr>sp_server = server_start, listen_sock = 3, epoll_fd = 0, sp_stopFlag = True, opened = {3}, listening = {3}, watched = {}\<rparr>"

definition proc4 :: server_proc where
  "proc4 = proc3\<lparr>epoll_fd := 4, opened := {4, 3}, watched := {3}, sp_stopFlag := False\<rparr>"

lemma proc3_start: "startServer 3 0 0 0 (ServerEpoll 0 0) = Returned 0 proc3"
  by (simp add: startServer_def ServerEpoll_def proc3_def)

lemma proc4_start: "startEpoll_setup 4 0 proc3 = Returned 0 proc4"
  by (simp add: startEpoll_setup_def create_thread_def proc3_def proc4_def)

lemma proc5_run: "\<exists>p. run_steps proc_step [Act_epoll 1 accept5] proc4 = Some p \<and> dom (clients (sp_server p)) = {5}"
  by (simp add: accept5_def proc4_def proc3_def epoll_event_def accept_event_def setNonBlocking_def server_start_def
      accept_client_def KcpHandleClient_def ikcp_create_def start_kcp_server_def Let_def)

theorem descriptors_accounted_witness:
  "\<exists>p. startEpoll 1 4 0 [Some [accept5], None] proc3 = Some (Done (Inr p)) \<and> opened p = {listen_sock p, epoll_fd p, 5}"
proof -
  obtain p where p: "run_steps proc_step [Act_epoll 1 accept5] proc4 = Some p" "dom (clients (sp_server p)) = {5}"
    using proc5_run by blast
  have "4 \<notin> opened proc3" by (simp add: proc3_def)
  from descriptors_accounted [OF proc3_start proc4_start this p(1), of "[5]" 0 p "[]" 1 "[[accept5]]"] p(2)
  show ?thesis by (intro exI [of _ p]) auto
qed

section \<open>What the set-up and the end get wrong\<close>

text \<open>
  C39: Four defects. \<^verbatim>\<open>startServer\<close> succeeds even if the socket does not listen. When \<^verbatim>\<open>bind\<close> fails it reports an
  error and leaves the socket open, as \<^verbatim>\<open>StartFakeTcp\<close> and \<^verbatim>\<open>StartServer\<close> do with theirs. The destructor closes the
  descriptor of every session twice, so the second time it may close a descriptor that another thread has just
  been given; and it never closes the epoll descriptor.
\<close>

theorem server_setup_hazards:
  "((\<exists>q. startServer sock reuseport bound listened p = Returned 0 q) \<longleftrightarrow> 0 \<le> sock \<and> reuseport \<noteq> -1 \<and> 0 \<le> bound) \<and>
   (startServer sock reuseport bound (-1) p = Returned 0 q \<and> sock \<notin> listening p \<longrightarrow> listen_sock q \<notin> listening q) \<and>
   (0 \<le> sock \<and> reuseport \<noteq> -1 \<and> bound < 0 \<longrightarrow>
      (\<exists>q. startServer sock reuseport bound listened p = Returned (-1) q \<and> sock \<in> opened q)) \<and>
   (0 \<le> sock \<and> bound < 0 \<longrightarrow> StartServer sock bound listened (fds, ls) = (-1, insert sock fds, ls)) \<and>
   (0 \<le> sock \<and> hdrincl < 0 \<longrightarrow> StartFakeTcp sock hdrincl fds = (-1, insert sock fds)) \<and>
   (proc_ok p \<and> distinct keys \<and> set keys = dom (clients (sp_server p)) \<and> clients (sp_server p) fd \<noteq> None \<longrightarrow>
      count_list (fst (ServerEpoll_destroy keys p)) fd = 2 \<and> epoll_fd p \<in> opened (snd (ServerEpoll_destroy keys p)))"
proof -
  have "count_list (fst (ServerEpoll_destroy keys p)) fd = 2 \<and> epoll_fd p \<in> opened (snd (ServerEpoll_destroy keys p))"
    if ok: "proc_ok p" and keys: "distinct keys" "set keys = dom (clients (sp_server p))" and fd: "clients (sp_server p) fd \<noteq> None"
  proof -
    let ?m = "clients (sp_server p)"
    have all: "has_block (?m x)" if "x \<in> set keys" for x
      using that keys(2) ok sessions_okD [of ?m x] by (fastforce simp: proc_ok_def has_block_def session_ok_def Let_def)
    then have f: "filter (\<lambda>fd. has_block (?m fd)) keys = keys" by simp
    have in': "fd \<in> set keys" using fd keys(2) by auto
    then have "count_list keys fd = 1" using keys(1) by (induction keys) auto
    then have "count_list (fst (ServerEpoll_destroy keys p)) fd = 2"
      using ok in' keys(2) by (auto simp: ServerEpoll_destroy_def Let_def f proc_ok_def)
    moreover have "epoll_fd p \<in> opened (snd (ServerEpoll_destroy keys p))"
      using ok keys(2) by (auto simp: ServerEpoll_destroy_def Let_def f close_fds proc_ok_def)
    ultimately show ?thesis ..
  qed
  then show ?thesis
    by (auto simp: startServer_def StartServer_def StartFakeTcp_def Let_def)
qed

theorem server_setup_hazards_witness:
  "(\<exists>q. startServer 3 0 0 (-1) (ServerEpoll 0 0) = Returned 0 q \<and> listen_sock q \<notin> listening q) \<and>
   StartFakeTcp 3 (-1) {} = (-1, {3}) \<and>
   (\<exists>p. run_steps proc_step [Act_epoll 1 accept5] proc4 = Some p \<and> count_list (fst (ServerEpoll_destroy [5] p)) 5 = 2)"
proof -
  obtain p where p: "run_steps proc_step [Act_epoll 1 accept5] proc4 = Some p" "dom (clients (sp_server p)) = {5}"
    using proc5_run by blast
  have "4 \<notin> opened proc3" by (simp add: proc3_def)
  then have "proc_ok proc4" by (rule setup_ok [OF proc3_start proc4_start])
  then have ok: "proc_ok p" by (rule proc.run_safe [OF _ _ p(1)]) simp
  have "clients (sp_server p) 5 \<noteq> None" using p(2) by (metis domIff insertI1)
  then have two: "count_list (fst (ServerEpoll_destroy [5] p)) 5 = 2"
    using server_setup_hazards [of 3 0 0 0 p p "{}" "{}" "-1" "[5]" 5] ok p(2) by simp
  have "\<exists>q. startServer 3 0 0 (-1) (ServerEpoll 0 0) = Returned 0 q"
    using server_setup_hazards [of 3 0 0 "-1" "ServerEpoll 0 0", THEN conjunct1] by simp
  then obtain q where q: "startServer 3 0 0 (-1) (ServerEpoll 0 0) = Returned 0 q" by blast
  moreover have "3 \<notin> listening (ServerEpoll 0 0)" by (simp add: ServerEpoll_def)
  ultimately have "listen_sock q \<notin> listening q"
    using server_setup_hazards [of 3 0 0 "-1" "ServerEpoll 0 0" q] by simp
  moreover have "StartFakeTcp 3 (-1) {} = (-1, {3})"
    using server_setup_hazards [of 3 0 0 "-1" p p "{}" "{}" "-1" "[]" 0] by simp
  ultimately show ?thesis using two p(1) q by blast
qed

end
