(* ===== verification/File_Client.thy ===== *)
theory File_Client
  imports Tcp_Client
begin

text \<open>
  What the client does once it is connected (\<^verbatim>\<open>kcp_client_start\<close>, \<^verbatim>\<open>send_file\<close>, the receive loop
  \<^verbatim>\<open>run_tcp_client\<close>, \<^verbatim>\<open>client_loop\<close> and \<^verbatim>\<open>Close\<close>). The file is split into protocol messages: a header of 136
  bytes with the size and the name, then pieces of at most \<^verbatim>\<open>BUFFER_SIZE\<close> bytes. The two threads and
  \<^verbatim>\<open>send_file\<close> share the control block under a mutex, so each locked section is one atomic step.
\<close>

section \<open>Starting\<close>

definition kcp_client_start :: "kcp_client \<Rightarrow> kcp_client run" where
  "kcp_client_start c =
     (case m_kcp c of
        None \<Rightarrow> Abort
      | Some k \<Rightarrow>
          let k = ikcp_setoutput k True;
              k = snd (ikcp_wndsize k 256 256);
              k = snd (ikcp_nodelay k 1 10 2 1)
          in Done (c\<lparr>m_kcp := Some k, stopFlag := False\<rparr>))"

text \<open>The datagrams of one update go through the output callback one after the other.\<close>

fun client_output :: "kcp_client \<Rightarrow> bytes list \<Rightarrow> send_ev list list \<Rightarrow> (kcp_client \<times> bytes list) run" where
  "client_output c [] evss = Done (c, [])"
| "client_output c (p # ps) [] = Pending"
| "client_output c (p # ps) (evs # evss) =
     (case tcp_client_cb c p (int (length p)) evs of
        Pending \<Rightarrow> Pending
      | Abort \<Rightarrow> Abort
      | Done (r, c, sent) \<Rightarrow>
          (case client_output c ps evss of
             Pending \<Rightarrow> Pending
           | Abort \<Rightarrow> Abort
           | Done (c, sent') \<Rightarrow> Done (c, sent @ sent')))"

text \<open>The locked section of \<^verbatim>\<open>client_loop\<close>, which also starts every pass of \<^verbatim>\<open>run_tcp_client\<close>.\<close>

definition client_update :: "kcp_client \<Rightarrow> u32 \<Rightarrow> send_ev list list \<Rightarrow> (kcp_client \<times> bytes list) run" where
  "client_update c now evss =
     (case m_kcp c of
        None \<Rightarrow> Abort
      | Some k \<Rightarrow>
          (case ikcp_update k now of
             Inl _ \<Rightarrow> Abort
           | Inr (k, ps) \<Rightarrow> client_output (c\<lparr>m_kcp := Some k\<rparr>) ps evss))"

section \<open>The receive loop\<close>

text \<open>\<^verbatim>\<open>strcmp\<close> looks at the bytes before the first zero.\<close>

definition c_string :: "bytes \<Rightarrow> bytes" where
  "c_string b = takeWhile (\<lambda>x. x \<noteq> 0) b"

definition finish_message :: bytes where
  "finish_message = map (of_nat \<circ> of_char) ''send_finish''"

partial_function (option) client_drain :: "int \<Rightarrow> kcp_client \<Rightarrow> kcp_client run option" where
  "client_drain data_size c =
     (case m_kcp c of
        None \<Rightarrow> Some Abort
      | Some k \<Rightarrow>
          (case ikcp_recv k True data_size of
             None \<Rightarrow> Some Abort
           | Some (ret, out, k) \<Rightarrow>
               let c = c\<lparr>m_kcp := Some k\<rparr>
               in if ret > 0 then
                    client_drain data_size
                      (if c_string (out @ replicate (1034 - length out) 0) = finish_message then c\<lparr>finishSend := True\<rparr> else c)
                  else Some (Done c)))"

text \<open>
  What follows \<^verbatim>\<open>recvfrom\<close>, with its result \<open>len\<close> and the buffer; the flag of the result says that the
  loop ends.
\<close>

definition client_packet :: "(int \<Rightarrow> ikcpseg) \<Rightarrow> kcp_client \<Rightarrow> bytes \<Rightarrow> int \<Rightarrow> (kcp_client \<times> bool) run option" where
  "client_packet junk c buf len =
     (case prase_tcp_packet buf of
        None \<Rightarrow> Some Abort
      | Some info \<Rightarrow>
          if uint (ti_port_dst info) \<noteq> c_port c then Some (Done (c, False))
          else
            let c = c\<lparr>server_ack_seq := ti_seq info + word_of_int (len - 40)\<rparr>;
                data_size = len - 40
            in if data_size = 0 then Some (Done (c, False))
               else case m_kcp c of
                 None \<Rightarrow> Some Abort
               | Some k \<Rightarrow>
                   (case ikcp_input junk k (Some (drop 40 buf)) data_size of
                      None \<Rightarrow> Some Abort
                    | Some (ret, k) \<Rightarrow>
                        let c = c\<lparr>m_kcp := Some k\<rparr>
                        in if ret < 0 then Some (Done (c, ti_fin info))
                           else (case client_drain data_size c of
                                   None \<Rightarrow> None
                                 | Some Pending \<Rightarrow> Some Pending
                                 | Some Abort \<Rightarrow> Some Abort
                                 | Some (Done c) \<Rightarrow> Some (Done (c, False)))))"

text \<open>
  One pass of the loop of \<^verbatim>\<open>run_tcp_client\<close>: the update and one event of the socket. The buffer has 1034
  bytes, of which a packet overwrites at most 1024; it keeps its contents from pass to pass.
\<close>

definition client_pass ::
  "(int \<Rightarrow> ikcpseg) \<Rightarrow> kcp_client \<Rightarrow> bytes \<Rightarrow> u32 \<Rightarrow> send_ev list list \<Rightarrow> net_ev \<Rightarrow>
     (kcp_client \<times> bytes \<times> bytes list \<times> bool) run option" where
  "client_pass junk c buf now evss ev =
     (case client_update c now evss of
        Pending \<Rightarrow> Some Pending
      | Abort \<Rightarrow> Some Abort
      | Done (c, sent) \<Rightarrow>
          (case (case ev of
                   Ev_packet p late \<Rightarrow> Some (recv_into buf (take 1024 p), int (length (take 1024 p)))
                 | Ev_recv_error \<Rightarrow> Some (buf, -1)
                 | _ \<Rightarrow> None) of
             None \<Rightarrow> Some (Done (c, buf, sent, False))
           | Some (buf, len) \<Rightarrow>
               (case client_packet junk c buf len of
                  None \<Rightarrow> None
                | Some Pending \<Rightarrow> Some Pending
                | Some Abort \<Rightarrow> Some Abort
                | Some (Done (c, stop)) \<Rightarrow> Some (Done (c, buf, sent, stop)))))"

text \<open>\<^verbatim>\<open>run_tcp_client\<close>: passes until the stop flag is set or the peer's FIN has been seen.\<close>

fun run_tcp_client ::
  "(int \<Rightarrow> ikcpseg) \<Rightarrow> kcp_client \<Rightarrow> bytes \<Rightarrow> bytes list \<Rightarrow> (u32 \<times> send_ev list list \<times> net_ev) list \<Rightarrow>
     (kcp_client \<times> bytes list) run option" where
  "run_tcp_client junk c buf sent [] =
     (if stopFlag c then Some (Done (c\<lparr>finish_loop := True\<rparr>, sent)) else Some Pending)"
| "run_tcp_client junk c buf sent ((now, evss, ev) # ins) =
     (if stopFlag c then Some (Done (c\<lparr>finish_loop := True\<rparr>, sent))
      else case client_pass junk c buf now evss ev of
        None \<Rightarrow> None
      | Some Pending \<Rightarrow> Some Pending
      | Some Abort \<Rightarrow> Some Abort
      | Some (Done (c, buf, out, stop)) \<Rightarrow>
          if stop then Some (Done (c\<lparr>finish_loop := True\<rparr>, sent @ out))
          else run_tcp_client junk c buf (sent @ out) ins)"

section \<open>Sending the file\<close>

text \<open>
  The header: the size in network order and the name, in a zeroed array of 136 bytes. The name is copied
  with its own length, so a long one is written past the array: \<^const>\<open>None\<close>.
\<close>

definition send_file_header :: "u32 \<Rightarrow> bytes \<Rightarrow> bytes option" where
  "send_file_header file_size filename =
     (let temp = replicate (8 + 128) 0;
          temp = memcpy_at temp 0 (store32 (htonl file_size)) 4
      in if 4 + length filename > length temp then None
         else Some (memcpy_at temp 4 filename (length filename)))"

definition BUFFER_SIZE :: nat where "BUFFER_SIZE = 1024"

text \<open>The read loop, on a file that keeps its length while it is read.\<close>

function send_file_chunks :: "bytes \<Rightarrow> nat \<Rightarrow> nat \<Rightarrow> bytes list" where
  "send_file_chunks contents file_size totalBytesRead =
     (if totalBytesRead < file_size then
        let s = min (file_size - totalBytesRead) BUFFER_SIZE;
            buf = take s (drop totalBytesRead contents)
        in buf # send_file_chunks contents file_size (totalBytesRead + s)
      else [])"
  by pat_completeness auto
termination
  by (relation "measure (\<lambda>(_, n, t). n - t)") (auto simp: BUFFER_SIZE_def)
declare send_file_chunks.simps [simp del]

text \<open>\<^verbatim>\<open>file_path.substr(file_path.find_last_of("/") + 1)\<close>\<close>

definition base_name :: "bytes \<Rightarrow> bytes" where
  "base_name path = rev (takeWhile (\<lambda>b. b \<noteq> 47) (rev path))"

definition send_file_messages :: "bytes \<Rightarrow> bytes \<Rightarrow> bytes list option" where
  "send_file_messages path contents =
     (let file_size = of_nat (length contents)
      in case send_file_header file_size (base_name path) of
           None \<Rightarrow> None
         | Some temp \<Rightarrow> Some (temp # send_file_chunks contents (unat file_size) 0))"

fun send_all :: "(nat \<Rightarrow> ikcpseg) \<Rightarrow> kcpcb \<Rightarrow> bytes list \<Rightarrow> kcpcb option" where
  "send_all junk k [] = Some k"
| "send_all junk k (b # bs) =
     (case ikcp_send junk k (Some b) (int (length b)) of
        None \<Rightarrow> None
      | Some (_, k) \<Rightarrow> send_all junk k bs)"

text \<open>\<^verbatim>\<open>Close\<close>; \<open>stopped\<close> tells whether the receive loop ended within the three seconds.\<close>

definition client_Close :: "bool \<Rightarrow> kcp_client \<Rightarrow> ikcpseg list \<times> kcp_client" where
  "client_Close stopped c =
     (case m_kcp c of
        None \<Rightarrow> ([], c)
      | Some k \<Rightarrow>
          let c = c\<lparr>stopFlag := True\<rparr>
          in if \<not> stopped then ([], c)
             else (fst (ikcp_release k), c\<lparr>m_kcp := None\<rparr>))"

text \<open>
  \<^verbatim>\<open>send_file\<close>. The file cannot be opened (\<open>contents = None\<close>) or has the given contents. The three waits
  succeed or not: for the server's message (\<open>ok1\<close>), for the send queue (\<open>ok2\<close>), for the receive loop
  (\<open>ok3\<close>). While it waits the threads run: \<open>threads\<close> is what they make of the client meanwhile. The packets
  of the closing sequence are returned.
\<close>

definition send_file ::
  "(nat \<Rightarrow> ikcpseg) \<Rightarrow> bytes \<Rightarrow> bytes option \<Rightarrow> (kcp_client \<Rightarrow> kcp_client) \<Rightarrow> bool \<Rightarrow> bool \<Rightarrow> bool \<Rightarrow> bool \<Rightarrow>
     ((bool \<times> net_ev list) \<times> bool) list \<Rightarrow> kcp_client \<Rightarrow> (kcp_client \<times> bytes list) run" where
  "send_file junk path contents threads stopped ok1 ok2 ok3 ins c =
     (if s_state c \<noteq> TCP_ESTABLISHED then Abort
      else case kcp_client_start c of
        Pending \<Rightarrow> Pending
      | Abort \<Rightarrow> Abort
      | Done c \<Rightarrow>
          (case contents of
             None \<Rightarrow> Done (snd (client_Close stopped c), [])
           | Some contents \<Rightarrow>
               (case (m_kcp c, send_file_messages path contents) of
                  (Some k, Some msgs) \<Rightarrow>
                    (case send_all junk k msgs of
                       None \<Rightarrow> Abort
                     | Some k \<Rightarrow>
                         let c = threads (c\<lparr>m_kcp := Some k\<rparr>)
                         in if \<not> ok1 then Done (snd (client_Close stopped c), [])
                            else if \<not> ok2 then Done (c, [])
                            else
                              let c = c\<lparr>stopFlag := True\<rparr>
                              in if \<not> ok3 then Done (c, [])
                                 else finish c [] ins)
                | _ \<Rightarrow> Abort)))"

section \<open>The messages of a file\<close>

lemma chunks_concat:
  "n \<le> length contents \<Longrightarrow> t \<le> n \<Longrightarrow> concat (send_file_chunks contents n t) = take (n - t) (drop t contents)"
proof (induction contents n t rule: send_file_chunks.induct)
  case (1 contents n t)
  show ?case
  proof (cases "t < n")
    case False
    then show ?thesis using 1 by (subst send_file_chunks.simps) simp
  next
    case True
    define s where "s = min (n - t) BUFFER_SIZE"
    have s: "t + s \<le> n" using True by (auto simp: s_def)
    have "take (n - t) (drop t contents) = take s (drop t contents) @ take (n - (t + s)) (drop (t + s) contents)"
    proof -
      have "take (s + (n - (t + s))) (drop t contents) = take s (drop t contents) @ take (n - (t + s)) (drop (t + s) contents)"
        by (simp add: take_add add.commute)
      then show ?thesis using s by simp
    qed
    then show ?thesis
      using 1(1) [OF True s_def refl] 1(2) s True by (subst send_file_chunks.simps) (simp add: s_def [symmetric])
  qed
qed

lemma chunks_sizes:
  "b \<in> set (send_file_chunks contents n t) \<Longrightarrow> n \<le> length contents \<Longrightarrow> 0 < length b \<and> length b \<le> 1024"
proof (induction contents n t rule: send_file_chunks.induct)
  case (1 contents n t)
  show ?case
  proof (cases "t < n")
    case False
    then show ?thesis using 1(2) by (subst (asm) send_file_chunks.simps) simp
  next
    case True
    define s where "s = min (n - t) BUFFER_SIZE"
    have "b = take s (drop t contents) \<or> b \<in> set (send_file_chunks contents n (t + s))"
      using 1(2) True by (subst (asm) send_file_chunks.simps) (simp add: s_def [symmetric])
    then show ?thesis
    proof
      assume "b = take s (drop t contents)"
      then show ?thesis using True 1(3) by (auto simp: s_def BUFFER_SIZE_def)
    next
      assume "b \<in> set (send_file_chunks contents n (t + s))"
      then show ?thesis using 1(1) [OF True s_def refl] 1(3) by simp
    qed
  qed
qed

lemma send_file_header_spec:
  assumes "length name \<le> 132"
  shows "send_file_header n name = Some (store32 (htonl n) @ name @ replicate (132 - length name) 0)"
proof -
  have l: "length (store32 x) = 4" for x by (simp add: store32_def)
  then have "memcpy_at (replicate 136 0) 0 (store32 (htonl n)) 4 = store32 (htonl n) @ replicate 132 0"
    by (simp add: memcpy_at_def)
  moreover have "memcpy_at (store32 (htonl n) @ replicate 132 0) 4 name (length name) =
      store32 (htonl n) @ name @ replicate (132 - length name) 0"
    using assms l by (simp add: memcpy_at_def)
  ultimately show ?thesis using assms l by (simp add: send_file_header_def Let_def)
qed

end
