(* ===== verification/File_Session.thy ===== *)
theory File_Session
  imports File_Client File_Server
begin

text \<open>
  The two ends together, at the level of messages: what the server writes when it takes the messages
  that the client makes of a file, and the ways in which this goes wrong.
\<close>

section \<open>A session that takes messages in order\<close>

fun session_take ::
  "nat \<Rightarrow> bool \<Rightarrow> (nat \<Rightarrow> ikcpseg) \<Rightarrow> nat \<Rightarrow> session \<Rightarrow> bytes list \<Rightarrow> (session \<times> nat) run" where
  "session_take pid open_ok junk cnt s [] = Done (s, cnt)"
| "session_take pid open_ok junk cnt s (m # ms) =
     (case session_message pid open_ok junk cnt s m of
        Pending \<Rightarrow> Pending
      | Abort \<Rightarrow> Abort
      | Done (s, cnt) \<Rightarrow> session_take pid open_ok junk cnt s ms)"

lemma length_send_finish [simp]: "length send_finish = 11"
  by (simp add: send_finish_def)

text \<open>The control block after the final message has been queued.\<close>

definition finish_queued :: "kcpcb \<Rightarrow> kcpcb \<Rightarrow> bool" where
  "finish_queued k k' \<longleftrightarrow>
     (\<exists>seg. k' = k\<lparr>snd_queue := snd_queue k @ [seg], nsnd_que := nsnd_que k + 1\<rparr> \<and>
        seg_data seg = send_finish \<and> seg_frg seg = 0 \<and> seg_ok seg)"

lemma send_short:
  assumes "kcp_wf k" and "stream k = 0" and "length b \<le> unat (mss k)"
  shows "\<exists>seg. ikcp_send junk k (Some b) (int (length b)) =
      Some (int (length b), k\<lparr>snd_queue := snd_queue k @ [seg], nsnd_que := nsnd_que k + 1\<rparr>) \<and>
    seg_data seg = b \<and> seg_frg seg = 0 \<and> seg_ok seg"
proof -
  have m: "26 \<le> unat (mss k)" "unat (mss k) < 2147483648"
    using assms(1) cfg_mss [of k] by (simp_all add: kcp_wf_def)
  have "frag_count (unat (mss k)) (length b) = 1"
    using frag_count_small [of "unat (mss k)" "length b" 1] frag_count_pos [of "unat (mss k)" "length b"] assms(3) m
    by simp
  note one = this
  have "length b < 2147483648" using assms(3) m by simp
  from send_message_holds [OF assms(1,2) this, of junk]
  have "\<exists>segs. ikcp_send junk k (Some b) (int (length b)) =
       Some (int (length b), k\<lparr>snd_queue := snd_queue k @ segs, nsnd_que := nsnd_que k + 1\<rparr>) \<and>
    concat (map seg_data segs) = b \<and> map seg_frg segs = [0] \<and> (\<forall>s \<in> set segs. seg_ok s \<and> length (seg_data s) \<le> unat (mss k))"
    unfolding Let_def one by simp
  then obtain segs where s: "ikcp_send junk k (Some b) (int (length b)) =
       Some (int (length b), k\<lparr>snd_queue := snd_queue k @ segs, nsnd_que := nsnd_que k + 1\<rparr>)"
    "concat (map seg_data segs) = b" "map seg_frg segs = [0]"
    "\<forall>s \<in> set segs. seg_ok s \<and> length (seg_data s) \<le> unat (mss k)" by (elim exE conjE) (rule that)
  then obtain seg where "segs = [seg]" "seg_frg seg = 0" by (cases segs) auto
  then show ?thesis using s by (intro exI [of _ seg]) simp
qed

text \<open>The size of the file is reached with the last chunk.\<close>

lemma size_reached:
  assumes "d + length b + length (concat cs) = n" and "n < 4294967296" and "\<forall>c \<in> set cs. c \<noteq> []"
  shows "(of_nat n :: u32) \<le> of_nat (d + length b) \<longleftrightarrow> cs = []"
proof -
  have "d + length b < 4294967296" using assms(1,2) by simp
  then have u: "unat (of_nat (d + length b) :: u32) = d + length b" "unat (of_nat n :: u32) = n"
    using assms(2) by (blast intro: unat_of_nat_u32)+
  have "0 < length (concat cs)" if "cs \<noteq> []" using that assms(3) by (cases cs) auto
  then have "n \<le> d + length b \<longleftrightarrow> cs = []" using assms(1) by (cases "cs = []") auto
  then show ?thesis by (simp only: word_le_nat_alt u)
qed

text \<open>The chunks that complete a file of \<open>n\<close> bytes.\<close>

lemma take_chunks:
  assumes "ss_read_file s" and "ss_open s" and "ss_kcp s = Some k" and "kcp_wf k" and "stream k = 0"
    and "ss_file_sended s = of_nat d" and "ss_file_size s = of_nat n" and "n < 4294967296"
    and "\<forall>b \<in> set cs. b \<noteq> []" and "d + length (concat cs) = n" and "cs \<noteq> []"
  shows "\<exists>s' k'. session_take pid open_ok junk cnt s cs = Done (s', cnt) \<and> ss_data s' = ss_data s @ concat cs \<and>
    \<not> ss_open s' \<and> ss_kcp s' = Some k' \<and> finish_queued k k' \<and> ss_filePath s' = ss_filePath s"
  using assms
proof (induction cs arbitrary: s d)
  case Nil
  then show ?case by simp
next
  case (Cons b cs)
  let ?s = "s\<lparr>ss_data := ss_data s @ b, ss_file_sended := of_nat (d + length b)\<rparr>"
  have full: "(of_nat n :: u32) \<le> of_nat (d + length b) \<longleftrightarrow> cs = []"
    using Cons.prems(8-10) by (intro size_reached) simp_all
  show ?case
  proof (cases "cs = []")
    case True
    then have d: "d + length b = n" using Cons.prems by simp
    have "length send_finish \<le> unat (mss k)" using cfg_mss [of k] Cons.prems(4) by (simp add: kcp_wf_def)
    from send_short [OF Cons.prems(4,5) this] obtain seg where
      "ikcp_send junk k (Some send_finish) (int (length send_finish)) =
        Some (int (length send_finish), k\<lparr>snd_queue := snd_queue k @ [seg], nsnd_que := nsnd_que k + 1\<rparr>)"
      "seg_data seg = send_finish" "seg_frg seg = 0" "seg_ok seg" by blast
    then show ?thesis
      using Cons.prems True d by (auto simp: session_message_def Let_def file_write_def finish_queued_def)
  next
    case False
    then have "\<not> (of_nat n :: u32) \<le> of_nat (d + length b)" by (simp only: full not_False_eq_True)
    then have m: "session_message pid open_ok junk cnt s b = Done (?s, cnt)"
      using Cons.prems by (simp add: session_message_def Let_def file_write_def)
    have "\<exists>s' k'. session_take pid open_ok junk cnt ?s cs = Done (s', cnt) \<and> ss_data s' = ss_data ?s @ concat cs \<and>
      \<not> ss_open s' \<and> ss_kcp s' = Some k' \<and> finish_queued k k' \<and> ss_filePath s' = ss_filePath ?s"
      using Cons.prems False by (intro Cons.IH [where d = "d + length b"]) auto
    then show ?thesis by (simp add: m)
  qed
qed

lemma header_read:
  assumes "length name \<le> 132" and "\<not> ss_read_file s"
  shows "session_message pid True junk cnt s (store32 (htonl n) @ name @ replicate (132 - length name) 0) =
    Done (s\<lparr>ss_read_file := True, ss_file_size := n,
       ss_filePath := ss_prefix_path s @ to_string pid @ ''_'' @ to_string cnt @ ''.txt'',
       ss_open := True, ss_data := []\<rparr>, cnt + 1)"
proof -
  have "mem32 (store32 l @ r) 0 = l" "length (store32 l) = 4" for l r by (simp_all add: mem32_def store32_def)
  then show ?thesis using assms by (simp add: session_message_def Let_def)
qed

lemma file_arrives:
  assumes msgs: "send_file_messages path contents = Some msgs"
    and size: "0 < length contents" "length contents < 4294967296"
    and s: "\<not> ss_read_file s" "ss_file_sended s = 0" "ss_kcp s = Some k" "kcp_wf k" "stream k = 0"
  shows "\<exists>s' k'. session_take pid True junk cnt s msgs = Done (s', cnt + 1) \<and> ss_data s' = contents \<and> \<not> ss_open s' \<and>
    ss_filePath s' = ss_prefix_path s @ to_string pid @ ''_'' @ to_string cnt @ ''.txt'' \<and>
    ss_kcp s' = Some k' \<and> finish_queued k k'"
proof -
  let ?n = "length contents" and ?name = "base_name path"
  have n: "unat (of_nat ?n :: u32) = ?n" using size(2) by (rule unat_of_nat_u32)
  obtain temp where t: "send_file_header (of_nat ?n) ?name = Some temp"
    "msgs = temp # send_file_chunks contents ?n 0"
    using msgs n by (auto simp: send_file_messages_def Let_def split: option.splits)
  then have "length ?name \<le> 132" by (auto simp: send_file_header_def Let_def memcpy_at_def store32_def split: if_splits)
  note name = this
  have temp: "temp = store32 (htonl (of_nat ?n)) @ ?name @ replicate (132 - length ?name) 0"
    using t(1) send_file_header_spec [OF name] by simp
  define s1 where "s1 = s\<lparr>ss_read_file := True, ss_file_size := of_nat ?n,
       ss_filePath := ss_prefix_path s @ to_string pid @ ''_'' @ to_string cnt @ ''.txt'',
       ss_open := True, ss_data := []\<rparr>"
  have head: "session_message pid True junk cnt s temp = Done (s1, cnt + 1)"
    unfolding temp s1_def by (rule header_read [OF name s(1)])
  let ?cs = "send_file_chunks contents ?n 0"
  have cs: "concat ?cs = contents" using chunks_concat [of ?n contents 0] by simp
  have nonempty: "\<forall>b \<in> set ?cs. b \<noteq> []" using chunks_sizes [of _ contents ?n 0] by fastforce
  have "?cs \<noteq> []" using cs size(1) by auto
  have "\<exists>s' k'. session_take pid True junk (cnt + 1) s1 ?cs = Done (s', cnt + 1) \<and> ss_data s' = ss_data s1 @ concat ?cs \<and>
    \<not> ss_open s' \<and> ss_kcp s' = Some k' \<and> finish_queued k k' \<and> ss_filePath s' = ss_filePath s1"
    using s cs nonempty \<open>?cs \<noteq> []\<close> size(2)
    by (intro take_chunks [where d = 0 and n = ?n]) (simp_all add: s1_def)
  then show ?thesis by (auto simp: t(2) head cs s1_def)
qed

text \<open>
  C12: The file arrives. The server's session that takes the messages which the client makes of a file,
  in order, writes exactly the contents of the file under the next free name, closes it with the
  last message and queues the closing message for the client once, for every file of 1 to \<open>2 ^ 32 - 1\<close>
  bytes with a name of at most 132 bytes.
\<close>

theorem file_roundtrip:
  assumes msgs: "send_file_messages path contents = Some msgs"
    and size: "0 < length contents" "length contents < 4294967296"
    and s: "\<not> ss_read_file s" "ss_file_sended s = 0" "ss_kcp s = Some k" "kcp_wf k" "stream k = 0"
  shows "\<exists>s' k'. session_take pid True junk cnt s msgs = Done (s', cnt + 1) \<and> ss_data s' = contents \<and> \<not> ss_open s' \<and>
    ss_filePath s' = ss_prefix_path s @ to_string pid @ ''_'' @ to_string cnt @ ''.txt'' \<and>
    ss_kcp s' = Some k' \<and> finish_queued k k'"
  by (rule file_arrives [OF assms])

lemma sample_kcp: "\<exists>k. ss_kcp sample_session = Some k \<and> kcp_wf k \<and> stream k = 0"
proof -
  obtain k where k: "ss_kcp sample_session = Some k" "ikcp_create True True 4000 = Some k"
    using sample_session_values(4) by blast
  moreover have "stream k = 0" using k(2) by (auto simp: ikcp_create_def)
  ultimately show ?thesis using create_wf by blast
qed

theorem file_roundtrip_witness:
  "\<exists>msgs s'. send_file_messages [47, 110] [1, 2, 3] = Some msgs \<and>
     session_take 7 True (\<lambda>_. seg0) 0 sample_session msgs = Done (s', 1) \<and> ss_data s' = [1, 2, 3]"
proof -
  have "length (base_name [47, 110]) \<le> 132" by (simp add: base_name_def)
  then obtain msgs where m: "send_file_messages [47, 110] [1, 2, 3] = Some msgs"
    using send_file_header_spec by (auto simp: send_file_messages_def Let_def)
  obtain k where k: "ss_kcp sample_session = Some k" "kcp_wf k" "stream k = 0" using sample_kcp by blast
  show ?thesis
    using file_roundtrip [OF m _ _ sample_session_values(1,2) k, of 7 "\<lambda>_. seg0" 0] m by auto
qed

section \<open>What can go wrong\<close>

text \<open>
  C31: Four defects of the file transfer. A file name of more than 132 bytes is copied past the header
  array of the client. An empty file is never acknowledged: the server opens it but neither closes it nor
  answers. A first message of less than 136 bytes, from any peer, ends the server. And a complete message
  that is longer than the last chunk read from the socket stays in the queue: the loop gives up
  without touching it, since it offers a buffer of that chunk's length only.
\<close>

theorem file_transfer_hazards:
  "(132 < length (base_name path) \<longrightarrow> send_file_messages path contents = None) \<and>
   (send_file_messages path [] = Some msgs \<and> \<not> ss_read_file s \<longrightarrow>
      (\<exists>s'. session_take pid True junk cnt s msgs = Done (s', cnt + 1) \<and> ss_open s' \<and> ss_data s' = [] \<and> ss_kcp s' = ss_kcp s)) \<and>
   (length m < 136 \<and> \<not> ss_read_file s \<longrightarrow> session_message pid open_ok junk cnt s m = Abort) \<and>
   (ss_kcp s = Some k \<and> kcp_wf k \<and> queued_bytes (rcv_queue k) < 2147483648 \<and> rcv_queue k \<noteq> [] \<and> \<not> head_incomplete k \<and>
      0 \<le> n \<and> n < int (length (message_bytes (rcv_queue k))) \<longrightarrow>
      session_drain pid open_ok junk n cnt s = Some (Done (s, cnt)))"
proof -
  have 1: "send_file_messages path contents = None" if "132 < length (base_name path)"
    using that by (auto simp: send_file_messages_def send_file_header_def Let_def memcpy_at_def store32_def)
  have 2: "\<exists>s'. session_take pid True junk cnt s msgs = Done (s', cnt + 1) \<and> ss_open s' \<and> ss_data s' = [] \<and> ss_kcp s' = ss_kcp s"
    if m: "send_file_messages path [] = Some msgs" and s: "\<not> ss_read_file s"
  proof -
    obtain temp where t: "send_file_header 0 (base_name path) = Some temp" "msgs = [temp]"
      using m by (auto simp: send_file_messages_def Let_def send_file_chunks.simps split: option.splits)
    then have name: "length (base_name path) \<le> 132"
      by (auto simp: send_file_header_def Let_def memcpy_at_def store32_def split: if_splits)
    with t send_file_header_spec [OF name, of 0] header_read [OF name s, of pid junk cnt 0]
    show ?thesis by simp
  qed
  have 3: "session_message pid open_ok junk cnt s m = Abort" if "length m < 136" "\<not> ss_read_file s"
    using that by (simp add: session_message_def)
  have 4: "session_drain pid open_ok junk n cnt s = Some (Done (s, cnt))"
    if k: "ss_kcp s = Some k" "kcp_wf k" "queued_bytes (rcv_queue k) < 2147483648" "rcv_queue k \<noteq> []" "\<not> head_incomplete k"
      and n: "0 \<le> n" "n < int (length (message_bytes (rcv_queue k)))"
  proof -
    have "length (message_bytes (rcv_queue k)) < 2147483648"
      using message_fits [of "rcv_queue k"] k(3) by simp
    then have "ikcp_recv k True n = Some (-3, [], k)"
      using recv_refuses(3) [OF k(2,3) _ k(4,5), of n True] n by simp
    moreover have "s\<lparr>ss_kcp := Some k\<rparr> = s" using k(1) by (cases s) simp
    ultimately show ?thesis using k(1) by (subst session_drain.simps) simp
  qed
  show ?thesis using 1 2 3 4 by blast
qed

theorem file_transfer_hazards_witness:
  "send_file_messages (replicate 133 97) [1] = None \<and>
   session_message 7 True (\<lambda>_. seg0) 0 sample_session [1, 2] = Abort \<and>
   session_drain 7 True (\<lambda>_. seg0) 1 0 (sample_session\<lparr>ss_kcp := Some one_message\<rparr>) =
     Some (Done (sample_session\<lparr>ss_kcp := Some one_message\<rparr>, 0))"
proof -
  have b: "takeWhile (\<lambda>b. b \<noteq> 47) (replicate n 97 :: bytes) = replicate n 97" for n
    by (induction n) auto
  have q: "queued_bytes (rcv_queue one_message) = 2" "message_bytes (rcv_queue one_message) = [1, 2]"
    "\<not> head_incomplete one_message" "rcv_queue one_message \<noteq> []"
    by (simp_all add: one_message_def queued_bytes_def message_bytes_def head_incomplete_def seg0_def)
  show ?thesis
    using file_transfer_hazards [of "replicate 133 97" "[1]" "[]" "sample_session\<lparr>ss_kcp := Some one_message\<rparr>" 7 "\<lambda>_. seg0" 0 "[1, 2]" True one_message 1]
      file_transfer_hazards [of "replicate 133 97" "[1]" "[]" sample_session 7 "\<lambda>_. seg0" 0 "[1, 2]" True one_message 1]
      b [of 133] q sample_session_values(1)
    by (simp add: base_name_def)
qed

end
