(* ===== verification/Legacy_Server.thy ===== *)
theory Legacy_Server
  imports File_Session Kcp_Round
begin

text \<open>
  The first version of the server in \<^verbatim>\<open>kcp_server.cc\<close>: a thread per connection, \<^verbatim>\<open>run_tcp_server\<close>, which reads,
  feeds the control block and takes at most one message per read; a second thread function that only updates; and
  \<^verbatim>\<open>random_24\<close>, which makes the file names. The event loop has replaced them, but they are compiled and offered by
  the class. One pass of the loop is one step; what \<^verbatim>\<open>read\<close>, the clocks and the file system answer are events.
\<close>

section \<open>File names\<close>

definition characters :: string where
  "characters = ''ABCDEFGHIJKLMNOPQRSTUVWXYZabcdefghijklmnopqrstuvwxyz0123456789''"

text \<open>
  \<open>rand seed i\<close> is the number that the \<open>i\<close>-th call of \<^verbatim>\<open>rand\<close> returns after \<^verbatim>\<open>srand(seed)\<close>: the C library fixes
  that it is a function of the two, but not which. \<open>now\<close> is \<^verbatim>\<open>time(nullptr)\<close>.
\<close>

type_synonym c_rand = "u32 \<Rightarrow> nat \<Rightarrow> nat"

fun random_loop :: "(nat \<Rightarrow> nat) \<Rightarrow> nat \<Rightarrow> nat \<Rightarrow> string \<Rightarrow> string" where
  "random_loop rand i 0 random_string = random_string"
| "random_loop rand i (Suc n) random_string =
     random_loop rand (i + 1) n (random_string @ [characters ! (rand i mod length characters)])"

definition random_24 :: "c_rand \<Rightarrow> int \<Rightarrow> string" where
  "random_24 rand now = random_loop (rand (word_of_int now)) 0 24 []"

text \<open>The member function has the same body.\<close>

definition handle_random_24 :: "c_rand \<Rightarrow> int \<Rightarrow> string" where
  "handle_random_24 rand now = random_loop (rand (word_of_int now)) 0 24 []"

section \<open>The thread of a connection\<close>

text \<open>The local variables that the loop carries from pass to pass; \<open>tl_buffer\<close> is not cleared between reads.\<close>

record tcp_locals =
  tl_read_file :: bool
  tl_open :: bool
  tl_data :: bytes
  tl_path :: string
  tl_sended :: u32
  tl_size :: u32
  tl_buffer :: bytes

definition tcp_locals0 :: tcp_locals where
  "tcp_locals0 = \<lparr>tl_read_file = False, tl_open = False, tl_data = [], tl_path = [], tl_sended = 0, tl_size = 0,
     tl_buffer = replicate 2048 0\<rparr>"

definition send_finished :: bytes where
  "send_finished = map (of_nat \<circ> of_char) ''send_finished''"

definition local_write :: "tcp_locals \<Rightarrow> bytes \<Rightarrow> tcp_locals" where
  "local_write l b = (if tl_open l then l\<lparr>tl_data := tl_data l @ b\<rparr> else l)"

text \<open>
  A message of \<open>ret > 0\<close> bytes that was taken after a read of \<open>len\<close> bytes; the second result is what is sent over the
  socket itself, without the protocol.
\<close>

definition tcp_server_message ::
  "c_rand \<Rightarrow> int \<Rightarrow> bool \<Rightarrow> nat \<Rightarrow> tcp_locals \<Rightarrow> bytes \<Rightarrow> (tcp_locals \<times> bytes list) run" where
  "tcp_server_message rand now open_ok len l msg =
     (if \<not> tl_read_file l then
        (if length msg < 128 + 8 then Abort
         else
           let l = l\<lparr>tl_read_file := True\<rparr>;
               l = l\<lparr>tl_size := ntohl (mem32 msg 0)\<rparr>;
               l = l\<lparr>tl_path := ''/home/hzh/workspace/work/bin/'' @ handle_random_24 rand now @ ''.txt''\<rparr>;
               l = l\<lparr>tl_open := open_ok, tl_data := []\<rparr>
           in if len > 8 + 128
              then Done ((local_write l (drop (8 + 128) msg))
                     \<lparr>tl_sended := tl_sended l + of_nat (length msg - (8 + 128))\<rparr>, [])
              else Done (l, []))
      else
        let l = local_write l msg;
            l = l\<lparr>tl_sended := tl_sended l + of_nat (length msg)\<rparr>
        in Done (l, if tl_sended l \<ge> tl_size l then [send_finished] else []))"

text \<open>One pass: the clock, what \<^verbatim>\<open>read\<close> returns, the second and whether a file could be opened.\<close>

record tcp_pass =
  tp_stop :: bool
  tp_now :: u32
  tp_read :: read_ev
  tp_time :: int
  tp_open :: bool

definition tcp_server_pass ::
  "c_rand \<Rightarrow> (int \<Rightarrow> ikcpseg) \<Rightarrow> tcp_pass \<Rightarrow> kcpcb \<Rightarrow> tcp_locals \<Rightarrow>
     (kcpcb \<times> tcp_locals \<times> bytes list \<times> bytes list) run" where
  "tcp_server_pass rand junk p k l =
     (case ikcp_update k (tp_now p) of
        Inl _ \<Rightarrow> Abort
      | Inr (k, out) \<Rightarrow>
          (case tp_read p of
             Read_closed \<Rightarrow> Done (k, l, out, [])
           | Read_error \<Rightarrow> Done (k, l, out, [])
           | Read_data b \<Rightarrow>
               let len = length b;
                   l = l\<lparr>tl_buffer := b @ drop len (tl_buffer l)\<rparr>
               in case ikcp_input junk k (Some (tl_buffer l)) (int len) of
                    None \<Rightarrow> Abort
                  | Some (ret, k) \<Rightarrow>
                      if ret < 0 then Done (k, l, out, [])
                      else
                        (case ikcp_recv k True (int len) of
                           None \<Rightarrow> Abort
                         | Some (ret, recv_buffer, k) \<Rightarrow>
                             if ret > 0 then
                               (case tcp_server_message rand (tp_time p) (tp_open p) len l recv_buffer of
                                  Pending \<Rightarrow> Pending
                                | Abort \<Rightarrow> Abort
                                | Done (l, sent) \<Rightarrow> Done (k, l, out, sent))
                             else Done (k, l, out, []))))"

fun tcp_server_loop ::
  "c_rand \<Rightarrow> (int \<Rightarrow> ikcpseg) \<Rightarrow> kcpcb \<Rightarrow> tcp_locals \<Rightarrow> bytes list \<Rightarrow> tcp_pass list \<Rightarrow>
     (kcpcb \<times> tcp_locals \<times> bytes list) run" where
  "tcp_server_loop rand junk k l sent [] = Pending"
| "tcp_server_loop rand junk k l sent (p # ps) =
     (if tp_stop p then Done (k, l\<lparr>tl_open := False\<rparr>, sent)
      else case tcp_server_pass rand junk p k l of
        Pending \<Rightarrow> Pending
      | Abort \<Rightarrow> Abort
      | Done (k, l, out, sent') \<Rightarrow> tcp_server_loop rand junk k l (sent @ out @ sent') ps)"

text \<open>The thread function; a stream that was never opened is in a good state, so its test never fails.\<close>

definition run_tcp_server ::
  "c_rand \<Rightarrow> (int \<Rightarrow> ikcpseg) \<Rightarrow> int \<Rightarrow> session \<Rightarrow> tcp_pass list \<Rightarrow> (session \<times> tcp_locals \<times> bytes list) run" where
  "run_tcp_server rand junk fd s ps =
     (case ss_kcp s of
        None \<Rightarrow> Abort
      | Some k \<Rightarrow>
          if fd = 0 then Abort
          else (case tcp_server_loop rand junk k tcp_locals0 [] ps of
                  Pending \<Rightarrow> Pending
                | Abort \<Rightarrow> Abort
                | Done (k, l, sent) \<Rightarrow> Done (s\<lparr>ss_kcp := Some k\<rparr>, l, sent)))"

text \<open>The other thread function only updates; its passes are the stop flag and the clock.\<close>

fun run_tcp_server_loop :: "(bool \<times> u32) list \<Rightarrow> kcpcb \<Rightarrow> bytes list \<Rightarrow> (kcpcb \<times> bytes list) run" where
  "run_tcp_server_loop [] k out = Pending"
| "run_tcp_server_loop ((stop, now) # ps) k out =
     (if stop then Done (k, out)
      else case ikcp_update k now of
        Inl _ \<Rightarrow> Abort
      | Inr (k, ds) \<Rightarrow> run_tcp_server_loop ps k (out @ ds))"

section \<open>Names\<close>

lemma random_loop_spec:
  "random_loop rand i n acc = acc @ map (\<lambda>j. characters ! (rand j mod length characters)) [i..<i + n]"
proof (induction n arbitrary: i acc)
  case 0
  then show ?case by simp
next
  case (Suc n)
  have "[i..<i + Suc n] = i # [i + 1..<(i + 1) + n]" by (simp add: upt_conv_Cons)
  then show ?case by (simp add: Suc.IH del: upt_Suc)
qed

lemma length_characters: "length characters = 62"
  by (simp add: characters_def)

lemma random_24_chars: "length (random_24 rand now) = 24 \<and> set (random_24 rand now) \<subseteq> set characters"
  by (auto simp: random_24_def random_loop_spec length_characters)

lemma random_24_seed: "(word_of_int now :: u32) = word_of_int now' \<Longrightarrow> random_24 rand now = random_24 rand now'"
  by (simp add: random_24_def)

lemma handle_random: "handle_random_24 = random_24"
  by (simp add: fun_eq_iff handle_random_24_def random_24_def)

section \<open>A file\<close>

text \<open>The messages one after the other, each with the second and the size of the read it was taken after.\<close>

fun tcp_server_take ::
  "c_rand \<Rightarrow> bool \<Rightarrow> tcp_locals \<Rightarrow> bytes list \<Rightarrow> (int \<times> nat \<times> bytes) list \<Rightarrow> (tcp_locals \<times> bytes list) run" where
  "tcp_server_take rand open_ok l sent [] = Done (l, sent)"
| "tcp_server_take rand open_ok l sent ((now, len, m) # ms) =
     (case tcp_server_message rand now open_ok len l m of
        Pending \<Rightarrow> Pending
      | Abort \<Rightarrow> Abort
      | Done (l, sent') \<Rightarrow> tcp_server_take rand open_ok l (sent @ sent') ms)"

lemma tcp_take_chunks:
  assumes "tl_read_file l" and "tl_open l" and "tl_sended l = of_nat d" and "tl_size l = of_nat n" and "n < 4294967296"
    and "map (\<lambda>(now, len, m). m) ps = cs" and "\<forall>b \<in> set cs. b \<noteq> []" and "d + length (concat cs) = n" and "cs \<noteq> []"
  shows "\<exists>l'. tcp_server_take rand True l sent ps = Done (l', sent @ [send_finished]) \<and> tl_data l' = tl_data l @ concat cs \<and>
    tl_path l' = tl_path l"
  using assms
proof (induction ps arbitrary: l d sent cs)
  case Nil
  then show ?case by simp
next
  case (Cons p ps)
  obtain now len b where p: "p = (now, len, b)" by (cases p)
  obtain cs' where cs: "cs = b # cs'" "map (\<lambda>(now, len, m). m) ps = cs'" using Cons.prems(6) by (auto simp: p)
  let ?l = "l\<lparr>tl_data := tl_data l @ b, tl_sended := of_nat (d + length b)\<rparr>"
  have "(of_nat n :: u32) \<le> of_nat (d + length b) \<longleftrightarrow> cs' = []"
    using Cons.prems(5,7,8) by (intro size_reached) (simp_all add: cs)
  then have m: "tcp_server_message rand now True len l b = Done (?l, if cs' = [] then [send_finished] else [])"
    using Cons.prems(1-4) by (simp add: tcp_server_message_def local_write_def Let_def)
  show ?case
  proof (cases "cs' = []")
    case True
    then show ?thesis using m cs by (simp add: p)
  next
    case False
    have "\<exists>l'. tcp_server_take rand True ?l sent ps = Done (l', sent @ [send_finished]) \<and>
        tl_data l' = tl_data ?l @ concat cs' \<and> tl_path l' = tl_path ?l"
      using Cons.prems cs False by (intro Cons.IH [where d = "d + length b"]) auto
    then show ?thesis using m cs False by (simp add: p)
  qed
qed

lemma tcp_header_read:
  assumes "length name \<le> 132" and "\<not> tl_read_file l"
  shows "tcp_server_message rand now True len l (store32 (htonl n) @ name @ replicate (132 - length name) 0) =
    Done (l\<lparr>tl_read_file := True, tl_size := n,
       tl_path := ''/home/hzh/workspace/work/bin/'' @ random_24 rand now @ ''.txt'', tl_open := True, tl_data := []\<rparr>, [])"
proof -
  have "mem32 (store32 x @ r) 0 = x" "length (store32 x) = 4" for x r by (simp_all add: mem32_def store32_def)
  then show ?thesis using assms by (simp add: tcp_server_message_def local_write_def handle_random Let_def)
qed

text \<open>
  C37: The first server writes the same file. Taking the messages that the client makes of a file, in order and
  one per read, the thread writes exactly the contents of the file and answers once, after the last byte; the
  name of the file has 24 random letters and digits and depends on nothing but the second in which the header
  arrives.
\<close>

theorem legacy_file:
  assumes msgs: "send_file_messages path contents = Some msgs" and "map (\<lambda>(now, len, m). m) ps = msgs"
    and size: "0 < length contents" "length contents < 4294967296"
  shows "\<exists>l now. now = fst (hd ps) \<and> tcp_server_take rand True tcp_locals0 [] ps = Done (l, [send_finished]) \<and> tl_data l = contents \<and>
    tl_path l = ''/home/hzh/workspace/work/bin/'' @ random_24 rand now @ ''.txt'' \<and>
    length (random_24 rand now) = 24 \<and> set (random_24 rand now) \<subseteq> set characters"
proof -
  let ?n = "length contents" and ?name = "base_name path"
  have n: "unat (of_nat ?n :: u32) = ?n" using size(2) by (rule unat_of_nat_u32)
  obtain temp where t: "send_file_header (of_nat ?n) ?name = Some temp" "msgs = temp # send_file_chunks contents ?n 0"
    using msgs n by (auto simp: send_file_messages_def Let_def split: option.splits)
  then have name: "length ?name \<le> 132" by (auto simp: send_file_header_def Let_def memcpy_at_def store32_def split: if_splits)
  have temp: "temp = store32 (htonl (of_nat ?n)) @ ?name @ replicate (132 - length ?name) 0"
    using t(1) send_file_header_spec [OF name] by simp
  obtain now len ps' where ps: "ps = (now, len, temp) # ps'" "map (\<lambda>(now, len, m). m) ps' = send_file_chunks contents ?n 0"
    using assms(2) t(2) by (cases ps) auto
  define l1 where "l1 = tcp_locals0\<lparr>tl_read_file := True, tl_size := of_nat ?n,
       tl_path := ''/home/hzh/workspace/work/bin/'' @ random_24 rand now @ ''.txt'', tl_open := True, tl_data := []\<rparr>"
  have "\<not> tl_read_file tcp_locals0" by (simp add: tcp_locals0_def)
  then have head: "tcp_server_message rand now True len tcp_locals0 temp = Done (l1, [])"
    unfolding temp l1_def by (rule tcp_header_read [OF name])
  let ?cs = "send_file_chunks contents ?n 0"
  have cs: "concat ?cs = contents" using chunks_concat [of ?n contents 0] by simp
  have nonempty: "\<forall>b \<in> set ?cs. b \<noteq> []" using chunks_sizes [of _ contents ?n 0] by fastforce
  have "?cs \<noteq> []" using cs size(1) by auto
  then have "\<exists>l'. tcp_server_take rand True l1 [] ps' = Done (l', [] @ [send_finished]) \<and> tl_data l' = tl_data l1 @ concat ?cs \<and>
      tl_path l' = tl_path l1"
    using ps(2) cs nonempty size(2)
    by (intro tcp_take_chunks [where d = 0 and n = ?n]) (simp_all add: l1_def tcp_locals0_def)
  then show ?thesis using head cs random_24_chars [of rand now] by (auto simp: ps(1) l1_def)
qed

theorem legacy_file_witness:
  "\<exists>msgs l. send_file_messages [47, 110] [1, 2, 3] = Some msgs \<and>
     tcp_server_take (\<lambda>s i. i) True tcp_locals0 [] (map (\<lambda>m. (1700000000, 2048, m)) msgs) = Done (l, [send_finished]) \<and>
     tl_data l = [1, 2, 3]"
proof -
  have "length (base_name [47, 110]) \<le> 132" by (simp add: base_name_def)
  then obtain msgs where m: "send_file_messages [47, 110] [1, 2, 3] = Some msgs"
    using send_file_header_spec by (auto simp: send_file_messages_def Let_def)
  have "map (\<lambda>(now, len, m). m) (map (\<lambda>m. (1700000000, 2048, m)) msgs) = msgs" by (simp add: comp_def)
  from legacy_file [OF m this] m show ?thesis by auto
qed

section \<open>What the loop misses\<close>

definition idle_pass :: "tcp_pass \<Rightarrow> bool" where
  "idle_pass p \<longleftrightarrow> \<not> tp_stop p \<and> (tp_read p = Read_closed \<or> tp_read p = Read_error)"

lemma idle_step:
  assumes ok: "endpoint_ok k" "unat (ackcount k) < 2147483648" and p: "tp_read p = Read_closed \<or> tp_read p = Read_error"
  shows "\<exists>k' out. tcp_server_pass rand junk p k l = Done (k', l, out, []) \<and> rcv_queue k' = rcv_queue k \<and>
    endpoint_ok k' \<and> unat (ackcount k') < 2147483648"
proof -
  obtain k' out where u: "ikcp_update k (tp_now p) = Inr (k', out)" "endpoint_ok k'"
    using endpoint_update [OF ok, of "tp_now p"] by blast
  have "rcv_queue k' = rcv_queue k" using update_keeps_queue [OF u(1)] ok(1) by (simp add: endpoint_ok_def)
  moreover have "tcp_server_pass rand junk p k l = Done (k', l, out, [])"
    using u(1) p by (auto simp: tcp_server_pass_def)
  ultimately show ?thesis using u endpoint_update_acks [OF ok u(1)] by blast
qed

text \<open>
  What the first server misses. It takes one message per read: a complete message that waits is not taken,
  and nothing is written, by a pass that reads nothing, whether the connection is idle or closed. A connection
  that the peer has closed does not end the thread, however long it runs. And two connections whose headers
  arrive in the same second write to the same file.
\<close>

theorem legacy_hazards:
  "(endpoint_ok k \<and> unat (ackcount k) < 2147483648 \<and> (tp_read p = Read_closed \<or> tp_read p = Read_error) \<longrightarrow>
      (\<exists>k' out. tcp_server_pass rand junk p k l = Done (k', l, out, []) \<and> rcv_queue k' = rcv_queue k)) \<and>
   (ss_kcp s = Some k \<and> endpoint_ok k \<and> unat (ackcount k) < 2147483648 \<and> fd \<noteq> 0 \<and> list_all idle_pass ps \<longrightarrow>
      run_tcp_server rand junk fd s ps = Pending) \<and>
   (\<not> tl_read_file l \<and> \<not> tl_read_file l' \<and> 136 \<le> length m \<and> 136 \<le> length m' \<longrightarrow>
      (\<exists>r r'. tcp_server_message rand now open_ok len l m = Done (r, []) \<and>
         tcp_server_message rand now open_ok' len' l' m' = Done (r', []) \<and> tl_path r = tl_path r'))"
proof -
  have 1: "\<exists>k' out. tcp_server_pass rand junk p k l = Done (k', l, out, []) \<and> rcv_queue k' = rcv_queue k"
    if "endpoint_ok k" "unat (ackcount k) < 2147483648" "tp_read p = Read_closed \<or> tp_read p = Read_error" for k
    using idle_step [OF that] by blast
  have loop: "tcp_server_loop rand junk k l sent ps = Pending"
    if "endpoint_ok k" "unat (ackcount k) < 2147483648" "list_all idle_pass ps" for k l sent
    using that
  proof (induction ps arbitrary: k sent)
    case Nil
    then show ?case by simp
  next
    case (Cons q ps)
    have q: "\<not> tp_stop q" "tp_read q = Read_closed \<or> tp_read q = Read_error" using Cons.prems(3) by (simp_all add: idle_pass_def)
    from idle_step [OF Cons.prems(1,2) q(2)] obtain k' out where
      "tcp_server_pass rand junk q k l = Done (k', l, out, [])" "endpoint_ok k'" "unat (ackcount k') < 2147483648" by blast
    then show ?case using Cons.IH Cons.prems(3) q(1) by simp
  qed
  have 2: "run_tcp_server rand junk fd s ps = Pending"
    if "ss_kcp s = Some k" "endpoint_ok k" "unat (ackcount k) < 2147483648" "fd \<noteq> 0" "list_all idle_pass ps"
    using loop [OF that(2,3,5)] that(1,4) by (simp add: run_tcp_server_def)
  have 3: "\<exists>r r'. tcp_server_message rand now open_ok len l m = Done (r, []) \<and>
         tcp_server_message rand now open_ok' len' l' m' = Done (r', []) \<and> tl_path r = tl_path r'"
    if "\<not> tl_read_file l" "\<not> tl_read_file l'" "136 \<le> length m" "136 \<le> length m'"
    using that by (simp add: tcp_server_message_def local_write_def Let_def)
  show ?thesis using 1 2 3 by blast
qed

text \<open>A complete message waits, and the connection is closed.\<close>

theorem legacy_hazards_witness:
  "\<exists>k s k' out. ss_kcp s = Some k \<and> rcv_queue k \<noteq> [] \<and>
     tcp_server_pass (\<lambda>s i. i) (\<lambda>_. seg0) \<lparr>tp_stop = False, tp_now = 5, tp_read = Read_closed, tp_time = 0, tp_open = True\<rparr> k tcp_locals0 =
       Done (k', tcp_locals0, out, []) \<and> rcv_queue k' = rcv_queue k \<and>
     run_tcp_server (\<lambda>s i. i) (\<lambda>_. seg0) 7 s
       [\<lparr>tp_stop = False, tp_now = 5, tp_read = Read_closed, tp_time = 0, tp_open = True\<rparr>] = Pending"
proof -
  define k where "k = one_message\<lparr>output_set := True\<rparr>"
  have "kcp_wf one_message" by simp
  then have "kcp_wf k" by (simp add: k_def kcp_wf_defs del: one_message_wf)
  then have k: "endpoint_ok k" "unat (ackcount k) < 2147483648" "rcv_queue k \<noteq> []"
    by (simp_all add: endpoint_ok_def segs_fit_def k_def one_message_def)
  define p where "p = \<lparr>tp_stop = False, tp_now = 5, tp_read = Read_closed, tp_time = 0, tp_open = True\<rparr>"
  have p: "tp_read p = Read_closed \<or> tp_read p = Read_error" "list_all idle_pass [p]" by (simp_all add: p_def idle_pass_def)
  let ?s = "sample_session\<lparr>ss_kcp := Some k\<rparr>"
  have "\<exists>k' out. tcp_server_pass (\<lambda>s i. i) (\<lambda>_. seg0) p k tcp_locals0 = Done (k', tcp_locals0, out, []) \<and> rcv_queue k' = rcv_queue k"
    and run: "run_tcp_server (\<lambda>s i. i) (\<lambda>_. seg0) 7 ?s [p] = Pending"
    using legacy_hazards [of k p "\<lambda>s i. i" "\<lambda>_. seg0" tcp_locals0 ?s 7 "[p]"] k(1,2) p by simp_all
  then obtain k' out where "tcp_server_pass (\<lambda>s i. i) (\<lambda>_. seg0) p k tcp_locals0 = Done (k', tcp_locals0, out, [])"
    "rcv_queue k' = rcv_queue k" by blast
  then show ?thesis using k(3) run unfolding p_def
    by (intro exI [of _ k] exI [of _ ?s] exI [of _ k'] exI [of _ out] conjI) simp_all
qed

end
