(* ===== verification/Stream_Reads.thy ===== *)
theory Stream_Reads
  imports Kcp_Round File_Session
begin

text \<open>
  The protocol expects whole datagrams, and the server reads a byte stream: a read of up to 2048 bytes may hold
  several datagrams, which \<open>ikcp_input\<close> accepts, and may end inside of one, which is what this theory is about.
\<close>

lemma input_other_conv:
  assumes "24 \<le> length b" and "length b < 2147483648" and "ikcp_getconv b \<noteq> Some (conv k)"
  shows "ikcp_input junk k (Some (b @ past)) (int (length b)) = Some (-1, k)"
proof -
  have "4 \<le> length b" using assms(1) by simp
  then obtain c where c: "ikcp_decode32u b = Some (c, drop 4 b)" using f32.dec_at [of 0 b] by auto
  then have "c \<noteq> conv k" using assms(3) by (simp add: ikcp_getconv_def)
  moreover have "b @ past = ikcp_encode32u [] c @ (drop 4 b @ past)" using f32.enc_dec [OF c] by simp
  then have "ikcp_decode32u (b @ past) = Some (c, drop 4 b @ past)" using f32.dec_enc_nil by metis
  ultimately have "ikcp_input_loop junk k a (b @ past) (int (length b)) = Some (-1, k, a)" for a
    using assms(1) by (subst ikcp_input_loop.simps) simp
  then show ?thesis using assms(1,2) by (simp add: ikcp_input_def s32_id kcp_defs)
qed

text \<open>
  C38: A read that ends inside of a datagram. Suppose the bytes read hold whole segments, the one the session
  waits for among them, and end inside of the data of another. The control block takes the data, but the call
  reports an error: the session writes plain text to the connection, which is no datagram, and does not look for
  a message, although one may be complete. The next read starts with the rest of the cut segment; unless its first
  four bytes happen to be the number of the conversation, all of that read is thrown away, with every whole
  segment in it, and plain text is written again.
\<close>

theorem cut_reads:
  assumes k: "ss_kcp s = Some k" "awaits x k"
    and g: "g = pre @ x # post" "list_all (control_seg (conv k)) pre" "\<forall>y \<in> set g. proper_seg k y \<and> seg_ok y"
    and t: "proper_seg k t" "seg_ok t" "24 \<le> n" "n < length (packed t)"
    and len: "length (packet g) + n \<le> 2048" "unat (ackcount k) + length g \<le> 2147483648"
    and b: "24 \<le> length b" "length b \<le> 2048" "ikcp_getconv b \<noteq> Some (conv k)"
  shows "\<exists>k'. taken x k k' \<and>
    session_epollin pid open_ok junk junk_in cnt s sent (Read_data (packet g @ take n (packed t)) # Read_data b # evs) =
    session_epollin pid open_ok junk junk_in cnt (s\<lparr>ss_kcp := Some k'\<rparr>) (sent @ [send_finish, send_finish]) evs"
proof -
  have wf: "kcp_wf k" using k(2) by (simp add: awaits_def)
  have arr: "arrives x k k (g @ [])" using k(2) g(1,2) by (auto simp: arrives_def)
  let ?a = "packet g @ take n (packed t)"
  have la: "length ?a = length (packet g) + n" using t(4) by simp
  have "\<exists>k'. ikcp_input junk_in k (Some (packet g @ take n (packed t) @ replicate (2058 - length ?a) 0)) (int (length (packet g) + n)) =
      Some (-2, k') \<and> arrives x k k' [] \<and> kcp_wf k'"
    using len by (intro receiver.input_cut [OF arr wf g(3) _ t]) simp_all
  then obtain k' where k': "ikcp_input junk_in k (Some (?a @ replicate (2058 - length ?a) 0)) (int (length ?a)) = Some (-2, k')"
    "arrives x k k' []" unfolding la by auto
  have "conv k' = conv k" using shrunk_input [OF k'(1)] by (simp add: shrunk_def)
  then have "ikcp_input junk_in k' (Some (b @ replicate (2058 - length b) 0)) (int (length b)) = Some (-1, k')"
    using b by (intro input_other_conv) simp_all
  moreover have "taken x k k'" using k'(2) by (simp add: arrives_def)
  ultimately show ?thesis using k(1) k'(1) by (intro exI [of _ k']) simp
qed

text \<open>Two segments of two and three bytes in a row, of which the first 51 bytes are read.\<close>

definition push0 :: ikcpseg where
  "push0 = seg0\<lparr>seg_conv := 7, seg_cmd := 81, seg_len := 2, seg_data := [1, 2]\<rparr>"

definition push1 :: ikcpseg where
  "push1 = seg0\<lparr>seg_conv := 7, seg_cmd := 81, seg_sn := 1, seg_len := 3, seg_data := [3, 4, 5]\<rparr>"

theorem cut_reads_witness:
  "\<exists>k'. taken push0 idle0 k' \<and>
    session_epollin 1 True (\<lambda>_. seg0) (\<lambda>_. seg0) 0 (sample_session\<lparr>ss_kcp := Some idle0\<rparr>) []
      [Read_data (packet [push0] @ take 25 (packed push1)), Read_data (255 # 255 # 255 # 255 # replicate 26 0), Read_error] =
    Some (Done (sample_session\<lparr>ss_kcp := Some k'\<rparr>, 0, [send_finish, send_finish]))"
proof -
  let ?s = "sample_session\<lparr>ss_kcp := Some idle0\<rparr>"
  have wf: "kcp_wf idle0" using idle0_endpoint by (simp add: endpoint_ok_def)
  have aw: "awaits push0 idle0"
    using wf idle0_endpoint by (simp add: awaits_def push0_def idle0_def kcp_defs seg0_def)
  have g: "\<forall>y \<in> set [push0]. proper_seg idle0 y \<and> seg_ok y" "proper_seg idle0 push1" "seg_ok push1"
    by (simp_all add: proper_seg_def seg_ok_def push0_def push1_def idle0_def kcp_defs seg0_def)
  have len: "length (packet [push0]) = 26" "length (packed push1) = 27"
    by (simp_all add: packet_def length_packed push0_def push1_def)
  have conv: "ikcp_getconv (255 # 255 # 255 # 255 # replicate 26 0) \<noteq> Some (conv idle0)"
    by (simp add: ikcp_getconv_def idle0_def Let_def)
  have "\<exists>k'. taken push0 idle0 k' \<and>
    session_epollin 1 True (\<lambda>_. seg0) (\<lambda>_. seg0) 0 ?s [] (Read_data (packet [push0] @ take 25 (packed push1)) # Read_data (255 # 255 # 255 # 255 # replicate 26 0) # [Read_error]) =
    session_epollin 1 True (\<lambda>_. seg0) (\<lambda>_. seg0) 0 (?s\<lparr>ss_kcp := Some k'\<rparr>) ([] @ [send_finish, send_finish]) [Read_error]"
    by (rule cut_reads [of ?s idle0 push0 "[push0]" "[]" "[]" push1 25 "255 # 255 # 255 # 255 # replicate 26 0"])
      (use aw g len conv in \<open>simp_all add: idle0_def\<close>)
  then show ?thesis by simp
qed

end
