(* ===== verification/File_Delivery.thy ===== *)
theory File_Delivery
  imports File_Session Kcp_Transfer
begin

text \<open>
  The whole path of a file: the client's messages are the bytes that its control block accepts, the
  network carries them, and the server's session takes what its control block hands over.
\<close>

section \<open>A session that takes a prefix of the stream\<close>

text \<open>A session that has written the first \<open>d\<close> bytes of the contents, or all of them.\<close>

definition writing :: "bytes \<Rightarrow> nat \<Rightarrow> session \<Rightarrow> bool" where
  "writing contents d s \<longleftrightarrow> ss_read_file s \<and> d \<le> length contents \<and>
     (if ss_open s then ss_data s = take d contents \<and> ss_file_sended s = of_nat d \<and> ss_file_size s = of_nat (length contents)
      else ss_data s = contents)"

lemma message_writing:
  assumes w: "writing contents d s" and size: "length contents < 4294967296"
    and m: "m \<noteq> []" "drop d contents = m @ rest" and r: "session_message pid open_ok junk cnt s m = Done (s', cnt')"
  shows "writing contents (d + length m) s'"
proof (cases "ss_open s")
  case False
  then show ?thesis
    using w m r by (auto simp: writing_def session_message_def Let_def file_write_def split: if_splits option.splits)
      (metis add_leD1 length_append length_drop le_diff_conv2 le_add1 add.commute)+
next
  case True
  let ?n = "length contents"
  have "length (drop d contents) = length m + length rest" using m(2) by simp
  then have d: "d + length m \<le> ?n" using w by (auto simp: writing_def)
  have dat: "take (d + length m) contents = take d contents @ m" using m(2) by (simp add: take_add)
  have u: "unat (of_nat (d + length m) :: u32) = d + length m" "unat (of_nat ?n :: u32) = ?n"
    using d size by (simp_all only: unat_of_nat_u32 le_less_trans)
  have "(of_nat ?n :: u32) \<le> of_nat (d + length m) \<longleftrightarrow> ?n \<le> d + length m"
    by (simp only: word_le_nat_alt u)
  then show ?thesis
    using w True d dat r
    by (auto simp: writing_def session_message_def Let_def file_write_def split: if_splits option.splits)
qed

lemma take_writing:
  assumes "writing contents d s" and "length contents < 4294967296" and "\<forall>m \<in> set ms. m \<noteq> []"
    and "drop d contents = concat ms @ rest" and "session_take pid open_ok junk cnt s ms = Done (s', cnt')"
  shows "writing contents (d + length (concat ms)) s'"
  using assms
proof (induction ms arbitrary: d s cnt)
  case Nil
  then show ?case by simp
next
  case (Cons m ms)
  from Cons.prems(5) obtain s1 cnt1 where m: "session_message pid open_ok junk cnt s m = Done (s1, cnt1)"
    and r: "session_take pid open_ok junk cnt1 s1 ms = Done (s', cnt')"
    by (auto split: run.splits)
  have d: "drop d contents = m @ concat ms @ rest" using Cons.prems(4) by simp
  have "drop (d + length m) contents = drop (length m) (drop d contents)" by (simp add: add.commute)
  then have d': "drop (d + length m) contents = concat ms @ rest" unfolding d by simp
  have "m \<noteq> []" using Cons.prems(3) by simp
  from message_writing [OF Cons.prems(1,2) this d m] have "writing contents (d + length m) s1" .
  from Cons.IH [OF this Cons.prems(2) _ d' r] Cons.prems(3) show ?case by (simp add: add.assoc)
qed

text \<open>The first message holds the header and perhaps the first bytes of the contents.\<close>

lemma header_writing:
  assumes h: "length h = 132" and size: "length contents < 4294967296"
    and s: "\<not> ss_read_file s" "ss_file_sended s = 0"
    and m: "(store32 (htonl (of_nat (length contents))) @ h) @ contents = m @ rest"
    and r: "session_message pid True junk cnt s m = Done (s', cnt')"
  shows "136 \<le> length m \<and> writing contents (length m - 136) s' \<and> drop (length m - 136) contents = rest"
proof -
  let ?temp = "store32 (htonl (of_nat (length contents))) @ h"
  have l: "length ?temp = 136" using h by (simp add: store32_def)
  have len: "136 \<le> length m" using r s(1) by (auto simp: session_message_def split: if_splits)
  then have "take 136 (?temp @ contents) = take 136 m" "drop 136 (?temp @ contents) = drop 136 m @ rest"
    unfolding m by simp_all
  then have t: "?temp = take 136 m" and c: "contents = drop 136 m @ rest" using l by simp_all
  have "m = ?temp @ drop 136 m" unfolding t by simp
  moreover have "mem32 (store32 x @ y) 0 = x" for x y by (simp add: mem32_def store32_def)
  ultimately have n: "ntohl (mem32 m 0) = of_nat (length contents)" by (metis append.assoc htonl_htonl)
  have "length (drop 136 m) \<le> length contents" "take (length (drop 136 m)) contents = drop 136 m" "drop (length (drop 136 m)) contents = rest"
    using arg_cong [OF c, of length] arg_cong [OF c, of "take (length (drop 136 m))"] arg_cong [OF c, of "drop (length (drop 136 m))"]
    by simp_all
  then show ?thesis
    using r s len n by (auto simp: session_message_def writing_def Let_def file_write_def split: if_splits)
qed

lemma session_delivers:
  assumes msgs: "send_file_messages path contents = Some msgs" and size: "length contents < 4294967296"
    and s: "\<not> ss_read_file s" "ss_file_sended s = 0" "ss_data s = []"
    and ms: "\<forall>m \<in> set ms. m \<noteq> []" "concat msgs = concat ms @ rest"
    and r: "session_take pid True junk cnt s ms = Done (s', cnt')"
  shows "(\<exists>rest. contents = ss_data s' @ rest) \<and> (ss_read_file s' \<and> \<not> ss_open s' \<longrightarrow> ss_data s' = contents)"
proof -
  let ?n = "length contents" and ?name = "base_name path"
  have n: "unat (of_nat ?n :: u32) = ?n" using size by (rule unat_of_nat_u32)
  obtain temp where t: "send_file_header (of_nat ?n) ?name = Some temp" "msgs = temp # send_file_chunks contents ?n 0"
    using msgs n by (auto simp: send_file_messages_def Let_def split: option.splits)
  then have name: "length ?name \<le> 132" by (auto simp: send_file_header_def Let_def memcpy_at_def store32_def split: if_splits)
  let ?h = "?name @ replicate (132 - length ?name) 0"
  have all: "concat msgs = (store32 (htonl (of_nat ?n)) @ ?h) @ contents"
    using t send_file_header_spec [OF name] chunks_concat [of ?n contents 0] by simp
  show ?thesis
  proof (cases ms)
    case Nil
    then show ?thesis using r s by simp
  next
    case (Cons m ms')
    with r obtain s1 cnt1 where m: "session_message pid True junk cnt s m = Done (s1, cnt1)"
      and r': "session_take pid True junk cnt1 s1 ms' = Done (s', cnt')"
      by (auto split: run.splits)
    have "(store32 (htonl (of_nat ?n)) @ ?h) @ contents = m @ (concat ms' @ rest)" using ms(2) all Cons by simp
    from header_writing [OF _ size s(1,2) this m] name
    have "writing contents (length m - 136) s1" "drop (length m - 136) contents = concat ms' @ rest" by auto
    from take_writing [OF this(1) size _ this(2) r'] ms(1) Cons
    have w: "writing contents (length m - 136 + length (concat ms')) s'" by simp
    then have "ss_data s' = take (length m - 136 + length (concat ms')) contents \<or> ss_data s' = contents"
      by (auto simp: writing_def split: if_splits)
    then have "\<exists>rest. contents = ss_data s' @ rest"
      by (metis append_Nil2 append_take_drop_id)
    then show ?thesis using w by (auto simp: writing_def split: if_splits)
  qed
qed

section \<open>Delivery of a file\<close>

lemma concat_nonempty: "concat (filter (\<lambda>m. m \<noteq> []) ms) = concat ms"
  by (induction ms) auto

text \<open>
  C2: What the server writes is the file. The client hands the messages of a file to its control block, one
  after the other or in pieces of them, and the network loses, repeats, reorders and joins its
  datagrams in any way. Whatever the session has written when it has taken all messages that its control
  block handed over is a prefix of the contents of the file, and once the session has closed the file it is
  the whole file.
\<close>

theorem file_delivery:
  assumes msgs: "send_file_messages path contents = Some msgs" and size: "length contents < 4294967296"
    and start: "ikcp_create True True c = Some a" "ikcp_create True True c = Some b"
    and run: "list_all link_ok acts" "run_steps link_step acts (link_start a b) = Some l" "length (seg_log l) < 4294967296"
    and sent: "concat msgs = accepted l @ unsent"
    and s: "\<not> ss_read_file s" "ss_file_sended s = 0" "ss_data s = []"
    and taken: "session_take pid True junk cnt s (filter (\<lambda>m. m \<noteq> []) (delivered l)) = Done (s', cnt')"
  shows "(\<exists>rest. contents = ss_data s' @ rest) \<and> (ss_read_file s' \<and> \<not> ss_open s' \<longrightarrow> ss_data s' = contents)"
proof -
  obtain rest where "accepted l = concat (delivered l) @ rest" using transfer_prefix [OF start run] by blast
  then have "concat msgs = concat (filter (\<lambda>m. m \<noteq> []) (delivered l)) @ (rest @ unsent)"
    using sent by (simp add: concat_nonempty)
  from session_delivers [OF msgs size s _ this taken] show ?thesis by simp
qed

text \<open>A file of three bytes that arrives: the client's settings, two messages, one datagram, two receives.\<close>

definition short_file :: "bytes list" where
  "short_file = [[0, 0, 0, 3, 110] @ replicate 131 0, [1, 2, 3]]"

lemma short_file_messages: "send_file_messages [47, 110] [1, 2, 3] = Some short_file"
proof -
  have "base_name [47, 110] = [110]" by (simp add: base_name_def)
  moreover have "store32 (htonl 3) = [0, 0, 0, 3]" by (simp add: htonl_def load32_def store32_def)
  ultimately show ?thesis
    using send_file_header_spec [of "[110]" 3]
    by (simp add: send_file_messages_def short_file_def send_file_chunks.simps BUFFER_SIZE_def Let_def)
qed

definition file_exchange :: "link_act list" where
  "file_exchange = [Snd_other (Call_setoutput True), Snd_other (Call_nodelay 1 10 2 1),
     Snd_send (\<lambda>_. seg0) (hd short_file), Snd_send (\<lambda>_. seg0) [1, 2, 3], Snd_update 0,
     Rcv_input (\<lambda>_. seg0) [0] [], Rcv_recv 1000, Rcv_recv 1000]"

lemma file_exchange_runs:
  "map_option (\<lambda>l. (accepted l, delivered l, length (seg_log l))) (run_steps link_step file_exchange (link_start kcp0 kcp0)) =
     Some (concat short_file, short_file, 2)"
  unfolding file_exchange_def short_file_def
  by (code_simp, simp add: ikcp_input_loop.simps ikcp_ack_newblock.simps ikcp_input_seg_def ikcp_input_push_def
      ikcp_parse_una_def ikcp_shrink_buf_def ikcp_ack_push_def ikcp_input_newseg_def ikcp_segment_new_def
      ikcp_parse_data_def ikcp_move_ready.simps itimediff_def memcpy_at_def ikcp_input_cwnd_def ikcp_recv_def
      ikcp_peeksize_def s32_def to_u32_def kcp_defs seg0_def Let_def
      ikcp_decode_hdr_def)

lemma take_read_file:
  "session_take pid open_ok junk cnt s ms = Done (s', cnt') \<Longrightarrow> ms \<noteq> [] \<or> ss_read_file s \<Longrightarrow> ss_read_file s'"
proof (induction ms arbitrary: s cnt)
  case Nil
  then show ?case by simp
next
  case (Cons m ms)
  from Cons.prems(1) obtain s1 cnt1 where m: "session_message pid open_ok junk cnt s m = Done (s1, cnt1)"
    and r: "session_take pid open_ok junk cnt1 s1 ms = Done (s', cnt')"
    by (auto split: run.splits)
  have "ss_read_file s1" using m
    by (auto simp: session_message_def Let_def file_write_def split: if_splits option.splits)
  then show ?case using Cons.IH [OF r] by simp
qed

theorem file_delivery_witness:
  "\<exists>l s'. run_steps link_step file_exchange (link_start kcp0 kcp0) = Some l \<and>
     session_take 7 True (\<lambda>_. seg0) 0 sample_session (filter (\<lambda>m. m \<noteq> []) (delivered l)) = Done (s', 1) \<and>
     \<not> ss_open s' \<and> ss_data s' = [1, 2, 3]"
proof -
  obtain l where l: "run_steps link_step file_exchange (link_start kcp0 kcp0) = Some l" "delivered l = short_file"
    "accepted l = concat short_file" "length (seg_log l) = 2"
    using file_exchange_runs by (cases "run_steps link_step file_exchange (link_start kcp0 kcp0)") auto
  have ok: "list_all link_ok file_exchange" by (simp add: file_exchange_def short_file_def)
  obtain k where k: "ss_kcp sample_session = Some k" "kcp_wf k" "stream k = 0" using sample_kcp by blast
  have f: "filter (\<lambda>m. m \<noteq> []) (delivered l) = short_file" by (simp add: l short_file_def)
  have fresh: "\<not> ss_read_file sample_session" "ss_file_sended sample_session = 0" "ss_data sample_session = []"
    using sample_session_values by simp_all
  from file_arrives [OF short_file_messages _ _ fresh(1,2) k, of 7 "\<lambda>_. seg0" 0]
  obtain s' where s': "session_take 7 True (\<lambda>_. seg0) 0 sample_session short_file = Done (s', 1)"
    "\<not> ss_open s'" by auto
  moreover have "ss_read_file s'" using take_read_file [OF s'(1)] by (simp add: short_file_def)
  moreover have "ss_read_file s' \<and> \<not> ss_open s' \<longrightarrow> ss_data s' = [1, 2, 3]"
    using file_delivery [OF short_file_messages _ kcp0_create kcp0_create ok l(1) _ _ fresh, of "[]" 7 "\<lambda>_. seg0" 0 s' 1]
      l s' f by simp
  ultimately show ?thesis using l s' f by auto
qed

end
