(* ===== verification/Client_Threads.thy ===== *)
theory Client_Threads
  imports File_Delivery File_Client Kcp_Endpoint
begin

text \<open>
  The threads of the client: \<^verbatim>\<open>send_file\<close> runs in the caller's thread and starts two more, \<^verbatim>\<open>client_loop\<close>, which
  updates the control block, and \<^verbatim>\<open>run_tcp_client\<close>, which receives. The functions of \<open>File_Client\<close> describe each of
  them alone; here every section that holds \<^verbatim>\<open>kcp_mutex\<close> and every access to a shared flag is one step, and the
  steps of the three threads interleave in any way.
\<close>

section \<open>Where the threads are\<close>

datatype upd_pc = U_none | U_test | U_run | U_done

datatype rcv_pc =
    R_none
  | R_test
  | R_update
  | R_select
  | R_input int
  | R_recv int
  | R_end
  | R_done

text \<open>The flag of the places inside of \<^verbatim>\<open>Close\<close> tells that the destructor has called it.\<close>

datatype main_pc =
    M_start
  | M_open
  | M_put "bytes list"
  | M_wait1
  | M_wait2
  | M_stop
  | M_wait3
  | M_finish
  | M_close bool
  | M_closing bool
  | M_release bool
  | M_done
  | M_deleted

text \<open>
  \<open>ct_buf\<close> is the buffer of the receive loop, \<open>ct_sent\<close> the packets written to the socket, \<open>ct_put\<close> the messages that
  have been given to the control block.
\<close>

record client_threads =
  ct_client :: kcp_client
  ct_upd :: upd_pc
  ct_rcv :: rcv_pc
  ct_main :: main_pc
  ct_buf :: bytes
  ct_sent :: "bytes list"
  ct_put :: "bytes list"

definition threads_start :: "kcp_client \<Rightarrow> client_threads" where
  "threads_start c =
     \<lparr>ct_client = c, ct_upd = U_none, ct_rcv = R_none, ct_main = M_start, ct_buf = replicate 1034 0, ct_sent = [], ct_put = []\<rparr>"

section \<open>The update thread\<close>

text \<open>\<^const>\<open>Pending\<close>: the thread has no step to make. A thread that goes on after the object is deleted reads freed memory.\<close>

definition client_loop :: "u32 \<Rightarrow> send_ev list list \<Rightarrow> client_threads \<Rightarrow> client_threads run" where
  "client_loop now evss s =
     (let c = ct_client s
      in if ct_upd s = U_none \<or> ct_upd s = U_done then Pending
         else if ct_main s = M_deleted then Abort
         else if ct_upd s = U_test then Done (s\<lparr>ct_upd := (if stopFlag c then U_done else U_run)\<rparr>)
         else (case client_update c now evss of
                 Pending \<Rightarrow> Pending
               | Abort \<Rightarrow> Abort
               | Done (c, out) \<Rightarrow> Done (s\<lparr>ct_client := c, ct_sent := ct_sent s @ out, ct_upd := U_test\<rparr>)))"

section \<open>The receive thread\<close>

text \<open>After \<^verbatim>\<open>recvfrom\<close> has returned \<open>len\<close> and filled the buffer, up to the lock around \<^verbatim>\<open>ikcp_input\<close>.\<close>

definition rcv_packet :: "bytes \<Rightarrow> int \<Rightarrow> client_threads \<Rightarrow> client_threads run" where
  "rcv_packet buf len s =
     (case prase_tcp_packet buf of
        None \<Rightarrow> Abort
      | Some info \<Rightarrow>
          let c = ct_client s;
              s = s\<lparr>ct_buf := buf\<rparr>
          in if uint (ti_port_dst info) \<noteq> c_port c then Done (s\<lparr>ct_rcv := R_test\<rparr>)
             else
               let s = s\<lparr>ct_client := c\<lparr>server_ack_seq := ti_seq info + word_of_int (len - 40)\<rparr>\<rparr>
               in Done (s\<lparr>ct_rcv := (if len - 40 = 0 then R_test else R_input len)\<rparr>))"

definition rcv_input :: "(int \<Rightarrow> ikcpseg) \<Rightarrow> int \<Rightarrow> client_threads \<Rightarrow> client_threads run" where
  "rcv_input junk len s =
     (let c = ct_client s
      in case m_kcp c of
        None \<Rightarrow> Abort
      | Some k \<Rightarrow>
          (case ikcp_input junk k (Some (drop 40 (ct_buf s))) (len - 40) of
             None \<Rightarrow> Abort
           | Some (ret, k) \<Rightarrow>
               let s = s\<lparr>ct_client := c\<lparr>m_kcp := Some k\<rparr>\<rparr>
               in if ret < 0 then
                    (case prase_tcp_packet (ct_buf s) of
                       None \<Rightarrow> Abort
                     | Some info \<Rightarrow> Done (s\<lparr>ct_rcv := (if ti_fin info then R_end else R_test)\<rparr>))
                  else Done (s\<lparr>ct_rcv := R_recv (len - 40)\<rparr>)))"

definition rcv_recv :: "int \<Rightarrow> client_threads \<Rightarrow> client_threads run" where
  "rcv_recv data_size s =
     (let c = ct_client s
      in case m_kcp c of
        None \<Rightarrow> Abort
      | Some k \<Rightarrow>
          (case ikcp_recv k True data_size of
             None \<Rightarrow> Abort
           | Some (ret, out, k) \<Rightarrow>
               let c = c\<lparr>m_kcp := Some k\<rparr>
               in if ret > 0 then
                    (let c = (if c_string (out @ replicate (1034 - length out) 0) = finish_message then c\<lparr>finishSend := True\<rparr> else c)
                     in Done (s\<lparr>ct_client := c\<rparr>))
                  else Done (s\<lparr>ct_client := c, ct_rcv := R_test\<rparr>)))"

text \<open>The whole thread; \<open>ev\<close> is what \<^verbatim>\<open>select\<close> and \<^verbatim>\<open>recvfrom\<close> bring.\<close>

definition rcv_thread ::
  "(int \<Rightarrow> ikcpseg) \<Rightarrow> u32 \<Rightarrow> send_ev list list \<Rightarrow> net_ev \<Rightarrow> client_threads \<Rightarrow> client_threads run" where
  "rcv_thread junk now evss ev s =
     (let c = ct_client s
      in if ct_rcv s = R_none \<or> ct_rcv s = R_done then Pending
         else if ct_main s = M_deleted then Abort
         else case ct_rcv s of
           R_test \<Rightarrow> Done (s\<lparr>ct_rcv := (if stopFlag c then R_end else R_update)\<rparr>)
         | R_update \<Rightarrow>
             (case client_update c now evss of
                Pending \<Rightarrow> Pending
              | Abort \<Rightarrow> Abort
              | Done (c, out) \<Rightarrow> Done (s\<lparr>ct_client := c, ct_sent := ct_sent s @ out, ct_rcv := R_select\<rparr>))
         | R_select \<Rightarrow>
             (case ev of
                Ev_packet p late \<Rightarrow> rcv_packet (recv_into (ct_buf s) (take 1024 p)) (int (length (take 1024 p))) s
              | Ev_recv_error \<Rightarrow> rcv_packet (ct_buf s) (-1) s
              | _ \<Rightarrow> Done (s\<lparr>ct_rcv := R_test\<rparr>))
         | R_input len \<Rightarrow> rcv_input junk len s
         | R_recv data_size \<Rightarrow> rcv_recv data_size s
         | _ \<Rightarrow> Done (s\<lparr>ct_client := c\<lparr>finish_loop := True\<rparr>, ct_rcv := R_done\<rparr>))"

section \<open>The caller's thread\<close>

text \<open>
  \<^verbatim>\<open>Close\<close>; \<open>late\<close> tells that its three seconds are over. The block is released without the mutex. The destructor
  calls \<^verbatim>\<open>Close\<close> and then frees the object.
\<close>

definition close_end :: "bool \<Rightarrow> main_pc" where
  "close_end del = (if del then M_deleted else M_done)"

definition main_close :: "bool \<Rightarrow> client_threads \<Rightarrow> client_threads" where
  "main_close del s =
     (let c = ct_client s
      in if m_kcp c = None then s\<lparr>ct_main := close_end del\<rparr>
         else s\<lparr>ct_client := c\<lparr>stopFlag := True\<rparr>, ct_main := M_closing del\<rparr>)"

definition main_closing :: "bool \<Rightarrow> bool \<Rightarrow> client_threads \<Rightarrow> client_threads" where
  "main_closing late del s =
     (if finish_loop (ct_client s) then s\<lparr>ct_main := M_release del\<rparr>
      else if late then s\<lparr>ct_main := close_end del\<rparr>
      else s)"

definition main_release :: "bool \<Rightarrow> client_threads \<Rightarrow> client_threads" where
  "main_release del s = s\<lparr>ct_client := (ct_client s)\<lparr>m_kcp := None\<rparr>, ct_main := close_end del\<rparr>"

text \<open>The file is opened and its messages are made; then they are sent one by one.\<close>

definition main_open :: "bytes \<Rightarrow> bytes option \<Rightarrow> client_threads \<Rightarrow> client_threads run" where
  "main_open path contents s =
     (case contents of
        None \<Rightarrow> Done (s\<lparr>ct_main := M_close False\<rparr>)
      | Some contents \<Rightarrow>
          (case send_file_messages path contents of
             None \<Rightarrow> Abort
           | Some msgs \<Rightarrow> Done (s\<lparr>ct_main := M_put msgs\<rparr>)))"

definition main_put :: "(nat \<Rightarrow> ikcpseg) \<Rightarrow> bytes list \<Rightarrow> client_threads \<Rightarrow> client_threads run" where
  "main_put junk msgs s =
     (case msgs of
        [] \<Rightarrow> Done (s\<lparr>ct_main := M_wait1\<rparr>)
      | b # msgs \<Rightarrow>
          (case m_kcp (ct_client s) of
             None \<Rightarrow> Abort
           | Some k \<Rightarrow>
               (case ikcp_send junk k (Some b) (int (length b)) of
                  None \<Rightarrow> Abort
                | Some (_, k) \<Rightarrow>
                    Done (s\<lparr>ct_client := (ct_client s)\<lparr>m_kcp := Some k\<rparr>, ct_put := ct_put s @ [b], ct_main := M_put msgs\<rparr>))))"

definition main_thread ::
  "bytes \<Rightarrow> bytes option \<Rightarrow> (nat \<Rightarrow> ikcpseg) \<Rightarrow> bool \<Rightarrow> ((bool \<times> net_ev list) \<times> bool) list \<Rightarrow> client_threads \<Rightarrow> client_threads run" where
  "main_thread path contents junk late ins s =
     (let c = ct_client s
      in case ct_main s of
        M_start \<Rightarrow>
          (if s_state c \<noteq> TCP_ESTABLISHED then Abort
           else case kcp_client_start c of
             Pending \<Rightarrow> Pending
           | Abort \<Rightarrow> Abort
           | Done c \<Rightarrow> Done (s\<lparr>ct_client := c, ct_upd := U_test, ct_rcv := R_test, ct_main := M_open\<rparr>))
      | M_open \<Rightarrow> main_open path contents s
      | M_put msgs \<Rightarrow> main_put junk msgs s
      | M_wait1 \<Rightarrow> Done (if finishSend c then s\<lparr>ct_main := M_wait2\<rparr> else if late then s\<lparr>ct_main := M_close False\<rparr> else s)
      | M_wait2 \<Rightarrow>
          (case m_kcp c of
             None \<Rightarrow> Abort
           | Some k \<Rightarrow>
               Done (if ikcp_waitsnd k = 0 then s\<lparr>ct_main := M_stop\<rparr> else if late then s\<lparr>ct_main := M_done\<rparr> else s))
      | M_stop \<Rightarrow> Done (s\<lparr>ct_client := c\<lparr>stopFlag := True\<rparr>, ct_main := M_wait3\<rparr>)
      | M_wait3 \<Rightarrow> Done (if finish_loop c then s\<lparr>ct_main := M_finish\<rparr> else if late then s\<lparr>ct_main := M_done\<rparr> else s)
      | M_finish \<Rightarrow>
          (case finish c [] ins of
             Pending \<Rightarrow> Pending
           | Abort \<Rightarrow> Abort
           | Done (c, out) \<Rightarrow> Done (s\<lparr>ct_client := c, ct_sent := ct_sent s @ out, ct_main := M_done\<rparr>))
      | M_close del \<Rightarrow> Done (main_close del s)
      | M_closing del \<Rightarrow> Done (main_closing late del s)
      | M_release del \<Rightarrow> Done (main_release del s)
      | M_done \<Rightarrow> Done (s\<lparr>ct_main := M_close True\<rparr>)
      | M_deleted \<Rightarrow> Pending)"

section \<open>Interleaving\<close>

inductive threads_reach :: "bytes \<Rightarrow> bytes option \<Rightarrow> client_threads \<Rightarrow> client_threads \<Rightarrow> bool"
  for path contents s0 where
  reach_start: "threads_reach path contents s0 s0"
| reach_update: "threads_reach path contents s0 s \<Longrightarrow> client_loop now evss s = Done t \<Longrightarrow> threads_reach path contents s0 t"
| reach_receive: "threads_reach path contents s0 s \<Longrightarrow> rcv_thread junk now evss ev s = Done t \<Longrightarrow> threads_reach path contents s0 t"
| reach_main: "threads_reach path contents s0 s \<Longrightarrow> main_thread path contents junk late ins s = Done t \<Longrightarrow> threads_reach path contents s0 t"

section \<open>What is left to be acknowledged\<close>

definition backlog :: "kcpcb \<Rightarrow> nat" where
  "backlog k = length (snd_buf k) + length (snd_queue k)"

lemma length_ids: "kcp_wf k \<Longrightarrow> card (seg_id ` set (snd_buf k)) = length (snd_buf k)"
proof -
  assume "kcp_wf k"
  then have "distinct (map seg_sn (snd_buf k))"
    using window_sorted_distinct by (auto simp: kcp_wf_def snd_core_def)
  then have "distinct (map fst (map seg_id (snd_buf k)))" by (simp add: seg_id_def comp_def)
  then have "distinct (map seg_id (snd_buf k))" by (simp only: distinct_map)
  then show ?thesis by (metis distinct_card length_map list.set_map)
qed

lemma backlog_shrunk: "kcp_wf k \<Longrightarrow> kcp_wf k' \<Longrightarrow> shrunk k k' \<Longrightarrow> backlog k' \<le> backlog k"
  using card_mono [of "seg_id ` set (snd_buf k)" "seg_id ` set (snd_buf k')"] length_ids [of k] length_ids [of k']
  by (simp add: backlog_def shrunk_def)

lemma backlog_flush:
  assumes "kcp_wf k" and "ikcp_flush k = Inr (k', ps)"
  shows "backlog k' = backlog k"
proof -
  obtain n news where n: "n \<le> length (snd_queue k)" "snd_queue k' = drop n (snd_queue k)"
    "map seg_id (snd_buf k') = map seg_id (snd_buf k) @ news" "length news = n"
    using flush_groups [OF assms] by auto
  then have "length (snd_buf k') = length (snd_buf k) + n" by (metis length_append length_map)
  then show ?thesis using n by (simp add: backlog_def)
qed

lemma backlog_update:
  assumes "endpoint_ok k" and "ikcp_update k now = Inr (k', ps)"
  shows "backlog k' = backlog k"
  using assms(2)
proof (cases rule: update_cases)
  case (1 u t)
  then show ?thesis using backlog_flush [of "k\<lparr>current := now, updated := u, ts_flush := t\<rparr>"] endpoint_clock [OF assms(1)]
    by (auto simp: endpoint_ok_def backlog_def)
next
  case (2 u t)
  then show ?thesis by (simp add: backlog_def)
qed

text \<open>\<^verbatim>\<open>ikcp_waitsnd\<close> is 0 exactly when nothing is left.\<close>

lemma waitsnd_zero:
  assumes "kcp_wf k" and "backlog k < 4294967296"
  shows "ikcp_waitsnd k = 0 \<longleftrightarrow> backlog k = 0"
proof -
  have "nsnd_buf k + nsnd_que k = of_nat (backlog k)"
    using assms(1) by (simp add: kcp_wf_def snd_core_def backlog_def)
  then have "ikcp_waitsnd k = 0 \<longleftrightarrow> (of_nat (backlog k) :: u32) = 0" by (simp add: ikcp_waitsnd_def signed_eq_0_iff)
  also have "\<dots> \<longleftrightarrow> unat (of_nat (backlog k) :: u32) = 0" by (simp add: unat_eq_0)
  finally show ?thesis using assms(2) by (simp add: unat_of_nat_u32)
qed

lemma chunk_count: "1024 * length (send_file_chunks contents n t) \<le> n - t + 1023"
proof (induction contents n t rule: send_file_chunks.induct)
  case (1 contents n t)
  show ?case
  proof (cases "t < n")
    case True
    have nil: "send_file_chunks contents n n = []" by (subst send_file_chunks.simps) simp
    define s where "s = min (n - t) BUFFER_SIZE"
    have "1024 * length (send_file_chunks contents n (t + s)) \<le> n - (t + s) + 1023" by (rule 1 [OF True s_def refl])
    moreover have "length (send_file_chunks contents n (t + s)) = 0" if "n - t \<le> 1024"
      using that True nil by (simp add: s_def BUFFER_SIZE_def)
    ultimately have "1024 * (1 + length (send_file_chunks contents n (t + s))) \<le> n - t + 1023"
      using True by (cases "n - t \<le> 1024") (simp_all add: s_def BUFFER_SIZE_def)
    then show ?thesis using True by (subst send_file_chunks.simps) (simp add: s_def [symmetric] Let_def)
  qed (subst send_file_chunks.simps, simp)
qed

lemma message_count:
  assumes "send_file_messages path contents = Some msgs"
  shows "length msgs < 4294967296 \<and> (\<forall>b \<in> set msgs. length b \<le> 1024)"
proof -
  let ?n = "unat (of_nat (length contents) :: u32)"
  obtain temp where t: "send_file_header (of_nat (length contents)) (base_name path) = Some temp"
    "msgs = temp # send_file_chunks contents ?n 0"
    using assms by (auto simp: send_file_messages_def Let_def split: option.splits)
  have n: "?n < 4294967296" "?n \<le> length contents" by (simp_all add: unat_u32_less unat_of_nat)
  have "length temp = 136" using t(1) by (auto simp: send_file_header_def Let_def memcpy_at_def store32_def split: if_splits)
  then show ?thesis using t(2) n chunk_count [of contents ?n 0] chunks_sizes [of _ contents ?n 0] by auto
qed

section \<open>What a worker does to the client\<close>

text \<open>
  The client after a locked section, or after one of the stores of the receive thread: its control block is still an
  endpoint and has no more left than before; the flags and the state of the connection are the same, except that
  \<^verbatim>\<open>finishSend\<close> may have been set.
\<close>

definition worked :: "kcp_client \<Rightarrow> kcp_client \<Rightarrow> bool" where
  "worked c c' \<longleftrightarrow> s_state c' = s_state c \<and> stopFlag c' = stopFlag c \<and> finish_loop c' = finish_loop c \<and>
     (finishSend c \<longrightarrow> finishSend c') \<and>
     (case m_kcp c of
        None \<Rightarrow> m_kcp c' = None
      | Some k \<Rightarrow> \<exists>k'. m_kcp c' = Some k' \<and> (endpoint_ok k \<longrightarrow> endpoint_ok k' \<and> backlog k' \<le> backlog k))"

lemma worked_refl [simp]: "worked c c"
  by (simp add: worked_def split: option.splits)

lemma worked_trans: "worked c d \<Longrightarrow> worked d e \<Longrightarrow> worked c e"
  by (force simp: worked_def split: option.splits)

definition same_but_stream :: "kcp_client \<Rightarrow> kcp_client \<Rightarrow> bool" where
  "same_but_stream c c' \<longleftrightarrow> (\<exists>i n. c' = c\<lparr>ip_id := i, CLIENT_SUM_SEND := n\<rparr>)"

lemma same_stream_refl: "same_but_stream c c"
  by (auto simp: same_but_stream_def intro!: exI [of _ "ip_id c"] exI [of _ "CLIENT_SUM_SEND c"])

lemma same_stream_id: "same_but_stream c (c\<lparr>ip_id := i\<rparr>)"
  by (auto simp: same_but_stream_def intro!: exI [of _ i] exI [of _ "CLIENT_SUM_SEND c"])

lemma same_stream_upd: "same_but_stream (c\<lparr>ip_id := i\<rparr>) c' = same_but_stream c c'"
  "same_but_stream (c\<lparr>ip_id := i, CLIENT_SUM_SEND := n\<rparr>) c' = same_but_stream c c'"
  by (simp_all add: same_but_stream_def)

text \<open>One pass of the loop in the callback, for a length that the buffer has.\<close>

lemma cb_loop_step:
  assumes "len \<le> length buf" and "sended < len"
  obtains s p where "\<forall>ev evs. tcp_client_cb_loop c buf len sended sent (ev # evs) =
      (case ev of Select_fails \<Rightarrow> Done (0, c\<lparr>ip_id := ip_id c + 1\<rparr>, sent)
       | Not_writable \<Rightarrow> tcp_client_cb_loop (c\<lparr>ip_id := ip_id c + 1\<rparr>) buf len sended sent evs
       | Sendto ok \<Rightarrow> if \<not> ok then tcp_client_cb_loop (c\<lparr>ip_id := ip_id c + 1\<rparr>) buf len sended sent evs
           else tcp_client_cb_loop (c\<lparr>ip_id := ip_id c + 1, CLIENT_SUM_SEND := CLIENT_SUM_SEND c + of_nat s\<rparr>)
             buf len (sended + s) (sent @ [p]) evs)"
proof -
  define s where "s = (if len - sended > UDP_MTU then UDP_MTU else len - sended)"
  let ?c = "c\<lparr>ip_id := ip_id c + 1\<rparr>"
  have n: "s \<le> length buf" "sended + s \<le> length buf" using assms by (auto simp: s_def)
  obtain ic tc where h: "seal_headers (client_iphdr ?c s) (client_tcphdr ?c 1 1 0 0) buf s =
      Some (client_iphdr ?c s\<lparr>ip_check := ic\<rparr>, client_tcphdr ?c 1 1 0 0\<lparr>th_check := htons tc\<rparr>)"
    by (rule seal_headers_total [of "client_iphdr ?c s" s buf "client_tcphdr ?c 1 1 0 0"])
      (simp_all add: client_iphdr_def n(1))
  define p where "p = iphdr_bytes (client_iphdr ?c s\<lparr>ip_check := ic\<rparr>) @
      tcphdr_bytes (client_tcphdr ?c 1 1 0 0\<lparr>th_check := htons tc\<rparr>) @ take s (drop sended buf)"
  have "tcp_client_cb_loop c buf len sended sent (ev # evs) =
      (case ev of Select_fails \<Rightarrow> Done (0, c\<lparr>ip_id := ip_id c + 1\<rparr>, sent)
       | Not_writable \<Rightarrow> tcp_client_cb_loop (c\<lparr>ip_id := ip_id c + 1\<rparr>) buf len sended sent evs
       | Sendto ok \<Rightarrow> if \<not> ok then tcp_client_cb_loop (c\<lparr>ip_id := ip_id c + 1\<rparr>) buf len sended sent evs
           else tcp_client_cb_loop (c\<lparr>ip_id := ip_id c + 1, CLIENT_SUM_SEND := CLIENT_SUM_SEND c + of_nat s\<rparr>)
             buf len (sended + s) (sent @ [p]) evs)"
    for ev evs
    unfolding tcp_client_cb_loop.simps Let_def s_def [symmetric]
    using assms(2) n h by (cases ev) (simp_all add: p_def)
  then show ?thesis by (intro that [of s p]) blast
qed

lemma cb_loop_runs:
  "len \<le> length buf \<Longrightarrow> tcp_client_cb_loop c buf len sended sent evs \<noteq> Abort \<and>
     (\<forall>r c' sent'. tcp_client_cb_loop c buf len sended sent evs = Done (r, c', sent') \<longrightarrow> same_but_stream c c')"
proof (induction evs arbitrary: c sended sent)
  case Nil
  then show ?case by (auto intro: same_stream_refl)
next
  case (Cons ev evs)
  note ih = Cons.IH [OF Cons.prems]
  show ?case
  proof (cases "sended < len")
    case False
    then show ?thesis by (auto intro: same_stream_refl)
  next
    case True
    obtain s p where step: "\<forall>ev evs. tcp_client_cb_loop c buf len sended sent (ev # evs) =
      (case ev of Select_fails \<Rightarrow> Done (0, c\<lparr>ip_id := ip_id c + 1\<rparr>, sent)
       | Not_writable \<Rightarrow> tcp_client_cb_loop (c\<lparr>ip_id := ip_id c + 1\<rparr>) buf len sended sent evs
       | Sendto ok \<Rightarrow> if \<not> ok then tcp_client_cb_loop (c\<lparr>ip_id := ip_id c + 1\<rparr>) buf len sended sent evs
           else tcp_client_cb_loop (c\<lparr>ip_id := ip_id c + 1, CLIENT_SUM_SEND := CLIENT_SUM_SEND c + of_nat s\<rparr>)
             buf len (sended + s) (sent @ [p]) evs)"
      by (rule cb_loop_step [OF Cons.prems True])
    show ?thesis
      unfolding step [rule_format]
      using ih [of "c\<lparr>ip_id := ip_id c + 1\<rparr>" sended sent]
        ih [of "c\<lparr>ip_id := ip_id c + 1, CLIENT_SUM_SEND := CLIENT_SUM_SEND c + of_nat s\<rparr>" "sended + s" "sent @ [p]"]
      by (cases ev) (auto simp: Let_def same_stream_upd same_stream_refl same_stream_id)
  qed
qed

lemma client_output_frame:
  "client_output c ps evss = Done (c', sent) \<Longrightarrow> same_but_stream c c'"
proof (induction c ps evss arbitrary: sent rule: client_output.induct)
  case (3 c p ps evs evss)
  then obtain r c1 out1 out2 where o: "tcp_client_cb c p (int (length p)) evs = Done (r, c1, out1)"
    "client_output c1 ps evss = Done (c', out2)"
    by (auto split: run.splits)
  have "same_but_stream c c1" using cb_loop_runs [of "length p" p c 0 "[]" evs] o(1) by (simp add: tcp_client_cb_def)
  then obtain i n where "c1 = c\<lparr>ip_id := i, CLIENT_SUM_SEND := n\<rparr>" by (auto simp: same_but_stream_def)
  moreover have "same_but_stream c1 c'" using 3 o by blast
  ultimately show ?case by (simp add: same_stream_upd)
qed (auto intro: same_stream_refl)

lemma client_output_runs: "client_output c ps evss \<noteq> Abort"
proof (induction ps arbitrary: c evss)
  case (Cons p ps)
  show ?case
  proof (cases evss)
    case (Cons evs evss')
    then show ?thesis using cb_loop_runs [of "length p" p c 0 "[]" evs] Cons.IH
      by (auto simp: tcp_client_cb_def split: run.splits)
  qed simp
qed simp

lemma worked_stream: "same_but_stream c c' \<Longrightarrow> worked c c'"
  by (auto simp: same_but_stream_def worked_def split: option.splits)

lemma worked_kcp:
  assumes "m_kcp c = Some k" and "endpoint_ok k \<Longrightarrow> endpoint_ok k' \<and> backlog k' \<le> backlog k"
  shows "worked c (c\<lparr>m_kcp := Some k'\<rparr>)"
  using assms by (auto simp: worked_def)

text \<open>The locked section with the update: what it does, and that it succeeds.\<close>

lemma update_worked:
  assumes "client_update c now evss = Done (c', out)"
  shows "worked c c'"
proof -
  obtain k k' ps where k: "m_kcp c = Some k" "ikcp_update k now = Inr (k', ps)" "client_output (c\<lparr>m_kcp := Some k'\<rparr>) ps evss = Done (c', out)"
    using assms by (auto simp: client_update_def split: option.splits sum.splits)
  have "worked c (c\<lparr>m_kcp := Some k'\<rparr>)"
    using endpoint_updated [OF _ k(2)] backlog_update [OF _ k(2)] by (intro worked_kcp [OF k(1)]) simp
  then show ?thesis using worked_stream [OF client_output_frame [OF k(3)]] worked_trans by blast
qed

lemma update_runs:
  assumes "m_kcp c = Some k" and "endpoint_ok k" and "unat (ackcount k) < 2147483648"
  shows "client_update c now evss \<noteq> Abort"
  using endpoint_update [OF assms(2,3), of now] client_output_runs assms(1) by (auto simp: client_update_def)

lemma input_worked:
  assumes "m_kcp c = Some k" and "ikcp_input junk k d n = Some (r, k')"
  shows "worked c (c\<lparr>m_kcp := Some k'\<rparr>)"
  using endpoint_input [OF _ assms(2)] backlog_shrunk [OF _ _ shrunk_input [OF assms(2)]]
  by (intro worked_kcp [OF assms(1)]) (simp add: endpoint_ok_def)

lemma recv_worked:
  assumes "m_kcp c = Some k" and "ikcp_recv k b n = Some (r, out, k')"
  shows "worked c (c\<lparr>m_kcp := Some k'\<rparr>)"
  using endpoint_recv [OF _ assms(2)] backlog_shrunk [OF _ _ shrunk_recv [OF assms(2)]]
  by (intro worked_kcp [OF assms(1)]) (simp add: endpoint_ok_def)

lemma recv_worked_finish:
  assumes "m_kcp c = Some k" and "ikcp_recv k b n = Some (r, out, k')"
  shows "worked c (c\<lparr>m_kcp := Some k', finishSend := True\<rparr>)"
  using recv_worked [OF assms] by (simp add: worked_def split: option.splits)

lemma worked_flag: "worked c (c\<lparr>server_ack_seq := a\<rparr>)" "worked c (c\<lparr>finishSend := True\<rparr>)"
  by (auto simp: worked_def split: option.splits)

section \<open>The invariant of the three threads\<close>

definition all_messages :: "bytes \<Rightarrow> bytes option \<Rightarrow> bytes list option" where
  "all_messages path contents = (case contents of None \<Rightarrow> None | Some x \<Rightarrow> send_file_messages path x)"

definition fresh_ok :: "client_threads \<Rightarrow> bool" where
  "fresh_ok s \<longleftrightarrow> ct_upd s = U_none \<and> ct_rcv s = R_none \<and> \<not> finish_loop (ct_client s) \<and>
     s_state (ct_client s) = TCP_ESTABLISHED \<and> (\<exists>cv k. ikcp_create True True cv = Some k \<and> m_kcp (ct_client s) = Some k)"

text \<open>A released block: nobody is left who receives, and the caller will not use it.\<close>

definition block_ok :: "client_threads \<Rightarrow> bool" where
  "block_ok s \<longleftrightarrow>
     (case m_kcp (ct_client s) of
        Some k \<Rightarrow> endpoint_ok k \<and> backlog k \<le> length (ct_put s)
      | None \<Rightarrow> stopFlag (ct_client s) \<and> ct_rcv s = R_done \<and> ct_main s \<in> {M_done, M_close True, M_deleted})"

definition flags_ok :: "client_threads \<Rightarrow> bool" where
  "flags_ok s \<longleftrightarrow> ct_upd s \<noteq> U_none \<and> ct_rcv s \<noteq> R_none \<and> (finish_loop (ct_client s) \<longrightarrow> ct_rcv s = R_done) \<and>
     (\<forall>n. ct_rcv s = R_input n \<longrightarrow> -1 \<le> n \<and> n \<le> 1024) \<and>
     (case ct_main s of
        M_wait3 \<Rightarrow> stopFlag (ct_client s)
      | M_finish \<Rightarrow> stopFlag (ct_client s) \<and> finish_loop (ct_client s)
      | M_closing del \<Rightarrow> stopFlag (ct_client s)
      | M_release del \<Rightarrow> stopFlag (ct_client s) \<and> finish_loop (ct_client s)
      | _ \<Rightarrow> True)"

fun put_ok :: "bytes list option \<Rightarrow> main_pc \<Rightarrow> bytes list \<Rightarrow> bool" where
  "put_ok msgs M_start put = (put = [])"
| "put_ok msgs M_open put = (put = [])"
| "put_ok msgs (M_put left) put = (msgs = Some (put @ left))"
| "put_ok msgs M_wait1 put = (msgs = Some put)"
| "put_ok msgs M_wait2 put = (msgs = Some put)"
| "put_ok msgs M_stop put = (msgs = Some put)"
| "put_ok msgs M_wait3 put = (msgs = Some put)"
| "put_ok msgs M_finish put = (msgs = Some put)"
| "put_ok msgs _ put = (case msgs of None \<Rightarrow> put = [] | Some m \<Rightarrow> put = m)"

definition done_ok :: "client_threads \<Rightarrow> bool" where
  "done_ok s \<longleftrightarrow>
     (ct_main s \<in> {M_wait2, M_stop, M_wait3, M_finish} \<longrightarrow> finishSend (ct_client s)) \<and>
     (ct_main s \<in> {M_stop, M_wait3, M_finish} \<longrightarrow> (\<exists>k. m_kcp (ct_client s) = Some k \<and> backlog k = 0))"

definition threads_ok :: "bytes \<Rightarrow> bytes option \<Rightarrow> client_threads \<Rightarrow> bool" where
  "threads_ok path contents s \<longleftrightarrow> length (ct_buf s) = 1034 \<and> put_ok (all_messages path contents) (ct_main s) (ct_put s) \<and>
     (if ct_main s = M_start then fresh_ok s else block_ok s \<and> flags_ok s \<and> done_ok s)"

lemmas threads_parts = threads_ok_def block_ok_def flags_ok_def done_ok_def

text \<open>A step of a worker.\<close>

lemma worker_keeps:
  assumes "threads_ok path contents s" and "ct_main s \<noteq> M_start" and "ct_main t = ct_main s" and "ct_put t = ct_put s"
    and "worked (ct_client s) (ct_client t)" and "length (ct_buf t) = 1034" and "ct_upd t \<noteq> U_none" and "ct_rcv t \<noteq> R_none"
    and "\<forall>n. ct_rcv t = R_input n \<longrightarrow> -1 \<le> n \<and> n \<le> 1024" and "ct_rcv s = R_done \<longrightarrow> ct_rcv t = R_done"
  shows "threads_ok path contents t"
proof -
  have s: "block_ok s" "flags_ok s" "done_ok s" "put_ok (all_messages path contents) (ct_main s) (ct_put s)"
    using assms(1,2) by (auto simp: threads_ok_def)
  have w: "stopFlag (ct_client t) = stopFlag (ct_client s)" "finish_loop (ct_client t) = finish_loop (ct_client s)"
    "finishSend (ct_client s) \<longrightarrow> finishSend (ct_client t)"
    using assms(5) by (simp_all add: worked_def)
  have "block_ok t"
  proof (cases "m_kcp (ct_client s)")
    case None
    then show ?thesis using s(1) assms(3,5,10) w by (simp add: block_ok_def worked_def)
  next
    case (Some k)
    then show ?thesis using s(1) assms(4,5) by (auto simp: block_ok_def worked_def)
  qed
  moreover have "flags_ok t" using s(2) assms(3,7-10) w by (auto simp: flags_ok_def split: main_pc.splits)
  moreover have "done_ok t"
  proof -
    have "\<exists>k'. m_kcp (ct_client t) = Some k' \<and> backlog k' = 0" if "m_kcp (ct_client s) = Some k" "backlog k = 0" for k
      using that s(1) assms(5) by (auto simp: block_ok_def worked_def)
    then show ?thesis using s(3) assms(3) w by (auto simp: done_ok_def)
  qed
  ultimately show ?thesis using assms(2-4,6) s(4) by (simp add: threads_ok_def)
qed

lemma not_started: "threads_ok path contents s \<Longrightarrow> ct_upd s \<noteq> U_none \<or> ct_rcv s \<noteq> R_none \<Longrightarrow> ct_main s \<noteq> M_start"
  by (auto simp: threads_ok_def fresh_ok_def)

lemma loop_keeps:
  assumes ok: "threads_ok path contents s" and step: "client_loop now evss s = Done t"
  shows "threads_ok path contents t"
proof -
  have u: "ct_upd s \<noteq> U_none" using step by (auto simp: client_loop_def)
  then have m: "ct_main s \<noteq> M_start" using not_started [OF ok] by simp
  have r: "ct_rcv s \<noteq> R_none" "\<forall>n. ct_rcv s = R_input n \<longrightarrow> -1 \<le> n \<and> n \<le> 1024" "length (ct_buf s) = 1034"
    using ok m by (auto simp: threads_parts)
  show ?thesis
    by (rule worker_keeps [OF ok m])
      (use step r in \<open>auto simp: client_loop_def Let_def split: if_splits run.splits intro: update_worked\<close>)
qed

lemma rcv_packet_keeps:
  assumes ok: "threads_ok path contents s" and r: "ct_rcv s = R_select" and len: "-1 \<le> n" "n \<le> 1024" "length b = 1034"
    and step: "rcv_packet b n s = Done t"
  shows "threads_ok path contents t"
proof -
  have m: "ct_main s \<noteq> M_start" using not_started [OF ok] r by simp
  then have u: "ct_upd s \<noteq> U_none" using ok by (simp add: threads_parts)
  show ?thesis
    by (rule worker_keeps [OF ok m])
      (use step r u len in \<open>auto simp: rcv_packet_def Let_def worked_flag split: if_splits option.splits\<close>)
qed

lemma rcv_input_keeps:
  assumes ok: "threads_ok path contents s" and r: "ct_rcv s = R_input n" and step: "rcv_input junk n s = Done t"
  shows "threads_ok path contents t"
proof -
  have m: "ct_main s \<noteq> M_start" using not_started [OF ok] r by simp
  then have u: "ct_upd s \<noteq> U_none" "length (ct_buf s) = 1034" using ok by (simp_all add: threads_parts)
  obtain k ret k' where k: "m_kcp (ct_client s) = Some k" "ikcp_input junk k (Some (drop 40 (ct_buf s))) (n - 40) = Some (ret, k')"
    "ct_client t = (ct_client s)\<lparr>m_kcp := Some k'\<rparr>"
    using step by (auto simp: rcv_input_def Let_def split: if_splits option.splits)
  have "worked (ct_client s) (ct_client t)" unfolding k(3) by (rule input_worked [OF k(1,2)])
  then show ?thesis
    by (intro worker_keeps [OF ok m])
      (use step r u in \<open>auto simp: rcv_input_def Let_def split: if_splits option.splits\<close>)
qed

lemma rcv_recv_keeps:
  assumes ok: "threads_ok path contents s" and r: "ct_rcv s = R_recv n" and step: "rcv_recv n s = Done t"
  shows "threads_ok path contents t"
proof -
  have m: "ct_main s \<noteq> M_start" using not_started [OF ok] r by simp
  then have u: "ct_upd s \<noteq> U_none" "length (ct_buf s) = 1034" using ok by (simp_all add: threads_parts)
  obtain k ret out k' where k: "m_kcp (ct_client s) = Some k" "ikcp_recv k True n = Some (ret, out, k')"
    "ct_client t = (ct_client s)\<lparr>m_kcp := Some k'\<rparr> \<or> ct_client t = (ct_client s)\<lparr>m_kcp := Some k', finishSend := True\<rparr>"
    using step by (auto simp: rcv_recv_def Let_def split: if_splits option.splits)
  then have "worked (ct_client s) (ct_client t)" using recv_worked [OF k(1,2)] recv_worked_finish [OF k(1,2)] by auto
  then show ?thesis
    by (intro worker_keeps [OF ok m])
      (use step r u in \<open>auto simp: rcv_recv_def Let_def split: if_splits option.splits\<close>)
qed

lemma rcv_end_keeps:
  assumes ok: "threads_ok path contents s" and r: "ct_rcv s = R_end"
  shows "threads_ok path contents (s\<lparr>ct_client := (ct_client s)\<lparr>finish_loop := True\<rparr>, ct_rcv := R_done\<rparr>)"
  using not_started [OF ok] ok r by (auto simp: threads_parts split: main_pc.splits option.splits)

lemma rcv_thread_keeps:
  assumes ok: "threads_ok path contents s" and step: "rcv_thread junk now evss ev s = Done t"
  shows "threads_ok path contents t"
proof -
  have r: "ct_rcv s \<noteq> R_none" using step by (auto simp: rcv_thread_def)
  then have m: "ct_main s \<noteq> M_start" using not_started [OF ok] by simp
  then have u: "ct_upd s \<noteq> U_none" "length (ct_buf s) = 1034" using ok by (simp_all add: threads_parts)
  show ?thesis
  proof (cases "ct_rcv s")
    case R_select
    have "rcv_packet b n s = Done t \<Longrightarrow> -1 \<le> n \<Longrightarrow> n \<le> 1024 \<Longrightarrow> length b = 1034 \<Longrightarrow> ?thesis" for b n
      using rcv_packet_keeps [OF ok R_select] by blast
    then show ?thesis
      using step R_select u worker_keeps [OF ok m, of "s\<lparr>ct_rcv := R_test\<rparr>"]
      by (auto simp: rcv_thread_def Let_def split: net_ev.splits if_splits)
  next
    case (R_input n)
    then show ?thesis using rcv_input_keeps [OF ok] step by (auto simp: rcv_thread_def Let_def split: if_splits)
  next
    case (R_recv n)
    then show ?thesis using rcv_recv_keeps [OF ok] step by (auto simp: rcv_thread_def Let_def split: if_splits)
  next
    case R_end
    then show ?thesis using rcv_end_keeps [OF ok] step by (auto simp: rcv_thread_def Let_def split: if_splits)
  next
    case R_test
    show ?thesis
      by (rule worker_keeps [OF ok m]) (use step R_test u in \<open>auto simp: rcv_thread_def Let_def split: if_splits\<close>)
  next
    case R_update
    show ?thesis
      by (rule worker_keeps [OF ok m])
        (use step R_update u in \<open>auto simp: rcv_thread_def Let_def split: if_splits run.splits intro: update_worked\<close>)
  qed (use step in \<open>simp_all add: rcv_thread_def\<close>)
qed


text \<open>A step of the caller.\<close>

lemma wave_flags: "wave c out c' \<Longrightarrow> m_kcp c' = m_kcp c \<and> stopFlag c' = stopFlag c \<and> finish_loop c' = finish_loop c"
  by (auto elim: wave_elim)

lemma finish_flags:
  assumes "finish c [] ins = Done (c', out)"
  shows "m_kcp c' = m_kcp c \<and> stopFlag c' = stopFlag c \<and> finish_loop c' = finish_loop c"
proof -
  have "waves c out c'" using finish_waves [OF assms waves_refl] .
  then show ?thesis by (induction rule: waves.induct) (auto dest: wave_flags)
qed

lemma start_keeps:
  assumes ok: "threads_ok path contents s" and m: "ct_main s = M_start" and c: "kcp_client_start (ct_client s) = Done c"
  shows "threads_ok path contents (s\<lparr>ct_client := c, ct_upd := U_test, ct_rcv := R_test, ct_main := M_open\<rparr>)"
proof -
  have f: "fresh_ok s" "length (ct_buf s) = 1034" "ct_put s = []" using ok m by (simp_all add: threads_ok_def)
  obtain cv k where k: "ikcp_create True True cv = Some k" "m_kcp (ct_client s) = Some k" using f(1) by (auto simp: fresh_ok_def)
  let ?k = "snd (ikcp_nodelay (snd (ikcp_wndsize (ikcp_setoutput k True) 256 256)) 1 10 2 1)"
  have "endpoint_ok ?k" by (rule endpoint_start [OF k(1)]) simp_all
  moreover have "backlog ?k = 0"
    using k(1) by (auto simp: backlog_def ikcp_create_def ikcp_nodelay_def ikcp_wndsize_def ikcp_setoutput_def Let_def split: if_splits)
  moreover have "c = (ct_client s)\<lparr>m_kcp := Some ?k, stopFlag := False\<rparr>"
    using c k(2) by (simp add: kcp_client_start_def Let_def)
  ultimately show ?thesis using f by (simp add: threads_parts fresh_ok_def)
qed

lemma put_keeps:
  assumes ok: "threads_ok path contents s" and m: "ct_main s = M_put msgs"
  shows "\<exists>t. main_put junk msgs s = Done t \<and> threads_ok path contents t"
proof (cases msgs)
  case Nil
  then show ?thesis using ok m by (auto simp: main_put_def threads_parts split: option.splits)
next
  case (Cons b msgs')
  have all: "all_messages path contents = Some (ct_put s @ b # msgs')" using ok m Cons by (simp add: threads_ok_def)
  then have b: "length b \<le> 1024" using message_count [of path _ "ct_put s @ b # msgs'"]
    by (auto simp: all_messages_def split: option.splits)
  obtain k where k: "m_kcp (ct_client s) = Some k" "endpoint_ok k" "backlog k \<le> length (ct_put s)"
    using ok m by (auto simp: threads_parts split: option.splits)
  have wf: "kcp_wf k" "stream k = 0" "unat (mss k) = 1376"
    using k(2) by (auto simp: endpoint_ok_def kcp_wf_def cfg_wf_def)
  then obtain seg where s: "ikcp_send junk k (Some b) (int (length b)) =
      Some (int (length b), k\<lparr>snd_queue := snd_queue k @ [seg], nsnd_que := nsnd_que k + 1\<rparr>)"
    using send_short [OF wf(1,2), of b junk] b by auto
  let ?k = "k\<lparr>snd_queue := snd_queue k @ [seg], nsnd_que := nsnd_que k + 1\<rparr>"
  have "endpoint_ok ?k" using endpoint_send [OF k(2), of b junk] b s by auto
  moreover have "backlog ?k \<le> Suc (length (ct_put s))" using k(3) by (simp add: backlog_def)
  ultimately show ?thesis using ok m k(1) s Cons all by (auto simp: main_put_def threads_parts split: main_pc.splits)
qed

text \<open>What is known between the start and the release of the block, and what a step of the caller must establish.\<close>

definition stop_ok :: "main_pc \<Rightarrow> kcp_client \<Rightarrow> bool" where
  "stop_ok m c \<longleftrightarrow>
     (case m of
        M_wait3 \<Rightarrow> stopFlag c
      | M_finish \<Rightarrow> stopFlag c \<and> finish_loop c
      | M_closing del \<Rightarrow> stopFlag c
      | M_release del \<Rightarrow> stopFlag c \<and> finish_loop c
      | _ \<Rightarrow> True)"

lemma flags_split:
  "flags_ok s \<longleftrightarrow> ct_upd s \<noteq> U_none \<and> ct_rcv s \<noteq> R_none \<and> (finish_loop (ct_client s) \<longrightarrow> ct_rcv s = R_done) \<and>
     (\<forall>n. ct_rcv s = R_input n \<longrightarrow> -1 \<le> n \<and> n \<le> 1024) \<and> stop_ok (ct_main s) (ct_client s)"
  by (simp add: flags_ok_def stop_ok_def)

lemma caller_keeps:
  assumes ok: "threads_ok path contents s" and m: "ct_main s \<noteq> M_start" "ct_main t \<noteq> M_start"
    and same: "ct_upd t = ct_upd s" "ct_rcv t = ct_rcv s" "ct_buf t = ct_buf s" "ct_put t = ct_put s"
      "finish_loop (ct_client t) = finish_loop (ct_client s)" "m_kcp (ct_client t) = m_kcp (ct_client s)"
      "stopFlag (ct_client s) \<longrightarrow> stopFlag (ct_client t)"
    and t: "m_kcp (ct_client s) = None \<longrightarrow> ct_main t \<in> {M_done, M_close True, M_deleted}"
      "stop_ok (ct_main t) (ct_client t)" "put_ok (all_messages path contents) (ct_main t) (ct_put s)" "done_ok t"
  shows "threads_ok path contents t"
proof -
  have s: "block_ok s" "flags_ok s" "length (ct_buf s) = 1034" using ok m by (simp_all add: threads_ok_def)
  have "block_ok t" using s(1) same t(1) by (cases "m_kcp (ct_client s)") (simp_all add: block_ok_def)
  moreover have "flags_ok t" using s(2) same t(2) by (simp add: flags_split)
  ultimately show ?thesis using s(3) m(2) same t(3,4) by (simp add: threads_ok_def)
qed

lemma has_kcp:
  assumes "threads_ok path contents s" and "ct_main s \<notin> {M_start, M_done, M_close True, M_deleted}"
  obtains k where "m_kcp (ct_client s) = Some k" and "endpoint_ok k" and "backlog k \<le> length (ct_put s)"
proof -
  have "block_ok s" using assms by (simp add: threads_ok_def)
  then show ?thesis using assms(2) that by (cases "m_kcp (ct_client s)") (simp_all add: block_ok_def)
qed

lemma caller_knows:
  assumes "threads_ok path contents s" and "ct_main s \<noteq> M_start"
  shows "stop_ok (ct_main s) (ct_client s)" and "done_ok s" and "put_ok (all_messages path contents) (ct_main s) (ct_put s)"
  using assms by (simp_all add: threads_ok_def flags_split)

lemma release_keeps:
  assumes ok: "threads_ok path contents s" and m: "ct_main s = M_release del"
  shows "threads_ok path contents (main_release del s)"
proof -
  have s: "flags_ok s" "length (ct_buf s) = 1034" "put_ok (all_messages path contents) M_done (ct_put s)"
    using ok m by (simp_all add: threads_ok_def)
  then have "stopFlag (ct_client s)" "ct_rcv s = R_done" using m by (simp_all add: flags_ok_def)
  then show ?thesis using s
    by (cases del) (simp_all add: main_release_def close_end_def threads_ok_def block_ok_def flags_split stop_ok_def done_ok_def)
qed

lemma main_keeps:
  assumes ok: "threads_ok path contents s" and step: "main_thread path contents junk late ins s = Done t"
  shows "threads_ok path contents t"
proof (cases "ct_main s")
  case M_start
  then show ?thesis using step start_keeps [OF ok M_start]
    by (auto simp: main_thread_def Let_def split: if_splits run.splits)
next
  case (M_put msgs)
  then show ?thesis using step put_keeps [OF ok M_put, of junk] by (auto simp: main_thread_def)
next
  case M_open
  then obtain k where "m_kcp (ct_client s) = Some k" using has_kcp [OF ok] by auto
  then show ?thesis using step M_open caller_knows [OF ok]
    by (intro caller_keeps [OF ok])
      (auto simp: main_thread_def main_open_def all_messages_def stop_ok_def done_ok_def split: option.splits)
next
  case M_finish
  then obtain k where "m_kcp (ct_client s) = Some k" using has_kcp [OF ok] by auto
  then show ?thesis using step M_finish caller_knows [OF ok]
    by (intro caller_keeps [OF ok])
      (auto simp: main_thread_def stop_ok_def done_ok_def split: run.splits dest!: finish_flags)
next
  case M_wait1
  then obtain k where "m_kcp (ct_client s) = Some k" using has_kcp [OF ok] by auto
  then show ?thesis using step M_wait1 caller_knows [OF ok]
    by (intro caller_keeps [OF ok]) (auto simp: main_thread_def stop_ok_def done_ok_def split: if_splits)
next
  case M_wait2
  then obtain k where k: "m_kcp (ct_client s) = Some k" "endpoint_ok k" "backlog k \<le> length (ct_put s)"
    using has_kcp [OF ok] by auto
  have all: "all_messages path contents = Some (ct_put s)" using caller_knows(3) [OF ok] M_wait2 by simp
  then have "length (ct_put s) < 4294967296" using message_count by (auto simp: all_messages_def split: option.splits)
  then have "ikcp_waitsnd k = 0 \<longleftrightarrow> backlog k = 0" using waitsnd_zero [of k] k by (simp add: endpoint_ok_def)
  then show ?thesis using step M_wait2 k(1) caller_knows [OF ok] all
    by (intro caller_keeps [OF ok]) (auto simp: main_thread_def stop_ok_def done_ok_def split: if_splits)
next
  case M_stop
  then show ?thesis using step caller_knows [OF ok]
    by (intro caller_keeps [OF ok]) (auto simp: main_thread_def stop_ok_def done_ok_def)
next
  case M_wait3
  then show ?thesis using step caller_knows [OF ok]
    by (intro caller_keeps [OF ok]) (auto simp: main_thread_def stop_ok_def done_ok_def split: if_splits)
next
  case (M_close del)
  then have "m_kcp (ct_client s) = None \<longrightarrow> del" using has_kcp [OF ok] by (cases del) auto
  then show ?thesis using step M_close caller_knows(2,3) [OF ok]
    by (intro caller_keeps [OF ok])
      (auto simp: main_thread_def main_close_def close_end_def stop_ok_def done_ok_def Let_def split: if_splits)
next
  case (M_closing del)
  then obtain k where "m_kcp (ct_client s) = Some k" using has_kcp [OF ok] by auto
  then show ?thesis using step M_closing caller_knows [OF ok]
    by (intro caller_keeps [OF ok])
      (auto simp: main_thread_def main_closing_def close_end_def stop_ok_def done_ok_def split: if_splits)
next
  case (M_release del)
  then show ?thesis using step release_keeps [OF ok M_release] by (simp add: main_thread_def)
next
  case M_done
  then show ?thesis using step caller_knows [OF ok]
    by (intro caller_keeps [OF ok]) (auto simp: main_thread_def stop_ok_def done_ok_def)
qed (use step in \<open>simp add: main_thread_def\<close>)

lemma reach_keeps: "threads_reach path contents s0 s \<Longrightarrow> threads_ok path contents s0 \<Longrightarrow> threads_ok path contents s"
  by (induction rule: threads_reach.induct) (auto intro: loop_keeps rcv_thread_keeps main_keeps)

definition client_connected :: "kcp_client \<Rightarrow> bool" where
  "client_connected c \<longleftrightarrow> s_state c = TCP_ESTABLISHED \<and> \<not> finish_loop c \<and> (\<exists>cv k. ikcp_create True True cv = Some k \<and> m_kcp c = Some k)"

lemma connected_ok: "client_connected c \<Longrightarrow> threads_ok path contents (threads_start c)"
  by (simp add: client_connected_def threads_start_def threads_ok_def fresh_ok_def)


section \<open>The threads are safe until the block is released\<close>

lemma input_in_buffer:
  assumes "endpoint_ok k" and "unat (ackcount k) \<le> 2147483600" and "-1 \<le> n" and "n \<le> 1024" and "length b = 1034"
  shows "ikcp_input junk k (Some (drop 40 b)) (n - 40) \<noteq> None"
proof (cases "n - 40 < 0")
  case True
  then show ?thesis using assms(3) by (simp add: ikcp_input_def s32_id kcp_defs)
next
  case False
  have "unat (ackcount k) + nat (n - 40) div 24 \<le> 2147483648" using assms(2,4) by linarith
  moreover have "kcp_wf k" using assms(1) by (simp add: endpoint_ok_def)
  ultimately show ?thesis using input_any_bytes [of k "drop 40 b" "n - 40" junk] False assms(4,5) by auto
qed

lemma receive_runs:
  assumes ok: "threads_ok path contents s" and m: "ct_main s \<noteq> M_deleted"
    and acks: "\<forall>k. m_kcp (ct_client s) = Some k \<longrightarrow> unat (ackcount k) \<le> 2147483600"
  shows "rcv_thread junk now evss ev s \<noteq> Abort"
proof (cases "ct_rcv s = R_none \<or> ct_rcv s = R_done")
  case True
  then show ?thesis by (auto simp: rcv_thread_def)
next
  case active: False
  then have "ct_main s \<noteq> M_start" using not_started [OF ok] by simp
  then have s: "block_ok s" "flags_ok s" "length (ct_buf s) = 1034" using ok by (simp_all add: threads_ok_def)
  then obtain k where k: "m_kcp (ct_client s) = Some k" "endpoint_ok k"
    using active by (cases "m_kcp (ct_client s)") (simp_all add: block_ok_def)
  have acks: "unat (ackcount k) \<le> 2147483600" using acks k(1) by simp
  have read: "\<exists>i. prase_tcp_packet b = Some i" if "length b = 1034" for b using that by (simp add: prase_tcp_packet_def Let_def)
  have packet: "rcv_packet b n s \<noteq> Abort" if "length b = 1034" for b n
    using read [OF that] by (auto simp: rcv_packet_def Let_def split: if_splits)
  show ?thesis
  proof (cases "ct_rcv s")
    case R_update
    then show ?thesis using m update_runs [OF k] acks by (auto simp: rcv_thread_def Let_def split: run.splits)
  next
    case R_select
    then show ?thesis using m packet s(3) by (auto simp: rcv_thread_def Let_def split: net_ev.splits)
  next
    case (R_input n)
    then have "-1 \<le> n" "n \<le> 1024" using s(2) by (simp_all add: flags_ok_def)
    then obtain ret k' where "ikcp_input junk k (Some (drop 40 (ct_buf s))) (n - 40) = Some (ret, k')"
      using input_in_buffer [OF k(2) acks _ _ s(3), of n junk] by auto
    then show ?thesis
      using R_input m k(1) read [OF s(3)] by (auto simp: rcv_thread_def rcv_input_def Let_def)
  next
    case (R_recv n)
    then show ?thesis using m k(1) ikcp_recv_total [of k True n]
      by (auto simp: rcv_thread_def rcv_recv_def Let_def split: if_splits)
  qed (use active m in \<open>simp_all add: rcv_thread_def Let_def\<close>)
qed

lemma loop_runs:
  assumes ok: "threads_ok path contents s" and m: "ct_main s \<noteq> M_deleted"
    and acks: "\<forall>k. m_kcp (ct_client s) = Some k \<longrightarrow> unat (ackcount k) \<le> 2147483600"
  shows "client_loop now evss s = Abort \<longleftrightarrow> ct_upd s = U_run \<and> m_kcp (ct_client s) = None"
proof (cases "ct_upd s = U_run")
  case False
  then show ?thesis using m by (cases "ct_upd s") (simp_all add: client_loop_def Let_def)
next
  case True
  then have "ct_main s \<noteq> M_start" using not_started [OF ok] by simp
  then have b: "block_ok s" using ok by (simp add: threads_ok_def)
  show ?thesis
  proof (cases "m_kcp (ct_client s)")
    case None
    then show ?thesis using True m by (simp add: client_loop_def client_update_def)
  next
    case (Some k)
    then have "client_update (ct_client s) now evss \<noteq> Abort" using b acks update_runs by (simp add: block_ok_def)
    then show ?thesis using Some True m by (auto simp: client_loop_def split: run.splits)
  qed
qed

lemma caller_runs:
  assumes ok: "threads_ok path contents s" and abort: "main_thread path contents junk late ins s = Abort"
  shows "ct_main s = M_open \<and> contents \<noteq> None \<and> all_messages path contents = None \<or> ct_main s = M_finish"
proof (cases "ct_main s")
  case M_start
  then have "fresh_ok s" using ok by (simp add: threads_ok_def)
  then show ?thesis using abort M_start by (auto simp: main_thread_def fresh_ok_def kcp_client_start_def Let_def)
next
  case M_open
  then show ?thesis using abort by (auto simp: main_thread_def main_open_def all_messages_def split: option.splits)
next
  case (M_put msgs)
  then show ?thesis using abort put_keeps [OF ok M_put, of junk] by (auto simp: main_thread_def)
next
  case M_wait2
  then obtain k where "m_kcp (ct_client s) = Some k" using has_kcp [OF ok] by auto
  then show ?thesis using abort M_wait2 by (simp add: main_thread_def)
qed (use abort in \<open>simp_all add: main_thread_def\<close>)


definition sample_connected :: kcp_client where
  "sample_connected = sample_client\<lparr>s_state := TCP_ESTABLISHED\<rparr>"

lemma sample_is_connected: "client_connected sample_connected"
  by (auto simp: client_connected_def sample_connected_def sample_client_def KcpClient_def ikcp_create_def)




lemma sample_started:
  obtains c where "kcp_client_start sample_connected = Done c"
  by (auto simp: kcp_client_start_def sample_connected_def sample_client_def KcpClient_def ikcp_create_def Let_def)


section \<open>Three races\<close>

text \<open>The steps of a caller that cannot open the file, up to its wait for the receive thread.\<close>

lemma gives_up:
  assumes c: "kcp_client_start c = Done c'" "s_state c = TCP_ESTABLISHED" "m_kcp c' \<noteq> None"
  defines "s \<equiv> (threads_start c)\<lparr>ct_client := c', ct_upd := U_test, ct_rcv := R_test, ct_main := M_open\<rparr>"
  shows "threads_reach path None (threads_start c) s" and
    "threads_reach path None s (s\<lparr>ct_client := c'\<lparr>stopFlag := True\<rparr>, ct_main := M_closing False\<rparr>)"
proof -
  show "threads_reach path None (threads_start c) s"
    by (rule reach_main [OF reach_start]) (simp add: s_def main_thread_def threads_start_def c)
  have "threads_reach path None s (s\<lparr>ct_main := M_close False\<rparr>)"
    by (rule reach_main [OF reach_start]) (simp add: s_def main_thread_def main_open_def)
  then show "threads_reach path None s (s\<lparr>ct_client := c'\<lparr>stopFlag := True\<rparr>, ct_main := M_closing False\<rparr>)"
    by (rule reach_main) (use c(3) in \<open>auto simp: s_def main_thread_def main_close_def Let_def\<close>)
qed


lemma reach_trans: "threads_reach path contents b c \<Longrightarrow> threads_reach path contents a b \<Longrightarrow> threads_reach path contents a c"
  by (induction rule: threads_reach.induct) (auto intro: threads_reach.intros)

text \<open>
  C40: Three races of \<^verbatim>\<open>Close\<close>. Opening a file that does not exist is enough for the first: the update thread tests
  the stop flag, the caller sets it, waits for the receive thread and releases the control block, and the update
  thread uses it. Second, \<^verbatim>\<open>Close\<close> waits for three seconds while \<^verbatim>\<open>select\<close> waits for five: whenever \<^verbatim>\<open>send_file\<close> has
  returned and the receive thread has not ended, the destructor may give up waiting, delete the object, and the
  thread uses it. Third, the constructor does not set \<^verbatim>\<open>finish_loop\<close>: if the memory held a nonzero byte there,
  \<^verbatim>\<open>Close\<close> does not wait at all.
\<close>

theorem closing_races:
  assumes "client_connected c"
  shows "(\<exists>s. threads_reach path None (threads_start c) s \<and> ct_main s \<noteq> M_deleted \<and> (\<forall>now evss. client_loop now evss s = Abort)) \<and>
    (threads_reach path contents (threads_start c) s \<and> ct_main s = M_done \<and> ct_rcv s \<notin> {R_none, R_done} \<longrightarrow>
       (\<exists>t. threads_reach path contents s t \<and> ct_main t = M_deleted \<and> (\<forall>junk now evss ev. rcv_thread junk now evss ev t = Abort))) \<and>
    (\<exists>s. threads_reach path None (threads_start (c\<lparr>finish_loop := True\<rparr>)) s \<and> ct_main s \<noteq> M_deleted \<and>
       (\<forall>junk now evss ev. rcv_thread junk now evss ev s = Abort))"
proof (intro conjI impI)
  obtain k where k: "m_kcp c = Some k" "s_state c = TCP_ESTABLISHED" using assms by (auto simp: client_connected_def)
  define c' where "c' = c\<lparr>m_kcp := Some (snd (ikcp_nodelay (snd (ikcp_wndsize (ikcp_setoutput k True) 256 256)) 1 10 2 1)), stopFlag := False\<rparr>"
  have c': "kcp_client_start c = Done c'" "m_kcp c' \<noteq> None" "\<not> stopFlag c'" using k by (simp_all add: kcp_client_start_def c'_def Let_def)
  let ?s = "(threads_start c)\<lparr>ct_client := c', ct_upd := U_test, ct_rcv := R_test, ct_main := M_open\<rparr>"
  let ?c = "c'\<lparr>stopFlag := True\<rparr>"
  show "\<exists>s. threads_reach path None (threads_start c) s \<and> ct_main s \<noteq> M_deleted \<and> (\<forall>now evss. client_loop now evss s = Abort)"
  proof (intro exI conjI allI)
    have 1: "threads_reach path None (threads_start c) (?s\<lparr>ct_upd := U_run\<rparr>)"
      by (rule reach_update [OF gives_up(1) [OF c'(1) k(2) c'(2)]]) (simp add: client_loop_def c'(3))
    have "threads_reach path None (threads_start c) (?s\<lparr>ct_upd := U_run, ct_main := M_close False\<rparr>)"
      by (rule reach_main [OF 1]) (simp add: main_thread_def main_open_def)
    then have "threads_reach path None (threads_start c) (?s\<lparr>ct_upd := U_run, ct_client := ?c, ct_main := M_closing False\<rparr>)"
      by (rule reach_main) (use c'(2) in \<open>auto simp: main_thread_def main_close_def Let_def\<close>)
    then have "threads_reach path None (threads_start c) (?s\<lparr>ct_upd := U_run, ct_client := ?c, ct_rcv := R_end, ct_main := M_closing False\<rparr>)"
      by (rule reach_receive) (simp add: rcv_thread_def)
    then have "threads_reach path None (threads_start c)
        (?s\<lparr>ct_upd := U_run, ct_client := ?c\<lparr>finish_loop := True\<rparr>, ct_rcv := R_done, ct_main := M_closing False\<rparr>)"
      by (rule reach_receive) (simp add: rcv_thread_def)
    then have "threads_reach path None (threads_start c)
        (?s\<lparr>ct_upd := U_run, ct_client := ?c\<lparr>finish_loop := True\<rparr>, ct_rcv := R_done, ct_main := M_release False\<rparr>)"
      by (rule reach_main) (simp add: main_thread_def main_closing_def)
    then show "threads_reach path None (threads_start c)
        (?s\<lparr>ct_upd := U_run, ct_client := ?c\<lparr>finish_loop := True, m_kcp := None\<rparr>, ct_rcv := R_done, ct_main := M_done\<rparr>)"
      by (rule reach_main) (simp add: main_thread_def main_release_def close_end_def)
  qed (simp_all add: client_loop_def client_update_def)
  show "\<exists>s. threads_reach path None (threads_start (c\<lparr>finish_loop := True\<rparr>)) s \<and> ct_main s \<noteq> M_deleted \<and>
      (\<forall>junk now evss ev. rcv_thread junk now evss ev s = Abort)"
  proof (intro exI conjI allI)
    let ?d = "c'\<lparr>finish_loop := True\<rparr>"
    let ?s0 = "threads_start (c\<lparr>finish_loop := True\<rparr>)"
    let ?t = "?s0\<lparr>ct_client := ?d, ct_upd := U_test, ct_rcv := R_test, ct_main := M_open\<rparr>"
    have d: "kcp_client_start (c\<lparr>finish_loop := True\<rparr>) = Done ?d" using k by (simp add: kcp_client_start_def c'_def Let_def)
    have "threads_reach path None ?s0 ?t" by (rule gives_up(1) [OF d]) (use k c' in simp_all)
    then have "threads_reach path None ?s0 (?t\<lparr>ct_rcv := R_update\<rparr>)"
      by (rule reach_receive) (simp add: rcv_thread_def c'(3))
    then have "threads_reach path None ?s0 (?t\<lparr>ct_rcv := R_update, ct_main := M_close False\<rparr>)"
      by (rule reach_main) (simp add: main_thread_def main_open_def)
    then have "threads_reach path None ?s0 (?t\<lparr>ct_client := ?d\<lparr>stopFlag := True\<rparr>, ct_rcv := R_update, ct_main := M_closing False\<rparr>)"
      by (rule reach_main) (use c'(2) in \<open>auto simp: main_thread_def main_close_def Let_def\<close>)
    then have "threads_reach path None ?s0 (?t\<lparr>ct_client := ?d\<lparr>stopFlag := True\<rparr>, ct_rcv := R_update, ct_main := M_release False\<rparr>)"
      by (rule reach_main) (simp add: main_thread_def main_closing_def)
    then show "threads_reach path None ?s0
        (?t\<lparr>ct_client := ?d\<lparr>stopFlag := True, m_kcp := None\<rparr>, ct_rcv := R_update, ct_main := M_done\<rparr>)"
      by (rule reach_main) (simp add: main_thread_def main_release_def close_end_def)
  qed (simp_all add: rcv_thread_def client_update_def)
next
  assume s: "threads_reach path contents (threads_start c) s \<and> ct_main s = M_done \<and> ct_rcv s \<notin> {R_none, R_done}"
  then have ok: "threads_ok path contents s" using reach_keeps connected_ok [OF assms] by blast
  then have "block_ok s" "flags_ok s" using s by (simp_all add: threads_ok_def)
  then have c: "m_kcp (ct_client s) \<noteq> None" "\<not> finish_loop (ct_client s)"
    using s by (auto simp: block_ok_def flags_ok_def split: option.splits)
  let ?c = "(ct_client s)\<lparr>stopFlag := True\<rparr>"
  have "threads_reach path contents s (s\<lparr>ct_main := M_close True\<rparr>)"
    by (rule reach_main [OF reach_start]) (use s in \<open>simp add: main_thread_def\<close>)
  then have "threads_reach path contents s (s\<lparr>ct_client := ?c, ct_main := M_closing True\<rparr>)"
    by (rule reach_main) (use c(1) in \<open>auto simp: main_thread_def main_close_def Let_def\<close>)
  then have "threads_reach path contents s (s\<lparr>ct_client := ?c, ct_main := M_deleted\<rparr>)"
    by (rule reach_main [where late = True]) (simp add: main_thread_def main_closing_def close_end_def c(2))
  then show "\<exists>t. threads_reach path contents s t \<and> ct_main t = M_deleted \<and> (\<forall>junk now evss ev. rcv_thread junk now evss ev t = Abort)"
    using s by (intro exI [of _ "s\<lparr>ct_client := ?c, ct_main := M_deleted\<rparr>"]) (simp add: rcv_thread_def)
qed

theorem closing_races_witness:
  "\<exists>s. threads_reach [] None (threads_start sample_connected) s \<and> ct_main s = M_deleted \<and> (\<forall>junk now evss ev. rcv_thread junk now evss ev s = Abort)"
proof -
  let ?r = "threads_reach [] None (threads_start sample_connected)"
  obtain c where c: "kcp_client_start sample_connected = Done c" by (rule sample_started)
  have e: "s_state sample_connected = TCP_ESTABLISHED" by (simp add: sample_connected_def)
  have n: "m_kcp c \<noteq> None" "\<not> finish_loop c"
    using c by (auto simp: kcp_client_start_def sample_connected_def sample_client_def KcpClient_def ikcp_create_def Let_def)
  let ?s = "(threads_start sample_connected)\<lparr>ct_client := c, ct_upd := U_test, ct_rcv := R_test, ct_main := M_open\<rparr>"
  let ?d = "?s\<lparr>ct_client := c\<lparr>stopFlag := True\<rparr>, ct_main := M_done\<rparr>"
  have "?r (?s\<lparr>ct_client := c\<lparr>stopFlag := True\<rparr>, ct_main := M_closing False\<rparr>)"
    by (rule reach_trans [OF gives_up(2) [OF c e n(1)] gives_up(1) [OF c e n(1)]])
  then have r: "?r ?d"
    by (rule reach_main [where late = True]) (simp add: main_thread_def main_closing_def close_end_def n)
  have "ct_main ?d = M_done \<and> ct_rcv ?d \<notin> {R_none, R_done}" by simp
  with closing_races [OF sample_is_connected, of "[]" None ?d] r
  obtain t where "threads_reach [] None ?d t" "ct_main t = M_deleted" "\<forall>junk now evss ev. rcv_thread junk now evss ev t = Abort"
    by blast
  then show ?thesis using reach_trans [OF _ r] by blast
qed

section \<open>The thread functions alone\<close>

text \<open>The definitions of \<open>File_Client\<close> are the runs in which no other thread interferes.\<close>

lemma drain_is_run:
  fixes s :: client_threads
  assumes "client_drain n c = Some (Done c')" and "ct_client s = c" and "ct_rcv s = R_recv n" and "ct_main s \<noteq> M_deleted"
  shows "threads_reach path contents s (s\<lparr>ct_client := c', ct_rcv := R_test\<rparr>)"
proof -
  have "\<forall>c' (s :: client_threads). r = Done c' \<and> ct_client s = c \<and> ct_rcv s = R_recv n \<and> ct_main s \<noteq> M_deleted \<longrightarrow>
      threads_reach path contents s (s\<lparr>ct_client := c', ct_rcv := R_test\<rparr>)" if "client_drain n c = Some r" for r
  proof (induction rule: client_drain.raw_induct [OF _ that])
    case (1 rec n c r)
    show ?case
    proof (intro allI impI)
      fix c' and s :: client_threads
      assume a: "r = Done c' \<and> ct_client s = c \<and> ct_rcv s = R_recv n \<and> ct_main s \<noteq> M_deleted"
      then obtain k ret out k' where k: "m_kcp c = Some k" "ikcp_recv k True n = Some (ret, out, k')"
        using 1(2) by (auto split: option.splits)
      have step: "rcv_thread junk now evss ev s = rcv_recv n s" for junk now evss ev
        using a by (simp add: rcv_thread_def)
      show "threads_reach path contents s (s\<lparr>ct_client := c', ct_rcv := R_test\<rparr>)"
      proof (cases "ret > 0")
        case False
        then have "c' = c\<lparr>m_kcp := Some k'\<rparr>" using 1(2) k a by simp
        then show ?thesis
          by (intro reach_receive [OF reach_start]) (use False k a in \<open>simp add: step rcv_recv_def\<close>)
      next
        case True
        define d where "d = (if c_string (out @ replicate (1034 - length out) 0) = finish_message
          then c\<lparr>m_kcp := Some k', finishSend := True\<rparr> else c\<lparr>m_kcp := Some k'\<rparr>)"
        have "rec n d = Some r" using 1(2) k True by (simp add: d_def Let_def)
        from 1(1) [OF this] a
        have "threads_reach path contents (s\<lparr>ct_client := d\<rparr>) (s\<lparr>ct_client := c', ct_rcv := R_test\<rparr>)"
          by (auto dest!: spec [where x = "s\<lparr>ct_client := d\<rparr>"])
        moreover have "threads_reach path contents s (s\<lparr>ct_client := d\<rparr>)"
          by (intro reach_receive [OF reach_start]) (use True k a in \<open>simp add: step rcv_recv_def d_def Let_def\<close>)
        ultimately show ?thesis by (rule reach_trans)
      qed
    qed
  qed
  then show ?thesis using assms by blast
qed

lemma packet_is_run:
  assumes p: "client_packet junk c buf len = Some (Done (c', stop))"
    and s: "ct_client s = c" "ct_main s \<noteq> M_deleted" and t: "rcv_packet buf len s = Done t"
  shows "threads_reach path contents t (t\<lparr>ct_client := c', ct_rcv := (if stop then R_end else R_test)\<rparr>)"
proof -
  obtain info where i: "prase_tcp_packet buf = Some info" using p by (auto simp: client_packet_def split: option.splits)
  show ?thesis
  proof (cases "uint (ti_port_dst info) \<noteq> c_port c \<or> len - 40 = 0")
    case True
    then have "t\<lparr>ct_client := c', ct_rcv := (if stop then R_end else R_test)\<rparr> = t"
      using p t s i by (auto simp: client_packet_def rcv_packet_def Let_def split: if_splits)
    then show ?thesis using reach_start by simp
  next
    case False
    define d where "d = c\<lparr>server_ack_seq := ti_seq info + word_of_int (len - 40)\<rparr>"
    have t': "t = s\<lparr>ct_buf := buf, ct_client := d, ct_rcv := R_input len\<rparr>"
      using False t s i by (simp add: rcv_packet_def d_def Let_def)
    obtain k ret k' where k: "m_kcp d = Some k" "ikcp_input junk k (Some (drop 40 buf)) (len - 40) = Some (ret, k')"
      using False p i by (auto simp: client_packet_def d_def Let_def split: option.splits)
    have step: "rcv_thread junk now evss ev t = rcv_input junk len t" for now evss ev
      using s(2) by (simp add: rcv_thread_def t')
    show ?thesis
    proof (cases "ret < 0")
      case True
      then have "c' = d\<lparr>m_kcp := Some k'\<rparr>" "stop = ti_fin info"
        using False p i k by (simp_all add: client_packet_def d_def Let_def)
      then show ?thesis
        by (intro reach_receive [OF reach_start, where junk = junk and now = 0 and evss = "[]" and ev = Ev_timeout])
            (unfold step, use True k i in \<open>simp add: rcv_input_def t' Let_def\<close>)
    next
      case ret: False
      then have dr: "client_drain (len - 40) (d\<lparr>m_kcp := Some k'\<rparr>) = Some (Done c')" "\<not> stop"
        using False p i k by (auto simp: client_packet_def d_def Let_def split: option.splits run.splits)
      let ?t = "t\<lparr>ct_client := d\<lparr>m_kcp := Some k'\<rparr>, ct_rcv := R_recv (len - 40)\<rparr>"
      have "threads_reach path contents t ?t"
        by (intro reach_receive [OF reach_start, where junk = junk and now = 0 and evss = "[]" and ev = Ev_timeout])
          (unfold step, use ret k in \<open>simp add: rcv_input_def t' Let_def\<close>)
      moreover have "threads_reach path contents ?t (?t\<lparr>ct_client := c', ct_rcv := R_test\<rparr>)"
        by (rule drain_is_run [OF dr(1)]) (simp_all add: t' s(2))
      ultimately show ?thesis using reach_trans dr(2) by fastforce
    qed
  qed
qed

lemma pass_is_run:
  assumes p: "client_pass junk c buf now evss ev = Some (Done (c', buf', out, stop))"
    and s: "ct_client s = c" "ct_buf s = buf" "ct_rcv s = R_update" "ct_main s \<noteq> M_deleted"
  shows "threads_reach path contents s
    (s\<lparr>ct_client := c', ct_buf := buf', ct_sent := ct_sent s @ out, ct_rcv := (if stop then R_end else R_test)\<rparr>)"
proof -
  obtain d sent where u: "client_update c now evss = Done (d, sent)" using p by (auto simp: client_pass_def split: run.splits)
  let ?s = "s\<lparr>ct_client := d, ct_sent := ct_sent s @ sent, ct_rcv := R_select\<rparr>"
  have 1: "threads_reach path contents s ?s"
    by (rule reach_receive [OF reach_start, where now = now and evss = evss]) (use s u in \<open>simp add: rcv_thread_def\<close>)
  have quiet: ?thesis if "c' = d" "buf' = buf" "out = sent" "\<not> stop" "rcv_thread junk now evss ev ?s = Done (?s\<lparr>ct_rcv := R_test\<rparr>)"
  proof -
    have "?s\<lparr>ct_rcv := R_test\<rparr> = s\<lparr>ct_client := c', ct_buf := buf', ct_sent := ct_sent s @ out, ct_rcv := (if stop then R_end else R_test)\<rparr>"
      using that(1-4) s(2) by (cases s) simp
    then show ?thesis using reach_receive [OF 1 that(5)] by simp
  qed
  have packet: ?thesis if r: "rcv_thread junk now evss ev ?s = rcv_packet b n ?s" "client_packet junk d b n = Some (Done (c', stop))"
      "out = sent" "buf' = b" for b n
  proof -
    obtain info where "prase_tcp_packet b = Some info" using r(2) by (auto simp: client_packet_def split: option.splits)
    then obtain t where t: "rcv_packet b n ?s = Done t" "t\<lparr>ct_client := c', ct_rcv := x\<rparr> =
        s\<lparr>ct_client := c', ct_buf := b, ct_sent := ct_sent s @ sent, ct_rcv := x\<rparr>" for x
      by (cases "uint (ti_port_dst info) \<noteq> c_port d") (auto simp: rcv_packet_def Let_def)
    have "threads_reach path contents s t" by (rule reach_receive [OF 1]) (rule trans [OF r(1) t(1)])
    moreover have "threads_reach path contents t (t\<lparr>ct_client := c', ct_rcv := (if stop then R_end else R_test)\<rparr>)"
      by (rule packet_is_run [OF r(2) _ _ t(1)]) (simp_all add: s(4))
    ultimately have "threads_reach path contents s (t\<lparr>ct_client := c', ct_rcv := (if stop then R_end else R_test)\<rparr>)"
      by (metis reach_trans)
    then show ?thesis unfolding t(2) r(3,4) .
  qed
  show ?thesis
  proof (cases ev)
    case (Ev_packet q late)
    show ?thesis
      by (rule packet [of "recv_into buf (take 1024 q)" "int (length (take 1024 q))"])
        (use p u Ev_packet s in \<open>auto simp: client_pass_def rcv_thread_def split: option.splits run.splits\<close>)
  next
    case Ev_recv_error
    show ?thesis
      by (rule packet [of buf "-1"])
        (use p u Ev_recv_error s in \<open>auto simp: client_pass_def rcv_thread_def split: option.splits run.splits\<close>)
  qed (rule quiet; use p u s in \<open>auto simp: client_pass_def rcv_thread_def\<close>)+
qed

lemma flag_is_run:
  assumes "ct_rcv s = R_test" and "ct_main s \<noteq> M_deleted"
  shows "threads_reach path contents s (s\<lparr>ct_rcv := (if stopFlag (ct_client s) then R_end else R_update)\<rparr>)"
  by (rule reach_receive [OF reach_start]) (use assms in \<open>simp add: rcv_thread_def\<close>)

lemma end_is_run:
  assumes "ct_rcv s = R_end" and "ct_main s \<noteq> M_deleted"
  shows "threads_reach path contents s (s\<lparr>ct_client := (ct_client s)\<lparr>finish_loop := True\<rparr>, ct_rcv := R_done\<rparr>)"
  by (rule reach_receive [OF reach_start]) (use assms in \<open>simp add: rcv_thread_def\<close>)

lemma stopped_is_run:
  assumes "ct_rcv s = R_test" and "ct_main s \<noteq> M_deleted" and "stopFlag (ct_client s)"
  shows "threads_reach path contents s
    (s\<lparr>ct_client := (ct_client s)\<lparr>finish_loop := True\<rparr>, ct_buf := ct_buf s, ct_sent := ct_sent s, ct_rcv := R_done\<rparr>)"
proof -
  let ?e = "s\<lparr>ct_rcv := R_end\<rparr>"
  have 1: "threads_reach path contents s ?e" using flag_is_run [OF assms(1,2)] assms(3) by simp
  have "threads_reach path contents ?e (?e\<lparr>ct_client := (ct_client ?e)\<lparr>finish_loop := True\<rparr>, ct_rcv := R_done\<rparr>)"
    by (rule end_is_run) (use assms(2) in simp_all)
  moreover have "?e\<lparr>ct_client := (ct_client ?e)\<lparr>finish_loop := True\<rparr>, ct_rcv := R_done\<rparr> =
      s\<lparr>ct_client := (ct_client s)\<lparr>finish_loop := True\<rparr>, ct_buf := ct_buf s, ct_sent := ct_sent s, ct_rcv := R_done\<rparr>"
    by (cases s) simp
  ultimately show ?thesis using reach_trans [OF _ 1] by simp
qed

text \<open>
  The description of \<^verbatim>\<open>run_tcp_client\<close> as one function is right: what it returns is what the receive thread
  reaches in its own steps when no other thread interferes, from the test of the flag to the end of the thread.
\<close>

theorem receive_thread_alone:
  assumes "run_tcp_client junk c buf sent ins = Some (Done (c', sent'))"
    and "ct_client s = c" and "ct_buf s = buf" and "ct_sent s = sent" and "ct_rcv s = R_test" and "ct_main s \<noteq> M_deleted"
  shows "\<exists>b. threads_reach path contents s (s\<lparr>ct_client := c', ct_buf := b, ct_sent := sent', ct_rcv := R_done\<rparr>)"
  using assms
proof (induction ins arbitrary: c buf sent s)
  case Nil
  then have "stopFlag (ct_client s)" "c' = (ct_client s)\<lparr>finish_loop := True\<rparr>" "sent' = ct_sent s" by (auto split: if_splits)
  then show ?case using stopped_is_run Nil.prems(5,6) by blast
next
  case (Cons i ins)
  note s = Cons.prems(2-6)
  obtain now evss ev where i: "i = (now, evss, ev)" by (cases i)
  show ?case
  proof (cases "stopFlag (ct_client s)")
    case True
    then have "c' = (ct_client s)\<lparr>finish_loop := True\<rparr>" "sent' = ct_sent s" using Cons.prems(1) s i by auto
    then show ?thesis using stopped_is_run True s by blast
  next
    case False
    then obtain d buf' out stop where p: "client_pass junk c buf now evss ev = Some (Done (d, buf', out, stop))"
      "(if stop then Some (Done (d\<lparr>finish_loop := True\<rparr>, sent @ out)) else run_tcp_client junk d buf' (sent @ out) ins) = Some (Done (c', sent'))"
      using Cons.prems(1) s(1) i by (auto split: option.splits run.splits)
    let ?u = "s\<lparr>ct_rcv := R_update\<rparr>"
    let ?t = "s\<lparr>ct_client := d, ct_buf := buf', ct_sent := sent @ out, ct_rcv := (if stop then R_end else R_test)\<rparr>"
    have "threads_reach path contents s ?u" using flag_is_run [of s path contents] False s by simp
    moreover have "threads_reach path contents ?u ?t" using pass_is_run [OF p(1), of ?u path contents] s by simp
    ultimately have t: "threads_reach path contents s ?t" by (metis reach_trans)
    show ?thesis
    proof (cases stop)
      case True
      then have e: "c' = d\<lparr>finish_loop := True\<rparr>" "sent' = sent @ out" using p(2) by auto
      have "threads_reach path contents ?t (?t\<lparr>ct_client := (ct_client ?t)\<lparr>finish_loop := True\<rparr>, ct_rcv := R_done\<rparr>)"
        by (rule end_is_run) (use True s in simp_all)
      moreover have "?t\<lparr>ct_client := (ct_client ?t)\<lparr>finish_loop := True\<rparr>, ct_rcv := R_done\<rparr> =
          s\<lparr>ct_client := c', ct_buf := buf', ct_sent := sent', ct_rcv := R_done\<rparr>"
        by (cases s) (simp add: e)
      ultimately show ?thesis using reach_trans [OF _ t] by (metis (no_types))
    next
      case False
      then have "run_tcp_client junk d buf' (sent @ out) ins = Some (Done (c', sent'))" using p(2) by simp
      from Cons.IH [OF this, of ?t] s False obtain b where
        "threads_reach path contents ?t (?t\<lparr>ct_client := c', ct_buf := b, ct_sent := sent', ct_rcv := R_done\<rparr>)" by auto
      from reach_trans [OF this t] show ?thesis by (intro exI [of _ b]) (simp add: False)
    qed
  qed
qed

theorem receive_thread_alone_witness:
  "\<exists>b. threads_reach [] None ((threads_start (sample_connected\<lparr>stopFlag := True\<rparr>))\<lparr>ct_rcv := R_test\<rparr>)
     ((threads_start (sample_connected\<lparr>stopFlag := True, finish_loop := True\<rparr>))\<lparr>ct_buf := b, ct_rcv := R_done\<rparr>)"
  using receive_thread_alone [of "\<lambda>_. seg0" "sample_connected\<lparr>stopFlag := True\<rparr>" "replicate 1034 0" "[]" "[]"
      "sample_connected\<lparr>stopFlag := True, finish_loop := True\<rparr>" "[]"
      "(threads_start (sample_connected\<lparr>stopFlag := True\<rparr>))\<lparr>ct_rcv := R_test\<rparr>" "[]" None]
  by (simp add: threads_start_def)

end
