(* ===== verification/Crypto_Bits.thy ===== *)
theory Crypto_Bits
  imports Kcp_Prelude
begin

text \<open>
  What the hash and cipher routines of \<^verbatim>\<open>model.cc\<close> use of the standard library: strings of binary digits
  (\<^verbatim>\<open>std::bitset\<close>), conversions (\<^verbatim>\<open>std::stoul\<close>), formatted output (\<^verbatim>\<open>std::setw\<close>, \<^verbatim>\<open>std::hex\<close>) and the rotations
  of the two hashes. A thrown exception is \<^const>\<open>None\<close>. A shift count outside \<open>0..31\<close>, which the language
  leaves undefined, is taken modulo 32 as the x86 instruction does.
\<close>

section \<open>Strings of binary digits\<close>

definition bitc :: "bool \<Rightarrow> char" where
  "bitc b = (if b then CHR ''1'' else CHR ''0'')"

text \<open>\<^verbatim>\<open>std::bitset<n>(w).to_string()\<close>\<close>

fun bits :: "nat \<Rightarrow> 'a::len word \<Rightarrow> string" where
  "bits 0 w = []"
| "bits (Suc n) w = bitc (bit w n) # bits n w"

definition binary :: "string \<Rightarrow> bool" where
  "binary s \<longleftrightarrow> set s \<subseteq> {CHR ''0'', CHR ''1''}"

definition binval :: "string \<Rightarrow> nat" where
  "binval s = foldl (\<lambda>v c. v * 2 + (if c = CHR ''1'' then 1 else 0)) 0 s"

text \<open>
  \<^verbatim>\<open>std::stoul\<close> in base 2 and 16 on strings that start with digits: it stops at the first character that is not
  a digit of the base and throws when there is none.
\<close>

definition stoul2 :: "string \<Rightarrow> nat option" where
  "stoul2 s = (let d = takeWhile (\<lambda>c. c \<in> {CHR ''0'', CHR ''1''}) s in if d = [] then None else Some (binval d))"

definition hex_value :: "char \<Rightarrow> nat option" where
  "hex_value c = (let n = of_char c in
     if 48 \<le> n \<and> n \<le> 57 then Some (n - 48)
     else if 97 \<le> n \<and> n \<le> 102 then Some (n - 87)
     else if 65 \<le> n \<and> n \<le> 70 then Some (n - 55) else None)"

definition hexval :: "string \<Rightarrow> nat" where
  "hexval s = foldl (\<lambda>v c. v * 16 + the (hex_value c)) 0 s"

definition stoul16 :: "string \<Rightarrow> nat option" where
  "stoul16 s = (let d = takeWhile (\<lambda>c. hex_value c \<noteq> None) s in if d = [] then None else Some (hexval d))"

text \<open>\<^verbatim>\<open>std::string::substr\<close>, which throws when the position is past the end.\<close>

definition substr :: "string \<Rightarrow> nat \<Rightarrow> nat \<Rightarrow> string option" where
  "substr s pos n = (if pos > length s then None else Some (take n (drop pos s)))"

section \<open>Formatted output\<close>

definition digit_char :: "nat \<Rightarrow> char" where
  "digit_char d = char_of (if d < 10 then 48 + d else 87 + d)"

text \<open>A number in base 10 or 16, without leading zeros.\<close>

function num_string :: "nat \<Rightarrow> nat \<Rightarrow> string" where
  "num_string base n =
     (if n < base \<or> base < 2 then [digit_char n] else num_string base (n div base) @ [digit_char (n mod base)])"
  by pat_completeness auto
termination
  by (relation "measure snd") auto
declare num_string.simps [simp del]

text \<open>\<^verbatim>\<open>std::setfill('0') << std::setw(w)\<close>\<close>

definition setw :: "nat \<Rightarrow> string \<Rightarrow> string" where
  "setw w s = replicate (w - length s) CHR ''0'' @ s"

fun binaryStringToHex :: "string \<Rightarrow> string option" where
  "binaryStringToHex s =
     (if s = [] then Some []
      else if \<not> binary (take 8 s) then None
      else map_option (\<lambda>r. setw 2 (num_string 16 (binval (take 8 s))) @ r) (binaryStringToHex (drop 8 s)))"

declare binaryStringToHex.simps [simp del]

section \<open>Shifts and rotations\<close>

definition shl :: "u32 \<Rightarrow> int \<Rightarrow> u32" where
  "shl x n = push_bit (nat (n mod 32)) x"

definition shr :: "u32 \<Rightarrow> int \<Rightarrow> u32" where
  "shr x n = drop_bit (nat (n mod 32)) x"

definition S :: "u32 \<Rightarrow> int \<Rightarrow> u32" where
  "S x n = shr x n OR shl x (32 - n)"

definition R :: "u32 \<Rightarrow> int \<Rightarrow> u32" where
  "R x n = shr x n"

definition LL :: "u32 \<Rightarrow> int \<Rightarrow> u32" where
  "LL x n = shl x n OR shr x (32 - n)"

lemma rotr_shifts:
  assumes "m < 32"
  shows "drop_bit m x OR push_bit ((32 - m) mod 32) x = word_rotr m (x :: u32)"
proof (rule bit_word_eqI)
  fix i assume "i < LENGTH(32)"
  then have i: "i < 32" by simp
  have top: "bit x j \<Longrightarrow> j < 32" for j using bit_imp_le_length [of x j] by simp
  show "bit (drop_bit m x OR push_bit ((32 - m) mod 32) x) i = bit (word_rotr m x) i"
  proof (cases "m = 0")
    case True
    then show ?thesis using i by (simp add: bit_word_rotr_iff bit_or_iff)
  next
    case False
    then have c: "(32 - m) mod 32 = 32 - m" using assms by simp
    show ?thesis
    proof (cases "i + m < 32")
      case True
      then have "\<not> 32 - m \<le> i" by simp
      then show ?thesis using True i unfolding c
        by (simp add: bit_word_rotr_iff bit_or_iff bit_drop_bit_eq bit_push_bit_iff add.commute)
    next
      case False
      then have "(i + m) mod 32 = i + m - 32" using i assms by (simp add: le_mod_geq)
      moreover have "\<not> bit x (m + i)" using False top [of "m + i"] by auto
      moreover have "i - (32 - m) = i + m - 32" "32 - m \<le> i" using False assms by simp_all
      ultimately show ?thesis using i unfolding c
        by (simp add: bit_word_rotr_iff bit_or_iff bit_drop_bit_eq bit_push_bit_iff)
    qed
  qed
qed

lemma count_mod: "nat (- n mod 32) = (32 - nat (n mod 32)) mod 32"
proof -
  have "0 \<le> n mod 32" "n mod 32 < 32" by simp_all
  then show ?thesis by (auto simp: zmod_zminus1_eq_if nat_diff_distrib)
qed

lemma S_rotr: "S x n = word_rotr (nat (n mod 32)) x"
  using rotr_shifts [of "nat (n mod 32)" x] by (simp add: S_def shr_def shl_def count_mod nat_less_iff)

lemma LL_rotl: "LL x n = word_rotl (nat (n mod 32)) x"
proof -
  define m where "m = nat (n mod 32)"
  have m: "m < 32" by (simp add: m_def nat_less_iff)
  have "word_rotr 32 x = word_rotr 0 x"
    by (rule bit_word_eqI) (simp add: bit_word_rotr_iff)
  then have "word_rotl m x = word_rotr ((32 - m) mod 32) x"
    using m by (cases "m = 0") (simp_all add: word_rotl_eq_word_rotr)
  also have "\<dots> = drop_bit ((32 - m) mod 32) x OR push_bit ((32 - (32 - m) mod 32) mod 32) x"
    by (rule rotr_shifts [symmetric]) simp
  also have "(32 - (32 - m) mod 32) mod 32 = m" using m by (cases "m = 0") auto
  finally show ?thesis
    by (simp add: LL_def shl_def shr_def count_mod m_def [symmetric] or.commute)
qed

section \<open>Reading back what was written\<close>

lemma bits_append_byte: "length (bits n w) = n"
  by (induction n) simp_all

lemma bits_cong: "(\<And>i. i < n \<Longrightarrow> bit v i = bit w i) \<Longrightarrow> bits n v = bits n w"
  by (induction n) simp_all

lemma bits_Nil [simp]: "bits n w = [] \<longleftrightarrow> n = 0"
  by (cases n) simp_all

lemma binary_bits [simp]: "binary (bits n w)"
  by (induction n) (auto simp: binary_def bitc_def)

lemma binary_append [simp]: "binary (s @ t) \<longleftrightarrow> binary s \<and> binary t"
  by (auto simp: binary_def)

lemma binval_Nil [simp]: "binval [] = 0"
  by (simp add: binval_def)

lemma binval_snoc [simp]: "binval (s @ [c]) = binval s * 2 + (if c = CHR ''1'' then 1 else 0)"
  by (simp add: binval_def)

lemma binval_append: "binval (s @ t) = binval s * 2 ^ length t + binval t"
  by (induction t rule: rev_induct) (simp_all add: algebra_simps flip: append_assoc)

lemma binval_Cons: "binval (c # t) = (if c = CHR ''1'' then 2 ^ length t else 0) + binval t"
  using binval_append [of "[c]" t] by (simp add: binval_def)

lemma binval_bits: "binval (bits n w) = unat (take_bit n w)"
proof (induction n)
  case 0
  then show ?case by simp
next
  case (Suc n)
  have "unat (take_bit (Suc n) w) = of_bool (bit w n) * 2 ^ n + unat (take_bit n w)"
    by (simp add: unsigned_take_bit_eq take_bit_Suc_from_most bit_unsigned_iff exp_eq_zero_iff)
  then show ?case by (simp add: binval_Cons bits_append_byte Suc bitc_def)
qed

lemma stoul2_binary: "binary s \<Longrightarrow> s \<noteq> [] \<Longrightarrow> stoul2 s = Some (binval s)"
proof -
  assume s: "binary s" "s \<noteq> []"
  then have "takeWhile (\<lambda>c. c \<in> {CHR ''0'', CHR ''1''}) s = s"
    by (auto simp: takeWhile_eq_all_conv binary_def)
  then show ?thesis using s(2) unfolding stoul2_def Let_def by (simp only: if_False)
qed

text \<open>Hexadecimal digits of a fixed width.\<close>

fun hexn :: "nat \<Rightarrow> nat \<Rightarrow> string" where
  "hexn 0 n = []"
| "hexn (Suc w) n = hexn w (n div 16) @ [digit_char (n mod 16)]"

lemma length_hexn [simp]: "length (hexn w n) = w"
  by (induction w arbitrary: n) simp_all

lemma digit_char_0: "digit_char 0 = CHR ''0''"
  by code_simp

lemma hexn_0: "hexn w 0 = replicate w CHR ''0''"
  by (induction w) (simp_all add: digit_char_0 flip: replicate_append_same)

lemma setw_hex: "n < 16 ^ Suc w \<Longrightarrow> setw (Suc w) (num_string 16 n) = hexn (Suc w) n"
proof (induction w arbitrary: n)
  case 0
  then show ?case by (simp add: num_string.simps [of 16 n] setw_def)
next
  case (Suc w)
  show ?case
  proof (cases "n < 16")
    case True
    then show ?thesis
      using replicate_append_same [of w "CHR ''0''"]
      by (simp add: num_string.simps [of 16 n] setw_def hexn_0 digit_char_0)
  next
    case False
    then have "num_string 16 n = num_string 16 (n div 16) @ [digit_char (n mod 16)]"
      by (simp add: num_string.simps [of 16 n])
    moreover have "setw (Suc (Suc w)) (s @ [c]) = setw (Suc w) s @ [c]" for s c by (simp add: setw_def)
    moreover have "n div 16 < 16 ^ Suc w" using Suc.prems by (simp add: less_mult_imp_div_less)
    ultimately show ?thesis using Suc.IH [of "n div 16"] by simp
  qed
qed

definition hex2 :: "u8 \<Rightarrow> string" where
  "hex2 b = hexn 2 (unat b)"

lemma length_hex2 [simp]: "length (hex2 b) = 2"
  by (simp add: hex2_def)

lemma take_bit_8 [simp]: "take_bit 8 (b :: u8) = b"
  by (rule bit_word_eqI) (simp add: bit_take_bit_iff)

lemma binval_byte [simp]: "binval (bits 8 (b :: u8)) = unat b"
  by (simp add: binval_bits)

lemma hex_of_byte: "setw 2 (num_string 16 (unat (b :: u8))) = hex2 b"
proof -
  have "unat b < 16 ^ Suc 1" using unsigned_less [of b, where ?'a = nat] by simp
  from setw_hex [OF this] show ?thesis by (simp add: hex2_def numeral_2_eq_2)
qed

definition bits_of :: "bytes \<Rightarrow> string" where
  "bits_of bs = concat (map (bits 8) bs)"

lemma bits_of_simps [simp]:
  "bits_of [] = []" "bits_of (b # bs) = bits 8 b @ bits_of bs" "bits_of (bs @ cs) = bits_of bs @ bits_of cs"
  "length (bits_of bs) = 8 * length bs" "binary (bits_of bs)"
  by (induction bs) (simp_all add: bits_of_def bits_append_byte binary_def [of "[]"])

lemma hex_of_bytes: "binaryStringToHex (bits_of bs) = Some (concat (map hex2 bs))"
proof (induction bs)
  case Nil
  then show ?case by (subst binaryStringToHex.simps) simp
next
  case (Cons b bs)
  have "bits 8 b \<noteq> []" using bits_append_byte [of 8 b] by auto
  then show ?case
    using Cons by (subst binaryStringToHex.simps) (simp add: bits_append_byte hex_of_byte)
qed

text \<open>Words and their bytes, most significant first.\<close>

definition be_word :: "u8 \<Rightarrow> u8 \<Rightarrow> u8 \<Rightarrow> u8 \<Rightarrow> u32" where
  "be_word a b c d = push_bit 24 (ucast a) OR push_bit 16 (ucast b) OR push_bit 8 (ucast c) OR ucast d"

definition be_bytes :: "u32 \<Rightarrow> bytes" where
  "be_bytes w = [ucast (drop_bit 24 w), ucast (drop_bit 16 w), ucast (drop_bit 8 w), ucast w]"

lemma high_bit: "8 \<le> k \<Longrightarrow> \<not> bit (b :: u8) (k + n)"
  using bit_imp_le_length [of b "k + n"] by auto

lemma be_bytes_word [simp]: "be_bytes (be_word a b c d) = [a, b, c, d]"
  by (auto simp: be_bytes_def be_word_def bit_simps high_bit intro!: bit_word_eqI)

lemma be_word_bytes: "be_word (ucast (drop_bit 24 w)) (ucast (drop_bit 16 w)) (ucast (drop_bit 8 w)) (ucast w) = w"
proof (rule bit_word_eqI)
  fix i assume "i < LENGTH(32)"
  then consider "i < 8" | "8 \<le> i" "i < 16" | "16 \<le> i" "i < 24" | "24 \<le> i" "i < 32" by (simp, linarith)
  then show "bit (be_word (ucast (drop_bit 24 w)) (ucast (drop_bit 16 w)) (ucast (drop_bit 8 w)) (ucast w)) i = bit w i"
  proof cases
    case 1
    then show ?thesis by (simp add: be_word_def bit_simps)
  next
    case 2
    then have "8 + (i - 8) = i" "i - 8 < 8" "\<not> i < 8" "\<not> 16 \<le> i" "\<not> 24 \<le> i" by simp_all
    then show ?thesis using 2 by (simp add: be_word_def bit_simps)
  next
    case 3
    then have "16 + (i - 16) = i" "i - 16 < 8" "\<not> i - 8 < 8" "\<not> i < 8" "\<not> 24 \<le> i" by simp_all
    then show ?thesis using 3 by (simp add: be_word_def bit_simps)
  next
    case 4
    then have "24 + (i - 24) = i" "i - 24 < 8" "\<not> i - 16 < 8" "\<not> i - 8 < 8" "\<not> i < 8" by simp_all
    then show ?thesis using 4 by (simp add: be_word_def bit_simps)
  qed
qed

lemma bits_ucast: "n \<le> LENGTH('b) \<Longrightarrow> bits n (ucast (w :: 'a::len word) :: 'b::len word) = bits n w"
  by (induction n) (simp_all add: bit_simps)

lemma bits_drop: "bits (m + n) w = bits m (drop_bit n w) @ bits n w"
  by (induction m) (simp_all add: bit_drop_bit_eq add.commute)

lemma bits_32: "bits 32 w = bits_of (be_bytes w)"
proof -
  have "bits 32 w = bits (8 + (8 + (8 + 8))) w" by simp
  also have "\<dots> = bits_of (be_bytes w)"
    unfolding bits_drop by (simp add: be_bytes_def bits_ucast drop_bit_drop_bit)
  finally show ?thesis .
qed

lemma binval_word: "of_nat (binval (bits_of [a, b, c, d])) = be_word a b c d"
proof -
  have "bits_of [a, b, c, d] = bits 32 (be_word a b c d)" by (simp add: bits_32)
  moreover have "take_bit 32 (be_word a b c d) = be_word a b c d"
    by (rule bit_word_eqI) (simp add: bit_take_bit_iff)
  ultimately show ?thesis by (simp add: binval_bits)
qed

lemma hexn_add: "hexn (m + k) n = hexn m (n div 16 ^ k) @ hexn k n"
  by (induction k arbitrary: n) (simp_all add: div_mult2_eq)

lemma hexn_mod: "hexn k (n mod 16 ^ k) = hexn k n"
proof (induction k arbitrary: n)
  case 0
  then show ?case by simp
next
  case (Suc k)
  have "n mod 16 ^ Suc k div 16 = n div 16 mod 16 ^ k" by (simp add: mod_mult2_eq)
  moreover have "n mod 16 ^ Suc k mod 16 = n mod 16" by (simp add: mod_mod_cancel)
  ultimately show ?case using Suc.IH [of "n div 16"] by simp
qed

lemma hex_word: "hexn 8 (unat (w :: u32)) = concat (map hex2 (be_bytes w))"
proof -
  have "hex2 (ucast (drop_bit k w)) = hexn 2 (unat w div 2 ^ k)" for k
  proof -
    have "unat w < 2 ^ 32" using unsigned_less [of w, where ?'a = nat] by simp
    then have "take_bit 32 (unat w) = unat w" by (rule take_bit_nat_eq_self)
    then have "unat (drop_bit k w) = drop_bit k (unat w)" by (simp add: unsigned_drop_bit_eq)
    then have "unat (drop_bit k w) = unat w div 2 ^ k" by (simp only: drop_bit_eq_div)
    moreover have "unat (ucast (drop_bit k w) :: u8) = take_bit 8 (unat (drop_bit k w))" by (simp add: unsigned_ucast_eq)
    ultimately have "unat (ucast (drop_bit k w) :: u8) = (unat w div 2 ^ k) mod 16 ^ 2"
      by (simp only: take_bit_eq_mod) simp
    then show ?thesis using hexn_mod [of 2 "unat w div 2 ^ k"] by (simp add: hex2_def)
  qed
  from this [of 24] this [of 16] this [of 8] this [of 0]
  have b: "hex2 (ucast (drop_bit 24 w)) = hexn 2 (unat w div 2 ^ 24)" "hex2 (ucast (drop_bit 16 w)) = hexn 2 (unat w div 2 ^ 16)"
    "hex2 (ucast (drop_bit 8 w)) = hexn 2 (unat w div 2 ^ 8)" "hex2 (ucast w) = hexn 2 (unat w)" by simp_all
  have "hexn 8 (unat w) = hexn (2 + (2 + (2 + 2))) (unat w)" by simp
  then show ?thesis unfolding hexn_add by (simp add: be_bytes_def b del: hexn.simps)
qed

lemma word_to_hex: "setw 8 (num_string 16 (unat (w :: u32))) = concat (map hex2 (be_bytes w))"
proof -
  have "unat w < 16 ^ Suc 7" using unsigned_less [of w, where ?'a = nat] by simp
  from setw_hex [OF this] have "setw 8 (num_string 16 (unat w)) = hexn 8 (unat w)" by (simp del: hexn.simps)
  then show ?thesis by (simp only: hex_word)
qed

text \<open>Hexadecimal digits are read back.\<close>

lemma digit_char_value: "d < 16 \<Longrightarrow> hex_value (digit_char d) = Some d"
  by (auto simp: hex_value_def digit_char_def Let_def)

lemma hexval_hexn: "hexval (hexn w n) = n mod 16 ^ w"
proof (induction w arbitrary: n)
  case 0
  then show ?case by (simp add: hexval_def)
next
  case (Suc w)
  have "hexval (s @ [c]) = hexval s * 16 + the (hex_value c)" for s c by (simp add: hexval_def)
  then have "hexval (hexn (Suc w) n) = (n div 16) mod 16 ^ w * 16 + n mod 16"
    using Suc by (simp add: digit_char_value)
  also have "\<dots> = n mod 16 ^ Suc w" using mod_mult2_eq [of n 16 "16 ^ w"] by simp
  finally show ?case .
qed

lemma hexn_digits: "\<forall>c \<in> set (hexn w n). hex_value c \<noteq> None"
  by (induction w arbitrary: n) (auto simp: digit_char_value)

lemma stoul16_hexn: "0 < w \<Longrightarrow> stoul16 (hexn w n) = Some (n mod 16 ^ w)"
proof -
  assume "0 < w"
  then have "hexn w n \<noteq> []" by (cases w) simp_all
  moreover have "takeWhile (\<lambda>c. hex_value c \<noteq> None) (hexn w n) = hexn w n"
    using hexn_digits [of w n] by (simp add: takeWhile_eq_all_conv)
  ultimately show ?thesis unfolding stoul16_def Let_def by (simp only: if_False hexval_hexn)
qed

lemma stoul16_word: "stoul16 (concat (map hex2 (be_bytes w))) = Some (unat (w :: u32))"
proof -
  have "unat w < 16 ^ 8" using unsigned_less [of w, where ?'a = nat] by simp
  then show ?thesis using stoul16_hexn [of 8 "unat w"] by (simp add: hex_word)
qed

lemma stoul2_word: "stoul2 (bits_of [a, b, c, d]) = Some (binval (bits_of [a, b, c, d]))"
proof (rule stoul2_binary)
  show "bits_of [a, b, c, d] \<noteq> []" by simp
qed (rule bits_of_simps)

section \<open>Characters\<close>

text \<open>A \<^verbatim>\<open>char\<close> is signed on the target.\<close>

definition schar :: "char \<Rightarrow> int" where
  "schar c = (let n = of_char c in if n < 128 then n else n - 256)"

lemma schar_code: "(of_char c :: nat) < 128 \<Longrightarrow> schar c = int (of_char c)"
proof -
  have "of_char c = int (of_char c)" by (simp add: of_nat_of_char)
  then show "(of_char c :: nat) < 128 \<Longrightarrow> schar c = int (of_char c)" by (simp add: schar_def Let_def)
qed

definition to_bytes :: "string \<Rightarrow> bytes" where
  "to_bytes s = map (\<lambda>c. of_nat (of_char c)) s"

lemma length_to_bytes [simp]: "length (to_bytes s) = length s"
  by (simp add: to_bytes_def)

text \<open>\<^verbatim>\<open>std::bitset<8>((UI)c)\<close> is the byte of the character, whatever its sign.\<close>

lemma bits_char: "bits 8 (of_int (schar c) :: u32) = bits 8 (of_nat (of_char c) :: u8)"
proof (rule bits_cong)
  fix i :: nat assume "i < 8"
  define n where "n = (of_char c :: int)"
  have n: "n = int (of_char c)" by (simp add: n_def of_nat_of_char)
  have "bit (schar c) i = bit n i"
  proof -
    have "schar c mod 2 ^ 8 = n mod 2 ^ 8"
    proof (cases "n < 128")
      case False
      then have "schar c = n - 2 ^ 8" by (simp add: schar_def n_def)
      then show ?thesis by (simp only: minus_mod_self2)
    qed (simp add: schar_def n_def)
    then have "bit (take_bit 8 (schar c)) i = bit (take_bit 8 n) i" by (simp only: take_bit_eq_mod)
    then show ?thesis using \<open>i < 8\<close> by (simp add: bit_take_bit_iff)
  qed
  then show "bit (of_int (schar c) :: u32) i = bit (of_nat (of_char c) :: u8) i"
    using \<open>i < 8\<close> n by (simp add: bit_simps)
qed

lemma bits_chars: "concat (map (\<lambda>c. bits 8 (of_int (schar c) :: u32)) s) = bits_of (to_bytes s)"
  by (simp add: bits_char bits_of_def to_bytes_def comp_def)

end
