(* ===== verification/Crypto_Hash.thy ===== *)
theory Crypto_Hash
  imports Crypto_Bits
begin

text \<open>
  What SHA-256 and SM3 share, as their standards state it: the padding of a message to blocks of 64 bytes and the
  words of a block. The program pads strings of binary digits instead; the lemmas relate the two.
\<close>

section \<open>The standards' padding\<close>

definition be64 :: "nat \<Rightarrow> bytes" where
  "be64 n = map (\<lambda>i. of_nat (n div 256 ^ (7 - i))) [0..<8]"

definition md_pad :: "bytes \<Rightarrow> bytes" where
  "md_pad msg = msg @ [0x80] @ replicate (nat ((55 - int (length msg)) mod 64)) 0 @ be64 (8 * length msg)"

text \<open>The words of block \<open>i\<close>, and the state after all blocks.\<close>

definition block_words :: "bytes \<Rightarrow> nat \<Rightarrow> u32 list" where
  "block_words p i = map (\<lambda>j. be_word (p ! (64 * i + 4 * j)) (p ! (64 * i + 4 * j + 1)) (p ! (64 * i + 4 * j + 2))
     (p ! (64 * i + 4 * j + 3))) [0..<16]"

definition md_hash :: "('h \<Rightarrow> u32 list \<Rightarrow> 'h) \<Rightarrow> 'h \<Rightarrow> bytes \<Rightarrow> 'h" where
  "md_hash f h msg = (let p = md_pad msg in foldl (\<lambda>h i. f h (block_words p i)) h [0..<length p div 64])"

definition hex_digest :: "u32 list \<Rightarrow> string" where
  "hex_digest ws = concat (map hex2 (concat (map be_bytes ws)))"

lemma length_hex_digest: "length (hex_digest ws) = 8 * length ws"
proof -
  have "length (concat (map hex2 bs)) = 2 * length bs" for bs by (induction bs) simp_all
  moreover have "length (concat (map be_bytes ws)) = 4 * length ws" by (induction ws) (simp_all add: be_bytes_def)
  ultimately show ?thesis by (simp add: hex_digest_def)
qed

lemma hex_digest_chars: "set (hex_digest ws) \<subseteq> set ''0123456789abcdef''"
proof -
  have d: "digit_char d \<in> set ''0123456789abcdef''" if "d < 16" for d
  proof -
    have "list_all (\<lambda>d. digit_char d \<in> set ''0123456789abcdef'') [0, 1, 2, 3, 4, 5, 6, 7, 8, 9, 10, 11, 12, 13, 14, 15]"
      by code_simp
    moreover have "d \<in> set [0, 1, 2, 3, 4, 5, 6, 7, 8, 9, 10, 11, 12, 13, 14, 15]" using that by (simp, presburger)
    ultimately show ?thesis by (simp only: list_all_iff)
  qed
  have "set (hexn w n) \<subseteq> set ''0123456789abcdef''" for w n
  proof (induction w arbitrary: n)
    case 0
    then show ?case by (simp only: hexn.simps list.set(1) empty_subsetI)
  next
    case (Suc w)
    have "set (xs @ [c]) \<subseteq> A" if "set xs \<subseteq> A" "c \<in> A" for xs :: string and c A using that by simp
    then show ?case unfolding hexn.simps using Suc d [of "n mod 16"] by simp
  qed
  then have "set (hex2 b) \<subseteq> set ''0123456789abcdef''" for b unfolding hex2_def .
  then have "set (concat (map hex2 bs)) \<subseteq> set ''0123456789abcdef''" for bs
    by (induction bs) (simp_all only: list.map concat.simps set_append list.set(1) empty_subsetI Un_subset_iff simp_thms)
  then show ?thesis unfolding hex_digest_def .
qed

section \<open>Padding in binary digits\<close>

lemma length_be64 [simp]: "length (be64 n) = 8"
  by (simp add: be64_def)

lemma pad_count:
  fixes n k :: nat
  assumes "int k = (55 - int n) mod 64"
  shows "(n + 9 + k) mod 64 = 0"
proof -
  have "(int n + 9 + (55 - int n) mod 64) mod 64 = (int n + 9 + (55 - int n)) mod 64" by (rule mod_add_right_eq)
  also have "int n + 9 + (55 - int n) = 64" by simp
  finally have "int (n + 9 + k) mod int 64 = 0" unfolding assms [symmetric] by simp
  then have "int ((n + 9 + k) mod 64) = int 0" unfolding zmod_int by simp
  then show ?thesis by (simp only: of_nat_eq_iff)
qed

lemma md_pad_length: "length (md_pad msg) mod 64 = 0"
proof -
  define k where "k = nat ((55 - int (length msg)) mod 64)"
  have "(length msg + 9 + k) mod 64 = 0" by (rule pad_count) (simp add: k_def)
  moreover have "length (md_pad msg) = length msg + 9 + k" by (simp add: md_pad_def k_def)
  ultimately show ?thesis by simp
qed

lemma bits_zeros: "bits_of (replicate n 0) = replicate (8 * n) CHR ''0''"
proof (induction n)
  case 0
  then show ?case by simp
next
  case (Suc n)
  have "bits 8 (0 :: u8) = replicate 8 CHR ''0''" by code_simp
  then show ?case using Suc by (simp flip: replicate_add)
qed

lemma bits_be64: "bits 64 (of_nat n :: 64 word) = bits_of (be64 n)"
proof -
  have b: "bits 8 (drop_bit (8 * k) (of_nat n :: 64 word)) = bits 8 (of_nat (n div 256 ^ k) :: u8)" if "k < 8" for k
  proof (rule bits_cong)
    fix i :: nat assume "i < 8"
    have "(256 :: nat) ^ k = 2 ^ (8 * k)" by (simp add: power_mult)
    then have "n div 256 ^ k = drop_bit (8 * k) n" by (simp add: drop_bit_eq_div)
    then have "bit (n div 256 ^ k) i = bit n (8 * k + i)" by (simp add: bit_drop_bit_eq)
    then show "bit (drop_bit (8 * k) (of_nat n :: 64 word)) i = bit (of_nat (n div 256 ^ k) :: u8) i"
      using \<open>i < 8\<close> that by (simp add: bit_simps)
  qed
  have "bits 64 (of_nat n :: 64 word) = bits (8 + (8 + (8 + (8 + (8 + (8 + (8 + 8))))))) (of_nat n :: 64 word)" by simp
  also have "\<dots> = bits_of (be64 n)"
    using b [of 0] b [of 1] b [of 2] b [of 3] b [of 4] b [of 5] b [of 6] b [of 7]
    unfolding bits_drop by (simp add: be64_def drop_bit_drop_bit upt_rec)
  finally show ?thesis .
qed

lemma pad_zeros:
  fixes n :: nat
  shows "nat ((447 - 8 * int n) mod 512) = 7 + 8 * nat ((55 - int n) mod 64)"
proof -
  define d where "d = (55 - int n) mod 64"
  have d: "0 \<le> d" "d < 64" by (simp_all add: d_def)
  have "447 - 8 * int n = 7 + 8 * (55 - int n)" by simp
  also have "\<dots> mod 512 = (7 + 8 * (55 - int n) mod (8 * 64)) mod 512" by (simp add: mod_add_right_eq)
  also have "\<dots> = (7 + 8 * d) mod 512" by (simp only: mult_mod_right d_def)
  also have "\<dots> = 7 + 8 * d" using d by simp
  finally show ?thesis using d by (simp add: d_def [symmetric] nat_add_distrib nat_mult_distrib)
qed

lemma bits_md_pad:
  "bits_of msg @ ''1'' @ replicate (nat ((447 - 8 * int (length msg)) mod 512)) CHR ''0'' @ bits 64 (of_nat (8 * length msg) :: 64 word) =
     bits_of (md_pad msg)"
proof -
  have "bits 8 (0x80 :: u8) = ''1'' @ replicate 7 CHR ''0''" by code_simp
  then show ?thesis
    unfolding pad_zeros bits_be64 by (simp add: md_pad_def bits_zeros flip: replicate_add)
qed

lemma drop_bits: "drop (8 * n) (bits_of p) = bits_of (drop n p)"
proof (induction p arbitrary: n)
  case Nil
  then show ?case by simp
next
  case (Cons b p)
  then show ?case by (cases n) (simp_all add: bits_append_byte)
qed

lemma take_bits: "take (8 * n) (bits_of p) = bits_of (take n p)"
proof (induction p arbitrary: n)
  case Nil
  then show ?case by simp
next
  case (Cons b p)
  then show ?case by (cases n) (simp_all add: bits_append_byte)
qed

lemma take_4: "m + 4 \<le> length p \<Longrightarrow> take 4 (drop m p) = [p ! m, p ! (m + 1), p ! (m + 2), p ! (m + 3)]"
proof -
  assume m: "m + 4 \<le> length p"
  then have "drop m p = p ! m # p ! (m + 1) # p ! (m + 2) # p ! (m + 3) # drop (m + 4) p"
    by (simp add: Cons_nth_drop_Suc [symmetric] numeral_3_eq_3 numeral_eq_Suc)
  then show ?thesis by simp
qed

lemma word_bits:
  assumes "m + 4 \<le> length p"
  shows "take 32 (drop (8 * m) (bits_of p)) = bits_of [p ! m, p ! (m + 1), p ! (m + 2), p ! (m + 3)]"
proof -
  have "take 32 (drop (8 * m) (bits_of p)) = bits_of (take 4 (drop m p))"
    using take_bits [of 4 "drop m p"] by (simp add: drop_bits)
  then show ?thesis using take_4 [OF assms] by simp
qed

text \<open>A list that a loop extends by one element per turn.\<close>

lemma foldl_extend:
  assumes "\<And>j. a \<le> j \<Longrightarrow> f (map g [0..<j]) j = map g [0..<j] @ [g j]" and "a \<le> n"
  shows "foldl f (map g [0..<a]) [a..<n] = map g [0..<n]"
  using assms(2)
proof (induction n rule: dec_induct)
  case base
  then show ?case by simp
next
  case (step n)
  then show ?case using assms(1) [OF step(1)] by simp
qed

section \<open>A hash function over blocks\<close>

text \<open>
  The interface that both hashes provide: the compression function of the code agrees with the standard's on a block of
  sixteen words. Then so does the whole hash, however the code comes by the words of block \<open>i\<close>.
\<close>

locale block_hash =
  fixes compress :: "'h \<Rightarrow> u32 list \<Rightarrow> 'h" and standard :: "'h \<Rightarrow> u32 list \<Rightarrow> 'h"
  assumes agree: "length M = 16 \<Longrightarrow> compress h M = standard h M"
begin

lemma blocks:
  assumes "\<And>h i. i < N \<Longrightarrow> f h i = compress h (block_words p i)"
  shows "foldl f h [0..<N] = foldl (\<lambda>h i. standard h (block_words p i)) h [0..<N]"
  using assms agree by (intro foldl_cong) (simp_all add: block_words_def)

lemma whole:
  assumes "p = md_pad msg" and "\<And>h i. i < length p div 64 \<Longrightarrow> f h i = compress h (block_words p i)"
  shows "foldl f h [0..<length p div 64] = md_hash standard h msg"
  using blocks [OF assms(2)] by (simp add: md_hash_def Let_def assms(1))

end

lemma md_pad_blocks: "length (md_pad msg) = 64 * (length (md_pad msg) div 64)"
  using md_pad_length [of msg] mult_div_mod_eq [of 64 "length (md_pad msg)"] by linarith

end
