(* ===== verification/Sha256.thy ===== *)
theory Sha256
  imports Crypto_Hash
begin

text \<open>
  SHA-256 as \<^verbatim>\<open>model.cc\<close> computes it on strings of binary digits, against the algorithm of FIPS 180-4 on bytes.
  A failing assertion is \<^const>\<open>None\<close>.
\<close>

section \<open>The code\<close>

function getBin_loop :: "int \<Rightarrow> string \<Rightarrow> string" where
  "getBin_loop x temp =
     (if x \<noteq> 0 then getBin_loop (x sdiv 2) (char_of (nat ((x smod 2 + 48) mod 256)) # temp) else temp)"
  by pat_completeness auto
termination
  by (relation "measure (\<lambda>(x, t). nat (abs x))") (auto simp: signed_divide_int_def abs_mult abs_sgn_eq)
declare getBin_loop.simps [simp del]

definition getBin :: "int \<Rightarrow> string" where
  "getBin x = getBin_loop x []"

function lpad8 :: "string \<Rightarrow> string" where
  "lpad8 temp = (if length temp mod 8 \<noteq> 0 then lpad8 (CHR ''0'' # temp) else temp)"
  by pat_completeness auto
termination
  by (relation "measure (\<lambda>t. (8 - length t mod 8) mod 8)") (auto simp: mod_Suc)
declare lpad8.simps [simp del]

definition addBin :: "string \<Rightarrow> int \<Rightarrow> string" where
  "addBin res x = res @ lpad8 (getBin x)"

definition SHA256_init :: "string \<Rightarrow> string option" where
  "SHA256_init ctx =
     (let res = foldl (\<lambda>res c. addBin res (schar c)) [] ctx;
          temp = getBin (s32 (int (length res)));
          temp = replicate (64 - length temp) CHR ''0'' @ temp
      in if length temp > 64 then None
         else
           let k = unat (((448 - of_nat (length res + 1) mod 512) mod 512 + 512) mod 512 :: 64 word);
               res = res @ ''1'' @ replicate k CHR ''0'' @ temp
           in if length res mod 512 \<noteq> 0 then None else Some res)"

definition o1 :: "u32 \<Rightarrow> u32 \<Rightarrow> u32 \<Rightarrow> u32" where
  "o1 x y z = (x AND y) XOR (NOT x AND z)"

definition o2 :: "u32 \<Rightarrow> u32 \<Rightarrow> u32 \<Rightarrow> u32" where
  "o2 x y z = (x AND y) XOR (x AND z) XOR (y AND z)"

definition o3 :: "u32 \<Rightarrow> u32" where "o3 x = S x 2 XOR S x 13 XOR S x 22"
definition o4 :: "u32 \<Rightarrow> u32" where "o4 x = S x 6 XOR S x 11 XOR S x 25"
definition o5 :: "u32 \<Rightarrow> u32" where "o5 x = S x 7 XOR S x 18 XOR R x 3"
definition o6 :: "u32 \<Rightarrow> u32" where "o6 x = S x 17 XOR S x 19 XOR R x 10"

definition K :: "u32 list" where
  "K =
     [0x428a2f98, 0x71374491, 0xb5c0fbcf, 0xe9b5dba5, 0x3956c25b, 0x59f111f1, 0x923f82a4, 0xab1c5ed5] @
     [0xd807aa98, 0x12835b01, 0x243185be, 0x550c7dc3, 0x72be5d74, 0x80deb1fe, 0x9bdc06a7, 0xc19bf174] @
     [0xe49b69c1, 0xefbe4786, 0x0fc19dc6, 0x240ca1cc, 0x2de92c6f, 0x4a7484aa, 0x5cb0a9dc, 0x76f988da] @
     [0x983e5152, 0xa831c66d, 0xb00327c8, 0xbf597fc7, 0xc6e00bf3, 0xd5a79147, 0x06ca6351, 0x14292967] @
     [0x27b70a85, 0x2e1b2138, 0x4d2c6dfc, 0x53380d13, 0x650a7354, 0x766a0abb, 0x81c2c92e, 0x92722c85] @
     [0xa2bfe8a1, 0xa81a664b, 0xc24b8b70, 0xc76c51a3, 0xd192e819, 0xd6990624, 0xf40e3585, 0x106aa070] @
     [0x19a4c116, 0x1e376c08, 0x2748774c, 0x34b0bcb5, 0x391c0cb3, 0x4ed8aa4a, 0x5b9cca4f, 0x682e6ff3] @
     [0x748f82ee, 0x78a5636f, 0x84c87814, 0x8cc70208, 0x90befffa, 0xa4506ceb, 0xbef9a3f7, 0xc67178f2]"

text \<open>\<^verbatim>\<open>std::hex\<close> prints an \<^verbatim>\<open>int\<close> as the unsigned number of the same bits.\<close>

definition intToHex :: "u32 \<Rightarrow> string" where
  "intToHex w = setw 8 (num_string 16 (unat w))"

text \<open>The words of the block that starts at \<open>base\<close>, the message schedule, a round and a block.\<close>

definition sha_M :: "string \<Rightarrow> nat \<Rightarrow> u32 list" where
  "sha_M ctx base = map (\<lambda>j. foldl (\<lambda>m c. m * 2 + of_int (schar c) - 48) 0 (take 32 (drop (base + j * 32) ctx))) [0..<16]"

definition sha_W :: "u32 list \<Rightarrow> u32 list" where
  "sha_W M = foldl (\<lambda>W j. W @ [o6 (W ! (j - 2)) + W ! (j - 7) + o5 (W ! (j - 15)) + W ! (j - 16)]) M [16..<64]"

type_synonym sha_chain = "u32 \<times> u32 \<times> u32 \<times> u32 \<times> u32 \<times> u32 \<times> u32 \<times> u32"

definition sha_round :: "u32 list \<Rightarrow> sha_chain \<Rightarrow> nat \<Rightarrow> sha_chain" where
  "sha_round W v j = (case v of (a, b, c, d, e, f, g, h) \<Rightarrow>
     let t1 = h + o4 e + o1 e f g + K ! j + W ! j;
         t2 = o3 a + o2 a b c;
         h = g; g = f; f = e; e = d + t1; d = c; c = b; b = a; a = t1 + t2
     in (a, b, c, d, e, f, g, h))"

definition sha_block :: "sha_chain \<Rightarrow> u32 list \<Rightarrow> sha_chain" where
  "sha_block H W = (case foldl (sha_round W) H [0..<64] of (a, b, c, d, e, f, g, h) \<Rightarrow>
     case H of (a', b', c', d', e', f', g', h') \<Rightarrow>
       (a + a', b + b', c + c', d + d', e + e', f + f', g + g', h + h'))"

definition sha_H0 :: sha_chain where
  "sha_H0 = (0x6a09e667, 0xbb67ae85, 0x3c6ef372, 0xa54ff53a, 0x510e527f, 0x9b05688c, 0x1f83d9ab, 0x5be0cd19)"

definition chain_list :: "sha_chain \<Rightarrow> u32 list" where
  "chain_list v = (case v of (a, b, c, d, e, f, g, h) \<Rightarrow> [a, b, c, d, e, f, g, h])"

text \<open>The decimal string that is returned, and the hexadecimal one.\<close>

definition SHA256_operate :: "string \<Rightarrow> string \<times> string" where
  "SHA256_operate ctx =
     (let N = length ctx div 512;
          H = foldl (\<lambda>H i. sha_block H (sha_W (sha_M ctx ((i - 1) * 512)))) sha_H0 [1..<N + 1]
      in (concat (map (setw 32 \<circ> num_string 10 \<circ> unat) (chain_list H)), concat (map intToHex (chain_list H))))"

definition encodePwdBySha256 :: "string \<Rightarrow> (string \<times> string) option" where
  "encodePwdBySha256 pwd = map_option SHA256_operate (SHA256_init pwd)"

section \<open>FIPS 180-4\<close>

definition Ch :: "u32 \<Rightarrow> u32 \<Rightarrow> u32 \<Rightarrow> u32" where "Ch x y z = (x AND y) XOR (NOT x AND z)"
definition Maj :: "u32 \<Rightarrow> u32 \<Rightarrow> u32 \<Rightarrow> u32" where "Maj x y z = (x AND y) XOR (x AND z) XOR (y AND z)"
definition BSig0 :: "u32 \<Rightarrow> u32" where "BSig0 x = word_rotr 2 x XOR word_rotr 13 x XOR word_rotr 22 x"
definition BSig1 :: "u32 \<Rightarrow> u32" where "BSig1 x = word_rotr 6 x XOR word_rotr 11 x XOR word_rotr 25 x"
definition SSig0 :: "u32 \<Rightarrow> u32" where "SSig0 x = word_rotr 7 x XOR word_rotr 18 x XOR drop_bit 3 x"
definition SSig1 :: "u32 \<Rightarrow> u32" where "SSig1 x = word_rotr 17 x XOR word_rotr 19 x XOR drop_bit 10 x"

fun fips_W :: "u32 list \<Rightarrow> nat \<Rightarrow> u32" where
  "fips_W M t = (if t < 16 then M ! t
     else SSig1 (fips_W M (t - 2)) + fips_W M (t - 7) + SSig0 (fips_W M (t - 15)) + fips_W M (t - 16))"
declare fips_W.simps [simp del]

fun fips_rounds :: "u32 list \<Rightarrow> nat \<Rightarrow> sha_chain \<Rightarrow> sha_chain" where
  "fips_rounds M 0 v = v"
| "fips_rounds M (Suc t) v = (case fips_rounds M t v of (a, b, c, d, e, f, g, h) \<Rightarrow>
     let T1 = h + BSig1 e + Ch e f g + K ! t + fips_W M t; T2 = BSig0 a + Maj a b c
     in (T1 + T2, a, b, c, d + T1, e, f, g))"

definition fips_compress :: "sha_chain \<Rightarrow> u32 list \<Rightarrow> sha_chain" where
  "fips_compress H M = (case (H, fips_rounds M 64 H) of ((a', b', c', d', e', f', g', h'), (a, b, c, d, e, f, g, h)) \<Rightarrow>
     (a + a', b + b', c + c', d + d', e + e', f + f', g + g', h + h'))"

definition fips_sha256 :: "bytes \<Rightarrow> string" where
  "fips_sha256 msg = hex_digest (chain_list (md_hash fips_compress sha_H0 msg))"

text \<open>
  The constants are those of the standard: the first 32 bits of the fractional parts of the cube roots of the
  first 64 primes, and of the square roots of the first 8.
\<close>

definition primes64 :: "nat list" where
  "primes64 = [2, 3, 5, 7, 11, 13, 17, 19, 23, 29, 31, 37, 41, 43, 47, 53, 59, 61, 67, 71, 73, 79, 83, 89, 97, 101, 103, 107,
     109, 113, 127, 131, 137, 139, 149, 151, 157, 163, 167, 173, 179, 181, 191, 193, 197, 199, 211, 223, 227, 229, 233, 239,
     241, 251, 257, 263, 269, 271, 277, 281, 283, 293, 307, 311]"

definition root_bits :: "nat \<Rightarrow> nat \<Rightarrow> nat \<Rightarrow> nat \<Rightarrow> bool" where
  "root_bits r q p w \<longleftrightarrow> q ^ r \<le> p \<and> p < (q + 1) ^ r \<and>
     (q * 2 ^ 32 + w) ^ r \<le> p * 2 ^ (32 * r) \<and> p * 2 ^ (32 * r) < (q * 2 ^ 32 + w + 1) ^ r"

definition roots64 :: "nat list" where
  "roots64 = [1, 1, 1, 1, 2, 2, 2, 2, 2, 3, 3, 3, 3, 3, 3, 3, 3, 3, 4, 4, 4, 4, 4, 4, 4, 4, 4, 4, 4, 4, 5, 5,
     5, 5, 5, 5, 5, 5, 5, 5, 5, 5, 5, 5, 5, 5, 5, 6, 6, 6, 6, 6, 6, 6, 6, 6, 6, 6, 6, 6, 6, 6, 6, 6]"

lemma K_cube_roots: "list_all (\<lambda>(q, p, w). root_bits 3 q p w) (zip roots64 (zip primes64 (map unat K))) \<and> length K = 64"
proof -
  have "map unat K = [1116352408, 1899447441, 3049323471, 3921009573, 961987163, 1508970993, 2453635748, 2870763221,
     3624381080, 310598401, 607225278, 1426881987, 1925078388, 2162078206, 2614888103, 3248222580,
     3835390401, 4022224774, 264347078, 604807628, 770255983, 1249150122, 1555081692, 1996064986,
     2554220882, 2821834349, 2952996808, 3210313671, 3336571891, 3584528711, 113926993, 338241895,
     666307205, 773529912, 1294757372, 1396182291, 1695183700, 1986661051, 2177026350, 2456956037,
     2730485921, 2820302411, 3259730800, 3345764771, 3516065817, 3600352804, 4094571909, 275423344,
     430227734, 506948616, 659060556, 883997877, 958139571, 1322822218, 1537002063, 1747873779,
     1955562222, 2024104815, 2227730452, 2361852424, 2428436474, 2756734187, 3204031479, 3329325298]"
    by (simp add: K_def)
  moreover have "length K = 64" by (simp add: K_def)
  ultimately show ?thesis by (simp add: roots64_def primes64_def root_bits_def del: One_nat_def)
qed

lemma H0_square_roots:
  "list_all (\<lambda>(q, p, w). root_bits 2 q p w) (zip [1, 1, 2, 2, 3, 3, 4, 4] (zip primes64 (map unat (chain_list sha_H0))))"
proof -
  have "map unat (chain_list sha_H0) = [0x6a09e667, 0xbb67ae85, 0x3c6ef372, 0xa54ff53a, 0x510e527f, 0x9b05688c, 0x1f83d9ab, 0x5be0cd19]"
    by (simp add: sha_H0_def chain_list_def)
  then show ?thesis by (simp add: primes64_def root_bits_def del: One_nat_def)
qed

section \<open>The code computes it\<close>

lemma sigma: "o1 = Ch" "o2 = Maj" "o3 = BSig0" "o4 = BSig1" "o5 = SSig0" "o6 = SSig1"
  by (simp_all add: fun_eq_iff o1_def Ch_def o2_def Maj_def o3_def BSig0_def o4_def BSig1_def o5_def SSig0_def o6_def SSig1_def
      S_rotr R_def shr_def)

lemma schedule:
  assumes "length M = 16"
  shows "sha_W M = map (fips_W M) [0..<64]"
proof -
  define f where "f = (\<lambda>W j. W @ [o6 (W ! (j - 2)) + W ! (j - 7) + o5 (W ! (j - 15)) + W ! (j - 16)])"
  have "f (map (fips_W M) [0..<j]) j = map (fips_W M) [0..<j] @ [fips_W M j]" if j: "16 \<le> j" for j
  proof -
    have "fips_W M j = SSig1 (fips_W M (j - 2)) + fips_W M (j - 7) + SSig0 (fips_W M (j - 15)) + fips_W M (j - 16)"
      using j by (subst fips_W.simps) simp
    moreover have "j - 2 < j" "j - 7 < j" "j - 15 < j" "j - 16 < j" using j by simp_all
    ultimately show ?thesis by (simp only: f_def sigma nth_map_upt) simp
  qed
  then have "foldl f (map (fips_W M) [0..<16]) [16..<64] = map (fips_W M) [0..<64]"
    by (rule foldl_extend [where f = f and g = "fips_W M"]) simp_all
  moreover have "fips_W M i = M ! i" if "i < 16" for i
    using that by (subst fips_W.simps) simp
  then have "map (fips_W M) [0..<length M] = map (nth M) [0..<length M]"
    by (intro map_cong refl) (simp only: assms set_upt atLeastLessThan_iff)
  then have "map (fips_W M) [0..<length M] = M" by (simp only: map_nth)
  then have "map (fips_W M) [0..<16] = M" by (simp only: assms)
  ultimately have "foldl f M [16..<64] = map (fips_W M) [0..<64]" by (simp only:)
  then show ?thesis unfolding sha_W_def f_def .
qed

lemma rounds: "length M = 16 \<Longrightarrow> n \<le> 64 \<Longrightarrow> foldl (sha_round (sha_W M)) v [0..<n] = fips_rounds M n v"
proof (induction n)
  case 0
  then show ?case by simp
next
  case (Suc n)
  then show ?case by (simp add: sha_round_def schedule sigma Let_def split: prod.split)
qed

lemma sha_block_fips: "length M = 16 \<Longrightarrow> sha_block H (sha_W M) = fips_compress H M"
  by (simp add: sha_block_def fips_compress_def rounds split: prod.splits)

subsection \<open>The padded string\<close>

lemma getBin_loop_acc: "getBin_loop x t = getBin x @ t"
proof -
  have "getBin_loop x t = getBin_loop x [] @ t"
  proof (induction "nat (abs x)" arbitrary: x t rule: less_induct)
    case less
    show ?case
    proof (cases "x = 0")
      case True
      then show ?thesis by (simp add: getBin_loop.simps)
    next
      case False
      let ?c = "char_of (nat ((x smod 2 + 48) mod 256)) :: char"
      have "nat (abs (x sdiv 2)) < nat (abs x)" using False by (simp add: signed_divide_int_def abs_mult abs_sgn_eq)
      then have "getBin_loop (x sdiv 2) (?c # t) = getBin_loop (x sdiv 2) [] @ ?c # t"
        "getBin_loop (x sdiv 2) [?c] = getBin_loop (x sdiv 2) [] @ [?c]"
        using less [of "x sdiv 2"] by blast+
      then show ?thesis using False by (subst (1 2) getBin_loop.simps) simp
    qed
  qed
  then show ?thesis by (simp add: getBin_def)
qed

lemma getBin_nat:
  "getBin (int n) = (if n = 0 then [] else getBin (int (n div 2)) @ [bitc (odd n)])"
proof (cases "n = 0")
  case True
  then show ?thesis by (simp add: getBin_def getBin_loop.simps)
next
  case False
  have "int n sdiv 2 = int (n div 2)" "int n smod 2 = int (n mod 2)"
    using False by (simp_all add: signed_divide_int_def signed_modulo_int_def zdiv_int zmod_int)
  moreover have "char_of (nat ((int (n mod 2) + 48) mod 256)) = bitc (odd n)"
  proof (cases "odd n")
    case True
    then have "int (n mod 2) = 1" by presburger
    moreover have "char_of (49 :: nat) = CHR ''1''" by code_simp
    ultimately show ?thesis using True by (simp add: bitc_def)
  next
    case False
    then have "int (n mod 2) = 0" by presburger
    moreover have "char_of (48 :: nat) = CHR ''0''" by code_simp
    ultimately show ?thesis using False by (simp add: bitc_def)
  qed
  ultimately show ?thesis
    using False getBin_loop_acc [of "int (n div 2)"] by (simp add: getBin_def [of "int n"] getBin_loop.simps [of "int n"])
qed

text \<open>Padded to a width, it is the string of a bit set.\<close>

lemma bits_half: "Suc k \<le> LENGTH('a) \<Longrightarrow> bits (Suc k) (of_nat n :: 'a::len word) = bits k (of_nat (n div 2) :: 'a word) @ [bitc (odd n)]"
proof -
  assume k: "Suc k \<le> LENGTH('a)"
  have "bits k (drop_bit 1 (of_nat n :: 'a word)) = bits k (of_nat (n div 2) :: 'a word)"
  proof (rule bits_cong)
    fix i assume "i < k"
    have "bit (drop_bit 1 (of_nat n :: 'a word)) i = bit (of_nat n :: 'a word) (1 + i)"
      by (simp only: bit_drop_bit_eq comp_def)
    also have "\<dots> = bit n (Suc i)" using \<open>i < k\<close> k by (simp add: bit_simps)
    also have "\<dots> = bit (of_nat (n div 2) :: 'a word) i" using \<open>i < k\<close> k by (simp add: bit_simps bit_Suc)
    finally show "bit (drop_bit 1 (of_nat n :: 'a word)) i = bit (of_nat (n div 2) :: 'a word) i" .
  qed
  moreover have "bits 1 (of_nat n :: 'a word) = [bitc (odd n)]"
    by (simp add: bit_0)
  ultimately show ?thesis using bits_drop [of k 1 "of_nat n :: 'a word"] by (simp del: bits.simps)
qed

lemma getBin_bits:
  "n < 2 ^ k \<Longrightarrow> k \<le> LENGTH('a) \<Longrightarrow> length (getBin (int n)) \<le> k \<and>
     replicate (k - length (getBin (int n))) CHR ''0'' @ getBin (int n) = bits k (of_nat n :: 'a::len word)"
proof (induction k arbitrary: n)
  case 0
  then show ?case using getBin_nat [of 0] by simp
next
  case (Suc k)
  have half: "n div 2 < 2 ^ k" using Suc.prems(1) by simp
  note ih = Suc.IH [OF half]
  have b: "bits (Suc k) (of_nat n :: 'a word) = bits k (of_nat (n div 2) :: 'a word) @ [bitc (odd n)]"
    using Suc.prems(2) by (rule bits_half)
  show ?case
  proof (cases "n = 0")
    case True
    then show ?thesis using ih Suc.prems(2) b getBin_nat [of 0] replicate_append_same [of k "CHR ''0''"]
      by (simp add: bitc_def del: bits.simps)
  next
    case False
    then show ?thesis using ih Suc.prems(2) b by (simp add: getBin_nat [of n] del: bits.simps)
  qed
qed

lemma lpad8_zeros: "length t \<le> 8 \<Longrightarrow> t \<noteq> [] \<Longrightarrow> lpad8 t = replicate (8 - length t) CHR ''0'' @ t"
proof (induction "8 - length t" arbitrary: t)
  case 0
  then show ?case by (simp add: lpad8.simps)
next
  case (Suc n)
  then have "length t mod 8 \<noteq> 0" by (cases t) (simp_all add: mod_less)
  moreover have "lpad8 (CHR ''0'' # t) = replicate (8 - length (CHR ''0'' # t)) CHR ''0'' @ CHR ''0'' # t"
    using Suc by (intro Suc(1)) simp_all
  moreover have "8 - length t = Suc (8 - length (CHR ''0'' # t))" using Suc(2) by simp
  ultimately show ?case using lpad8.simps [of t] by (simp add: replicate_app_Cons_same)
qed

definition ascii :: "string \<Rightarrow> bool" where
  "ascii s \<longleftrightarrow> (\<forall>c \<in> set s. 0 < (of_char c :: nat) \<and> (of_char c :: nat) < 128)"

lemma addBin_char:
  assumes "0 < (of_char c :: nat)" and "(of_char c :: nat) < 128"
  shows "addBin res (schar c) = res @ bits 8 (of_nat (of_char c) :: u8)"
proof -
  let ?n = "of_char c :: nat"
  have s: "schar c = int ?n" using assms(2) by (simp add: schar_code)
  have "?n < 2 ^ 8" using assms(2) by simp
  from getBin_bits [OF this, where ?'a = 8]
  have b: "length (getBin (int ?n)) \<le> 8" "replicate (8 - length (getBin (int ?n))) CHR ''0'' @ getBin (int ?n) = bits 8 (of_nat ?n :: u8)"
    by simp_all
  have "getBin (int ?n) \<noteq> []" using assms(1) by (simp add: getBin_nat [of ?n])
  then show ?thesis using b lpad8_zeros [OF b(1)] by (simp add: addBin_def s)
qed

lemma foldl_addBin: "ascii s \<Longrightarrow> foldl (\<lambda>res c. addBin res (schar c)) r s = r @ bits_of (to_bytes s)"
proof (induction s arbitrary: r)
  case Nil
  then show ?case by (simp add: to_bytes_def)
next
  case (Cons c s)
  have "0 < (of_char c :: nat)" "(of_char c :: nat) < 128" "ascii s" using Cons.prems by (simp_all add: ascii_def)
  then show ?case using Cons.IH addBin_char [of c r] by (simp add: to_bytes_def)
qed

lemma unat_of_nat64: "n < 2 ^ 64 \<Longrightarrow> unat (of_nat n :: 64 word) = n"
  by (simp add: unsigned_of_nat take_bit_nat_eq_self)

lemma wrapped_pad:
  assumes "L < 2147483648"
  shows "unat (((448 - of_nat (L + 1) mod 512) mod 512 + 512) mod 512 :: 64 word) = nat ((447 - int L) mod 512)"
proof -
  define r where "r = (int L + 1) mod 512"
  have r: "0 \<le> r" "r < 512" by (simp_all add: r_def)
  have m: "uint (of_nat (L + 1) mod 512 :: 64 word) = r"
  proof -
    have "uint (of_nat (L + 1) :: 64 word) = int L + 1"
      using assms unat_of_nat64 [of "L + 1"] by (simp del: of_nat_Suc of_nat_add add: uint_nat)
    then show ?thesis by (simp only: uint_mod r_def) simp
  qed
  define w where "w = (of_nat (L + 1) mod 512 :: 64 word)"
  have "uint (448 - w) = (448 - r) mod 2 ^ 64"
    using m unfolding w_def [symmetric] uint_word_ariths by simp
  then have "uint (448 - w) mod 512 = (448 - r) mod 512"
    by (simp add: mod_mod_cancel)
  then have a: "uint ((448 - w) mod 512) = (448 - r) mod 512" unfolding uint_mod by simp
  then have "uint ((448 - w) mod 512 + 512) = ((448 - r) mod 512 + 512) mod 2 ^ 64"
    unfolding uint_word_ariths by simp
  moreover have "0 \<le> (448 - r) mod 512" "(448 - r) mod 512 < 512" by simp_all
  ultimately have "uint ((448 - w) mod 512 + 512) = (448 - r) mod 512 + 512" by (simp add: mod_pos_pos_trivial)
  then have "uint (((448 - w) mod 512 + 512) mod 512) = (448 - r) mod 512" unfolding uint_mod by simp
  moreover have "(448 - r) mod 512 = (447 - int L) mod 512" by (simp add: r_def mod_diff_right_eq)
  ultimately have "uint (((448 - w) mod 512 + 512) mod 512) = (447 - int L) mod 512" by (rule trans)
  then show ?thesis unfolding w_def by (simp only: unat_eq_nat_uint)
qed

lemma SHA256_init_pad:
  assumes "ascii pwd" and "8 * length pwd < 2147483648"
  shows "SHA256_init pwd = Some (bits_of (md_pad (to_bytes pwd)))"
proof -
  define L where "L = 8 * length pwd"
  have L: "L < 2147483648" using assms(2) by (simp add: L_def)
  define res where "res = bits_of (to_bytes pwd)"
  have res: "foldl (\<lambda>res c. addBin res (schar c)) [] pwd = res" "length res = L"
    using foldl_addBin [OF assms(1), of "[]"] by (simp_all add: res_def L_def)
  have s32: "s32 (int L) = int L" using L by (simp add: s32_id)
  have "L < 2 ^ 64" using L by simp
  from getBin_bits [OF this, where ?'a = 64]
  have t: "length (getBin (int L)) \<le> 64"
    "replicate (64 - length (getBin (int L))) CHR ''0'' @ getBin (int L) = bits 64 (of_nat L :: 64 word)" by simp_all
  have "length (bits 64 (of_nat L :: 64 word)) = 64" by (rule bits_append_byte)
  moreover have "res @ ''1'' @ replicate (nat ((447 - int L) mod 512)) CHR ''0'' @ bits 64 (of_nat L :: 64 word) = bits_of (md_pad (to_bytes pwd))"
    using bits_md_pad [of "to_bytes pwd"] by (simp add: res_def L_def)
  moreover have "length (bits_of (md_pad (to_bytes pwd))) mod 512 = 0"
    using mult_mod_right [of 8 "length (md_pad (to_bytes pwd))" 64] md_pad_length [of "to_bytes pwd"] by simp
  ultimately show ?thesis
    unfolding SHA256_init_def Let_def res s32 t(2) wrapped_pad [OF L] by simp
qed

subsection \<open>The words of the blocks\<close>

lemma binary_word:
  assumes "binary s"
  shows "foldl (\<lambda>m c. m * 2 + of_int (schar c) - 48) (0 :: u32) s = of_nat (binval s)"
  using assms
proof (induction s rule: rev_induct)
  case Nil
  then show ?case by simp
next
  case (snoc c s)
  have c: "c = CHR ''0'' \<or> c = CHR ''1''" using snoc.prems by (auto simp: binary_def)
  have "schar CHR ''0'' = 48" "schar CHR ''1'' = 49" by code_simp+
  then have "of_int (schar c) - 48 = (if c = CHR ''1'' then 1 else 0 :: u32)" using c by auto
  then have "m + of_int (schar c) - 48 = m + (if c = CHR ''1'' then 1 else 0 :: u32)" for m
    by (simp add: add_diff_eq [symmetric])
  then show ?case using snoc by (simp del: add_diff_eq)
qed

lemma sha_M_block:
  assumes "length p = 64 * N" and "i < N"
  shows "sha_M (bits_of p) (i * 512) = block_words p i"
proof -
  have "foldl (\<lambda>m c. m * 2 + of_int (schar c) - 48) (0 :: u32) (take 32 (drop (i * 512 + j * 32) (bits_of p))) =
      be_word (p ! (64 * i + 4 * j)) (p ! (64 * i + 4 * j + 1)) (p ! (64 * i + 4 * j + 2)) (p ! (64 * i + 4 * j + 3))"
    if j: "j < 16" for j
  proof -
    let ?m = "64 * i + 4 * j"
    have "64 * (i + 1) \<le> 64 * N" using assms(2) by (intro mult_le_mono2) simp
    then have "?m + 4 \<le> length p" using assms(1) j by simp
    from word_bits [OF this]
    have t: "take 32 (drop (i * 512 + j * 32) (bits_of p)) = bits_of [p ! ?m, p ! (?m + 1), p ! (?m + 2), p ! (?m + 3)]"
      by (simp add: algebra_simps)
    show ?thesis unfolding t by (subst binary_word [OF bits_of_simps(5)]) (rule binval_word)
  qed
  then show ?thesis unfolding sha_M_def block_words_def
    by (intro map_cong refl) (simp only: set_upt atLeastLessThan_iff)
qed

lemma chain_hex: "concat (map intToHex ws) = hex_digest ws"
  by (induction ws) (simp_all add: hex_digest_def intToHex_def word_to_hex)

interpretation sha: block_hash "\<lambda>H M. sha_block H (sha_W M)" fips_compress
  by unfold_locales (rule sha_block_fips)

lemma operate_md:
  "snd (SHA256_operate (bits_of (md_pad msg))) = hex_digest (chain_list (md_hash fips_compress sha_H0 msg))"
proof -
  define p where "p = md_pad msg"
  have N: "length (bits_of p) div 512 = length p div 64"
    using md_pad_blocks [of msg] by (simp add: p_def div_mult2_eq [of _ 8 64, simplified])
  define f where "f = (\<lambda>H i. sha_block H (sha_W (sha_M (bits_of p) (i * 512))))"
  have "[1..<length p div 64 + 1] = map Suc [0..<length p div 64]" by (simp add: map_Suc_upt)
  then have "foldl (\<lambda>H i. sha_block H (sha_W (sha_M (bits_of p) ((i - 1) * 512)))) sha_H0 [1..<length p div 64 + 1] =
      foldl f sha_H0 [0..<length p div 64]"
    by (simp add: foldl_map f_def)
  also have "\<dots> = md_hash fips_compress sha_H0 msg"
    by (rule sha.whole [OF p_def]) (simp add: f_def p_def sha_M_block [OF md_pad_blocks])
  finally show ?thesis unfolding p_def [symmetric] by (simp add: SHA256_operate_def N Let_def chain_hex)
qed

lemma sha256_fips:
  assumes "ascii pwd" and "8 * length pwd < 2147483648"
  shows "map_option snd (encodePwdBySha256 pwd) = Some (fips_sha256 (to_bytes pwd))"
  unfolding encodePwdBySha256_def SHA256_init_pad [OF assms] fips_sha256_def by (simp add: operate_md)

text \<open>
  C33: for a password of ASCII characters (none of them zero) shorter than 2^28 bytes, \<^verbatim>\<open>encodePwdBySha256\<close> passes
  its assertions and its hexadecimal result is the SHA-256 digest of FIPS 180-4 on the password's bytes: the padding
  built from strings of binary digits, the message schedule and the 64 rounds of each block compute the standard's.
\<close>

theorem sha256_is_fips:
  assumes "ascii pwd" and "8 * length pwd < 2147483648"
  shows "map_option snd (encodePwdBySha256 pwd) = Some (fips_sha256 (to_bytes pwd))"
  using assms by (rule sha256_fips)

lemma sha256_is_fips_witness:
  "map_option snd (encodePwdBySha256 ''abc'') = Some (fips_sha256 [0x61, 0x62, 0x63])"
proof -
  have "ascii ''abc''" by (simp add: ascii_def)
  moreover have "to_bytes ''abc'' = [0x61, 0x62, 0x63]" by (simp add: to_bytes_def)
  ultimately show ?thesis using sha256_is_fips [of "''abc''"] by simp
qed

lemma getBin_0: "getBin 0 = []"
  by (simp add: getBin_def getBin_loop.simps)

text \<open>
  A zero character adds nothing to the padded message, since \<^verbatim>\<open>getBin\<close> of zero is the empty string: a password
  hashes to the digest of the password without its zero bytes.
\<close>

theorem zero_bytes_vanish:
  "encodePwdBySha256 (filter (\<lambda>c. c \<noteq> CHR 0x00) pwd) = encodePwdBySha256 pwd"
proof -
  have "schar CHR 0x00 = 0" by code_simp
  then have z: "addBin r (schar CHR 0x00) = r" for r by (simp add: addBin_def getBin_0 lpad8.simps)
  have "foldl (\<lambda>res c. addBin res (schar c)) r (filter (\<lambda>c. c \<noteq> CHR 0x00) pwd) = foldl (\<lambda>res c. addBin res (schar c)) r pwd" for r
    by (induction pwd arbitrary: r) (auto simp: z)
  then show ?thesis by (simp add: encodePwdBySha256_def SHA256_init_def)
qed

text \<open>A character of 128 or more is negative, and its remainders print as other characters.\<close>

lemma high_byte_digits: "addBin [] (schar CHR 0x80) = ''/0000000'' \<and> addBin [] (schar CHR 0xff) = ''0000000/''"
proof
  show "addBin [] (schar CHR 0x80) = ''/0000000''" by code_simp
  show "addBin [] (schar CHR 0xff) = ''0000000/''" by code_simp
qed

end
