(* ===== verification/Sm3.thy ===== *)
theory Sm3
  imports Crypto_Hash
begin

text \<open>
  SM3 as \<^verbatim>\<open>model.cc\<close> computes it, against the algorithm of GM/T 0004 on bytes. A failing assertion or a thrown
  exception is \<^const>\<open>None\<close>.
\<close>

section \<open>The code\<close>

definition sm3_init :: "string \<Rightarrow> (nat \<times> string) option" where
  "sm3_init str =
     (let l = s32 (int (length str));
          k = (448 - s32 (l + 1) smod 512 + 512) smod 512;
          str = str @ ''1'' @ replicate (nat k) CHR ''0'' @ bits 64 (of_int l :: 64 word)
      in if length str mod 512 \<noteq> 0 then None else Some (length str div 512, str))"

definition sm3_word :: "string \<Rightarrow> nat \<Rightarrow> nat \<Rightarrow> u32 option" where
  "sm3_word str i j = map_option of_nat (Option.bind (substr str (i * 512 + j * 32) 32) stoul2)"

definition sm3_init_B :: "string \<Rightarrow> nat \<Rightarrow> u32 list list option" where
  "sm3_init_B str n = those (map (\<lambda>i. those (map (sm3_word str i) [0..<16])) [0..<n])"

definition FF :: "nat \<Rightarrow> u32 \<Rightarrow> u32 \<Rightarrow> u32 \<Rightarrow> u32" where
  "FF j x y z = (if j \<le> 15 then x XOR y XOR z else (x AND y) OR (x AND z) OR (y AND z))"

definition GG :: "nat \<Rightarrow> u32 \<Rightarrow> u32 \<Rightarrow> u32 \<Rightarrow> u32" where
  "GG j x y z = (if j \<le> 15 then x XOR y XOR z else (x AND y) OR (NOT x AND z))"

definition P0 :: "u32 \<Rightarrow> u32" where "P0 x = x XOR LL x 9 XOR LL x 17"
definition P1 :: "u32 \<Rightarrow> u32" where "P1 x = x XOR LL x 15 XOR LL x 23"

definition messageExtend :: "u32 list \<Rightarrow> u32 list \<times> u32 list" where
  "messageExtend B =
     (let W = foldl (\<lambda>W j. W @ [P1 (W ! (j - 16) XOR W ! (j - 9) XOR LL (W ! (j - 3)) 15) XOR LL (W ! (j - 13)) 7 XOR W ! (j - 6)])
            B [16..<68]
      in (W, map (\<lambda>j. W ! j XOR W ! (j + 4)) [0..<64]))"

definition sm3_T :: "nat \<Rightarrow> u32" where
  "sm3_T j = (if j \<ge> 16 then 0x7a879d8a else 0x79cc4519)"

type_synonym sm3_chain = "u32 \<times> u32 \<times> u32 \<times> u32 \<times> u32 \<times> u32 \<times> u32 \<times> u32"

definition sm3_round :: "u32 list \<Rightarrow> u32 list \<Rightarrow> sm3_chain \<Rightarrow> nat \<Rightarrow> sm3_chain" where
  "sm3_round W W1 v j = (case v of (A, B, C, D, E, F, G, H) \<Rightarrow>
     let SS1 = LL (LL A 12 + E + LL (sm3_T j) (int j)) 7;
         SS2 = SS1 XOR LL A 12;
         TT1 = FF j A B C + D + SS2 + W1 ! j;
         TT2 = GG j E F G + H + SS1 + W ! j;
         D = C; C = LL B 9; B = A; A = TT1;
         H = G; G = LL F 19; F = E; E = P0 TT2
     in (A, B, C, D, E, F, G, H))"

definition CF :: "u32 list \<Rightarrow> sm3_chain \<Rightarrow> sm3_chain" where
  "CF B v = (case messageExtend B of (W, W1) \<Rightarrow> case foldl (sm3_round W W1) v [0..<64] of (A, B, C, D, E, F, G, H) \<Rightarrow>
     case v of (a, b, c, d, e, f, g, h) \<Rightarrow>
       (A XOR a, B XOR b, C XOR c, D XOR d, E XOR e, F XOR f, G XOR g, H XOR h))"

definition sm3_V0 :: sm3_chain where
  "sm3_V0 = (0x7380166f, 0x4914b2b9, 0x172442d7, 0xda8a0600, 0xa96f30bc, 0x163138aa, 0xe38dee4d, 0xb0fb0e4e)"

definition sm3_list :: "sm3_chain \<Rightarrow> u32 list" where
  "sm3_list v = (case v of (a, b, c, d, e, f, g, h) \<Rightarrow> [a, b, c, d, e, f, g, h])"

definition sm3 :: "string \<Rightarrow> string option" where
  "sm3 input =
     (let str = concat (map (\<lambda>c. bits 8 (of_int (schar c) :: u32)) input)
      in case sm3_init str of None \<Rightarrow> None | Some (n, str) \<Rightarrow>
         case sm3_init_B str n of None \<Rightarrow> None | Some B \<Rightarrow>
           let V = foldl (\<lambda>V i. CF (B ! i) V) sm3_V0 [0..<n]
           in map_option concat (those (map (\<lambda>w. binaryStringToHex (bits 32 w)) (sm3_list V))))"

section \<open>GM/T 0004\<close>

definition spec_FF :: "nat \<Rightarrow> u32 \<Rightarrow> u32 \<Rightarrow> u32 \<Rightarrow> u32" where
  "spec_FF j x y z = (if j < 16 then x XOR y XOR z else (x AND y) OR (x AND z) OR (y AND z))"

definition spec_GG :: "nat \<Rightarrow> u32 \<Rightarrow> u32 \<Rightarrow> u32 \<Rightarrow> u32" where
  "spec_GG j x y z = (if j < 16 then x XOR y XOR z else (x AND y) OR (NOT x AND z))"

definition spec_T :: "nat \<Rightarrow> u32" where
  "spec_T j = (if j < 16 then 0x79cc4519 else 0x7a879d8a)"

definition spec_P0 :: "u32 \<Rightarrow> u32" where "spec_P0 x = x XOR word_rotl 9 x XOR word_rotl 17 x"
definition spec_P1 :: "u32 \<Rightarrow> u32" where "spec_P1 x = x XOR word_rotl 15 x XOR word_rotl 23 x"

fun spec_W :: "u32 list \<Rightarrow> nat \<Rightarrow> u32" where
  "spec_W B j = (if j < 16 then B ! j
     else spec_P1 (spec_W B (j - 16) XOR spec_W B (j - 9) XOR word_rotl 15 (spec_W B (j - 3))) XOR
          word_rotl 7 (spec_W B (j - 13)) XOR spec_W B (j - 6))"
declare spec_W.simps [simp del]

definition spec_W' :: "u32 list \<Rightarrow> nat \<Rightarrow> u32" where
  "spec_W' B j = spec_W B j XOR spec_W B (j + 4)"

fun spec_rounds :: "u32 list \<Rightarrow> nat \<Rightarrow> sm3_chain \<Rightarrow> sm3_chain" where
  "spec_rounds M 0 v = v"
| "spec_rounds M (Suc j) v = (case spec_rounds M j v of (A, B, C, D, E, F, G, H) \<Rightarrow>
     let SS1 = word_rotl 7 (word_rotl 12 A + E + word_rotl (j mod 32) (spec_T j));
         SS2 = SS1 XOR word_rotl 12 A;
         TT1 = spec_FF j A B C + D + SS2 + spec_W' M j;
         TT2 = spec_GG j E F G + H + SS1 + spec_W M j
     in (TT1, A, word_rotl 9 B, C, spec_P0 TT2, E, word_rotl 19 F, G))"

definition spec_CF :: "sm3_chain \<Rightarrow> u32 list \<Rightarrow> sm3_chain" where
  "spec_CF V M = (case (spec_rounds M 64 V, V) of ((A, B, C, D, E, F, G, H), (a, b, c, d, e, f, g, h)) \<Rightarrow>
     (A XOR a, B XOR b, C XOR c, D XOR d, E XOR e, F XOR f, G XOR g, H XOR h))"

definition spec_sm3 :: "bytes \<Rightarrow> string" where
  "spec_sm3 msg = hex_digest (sm3_list (md_hash spec_CF sm3_V0 msg))"

section \<open>The code computes it\<close>

lemma sm3_functions: "FF = spec_FF" "GG = spec_GG" "sm3_T = spec_T" "P0 = spec_P0" "P1 = spec_P1"
  by (auto simp: fun_eq_iff FF_def spec_FF_def GG_def spec_GG_def sm3_T_def spec_T_def P0_def spec_P0_def P1_def spec_P1_def
      LL_rotl)

lemma sm3_extend:
  assumes "length M = 16"
  shows "messageExtend M = (map (spec_W M) [0..<68], map (spec_W' M) [0..<64])"
proof -
  define f where "f = (\<lambda>W j. W @ [P1 (W ! (j - 16) XOR W ! (j - 9) XOR LL (W ! (j - 3)) 15) XOR LL (W ! (j - 13)) 7 XOR W ! (j - 6)])"
  have "f (map (spec_W M) [0..<j]) j = map (spec_W M) [0..<j] @ [spec_W M j]" if j: "16 \<le> j" for j
  proof -
    have "spec_W M j = spec_P1 (spec_W M (j - 16) XOR spec_W M (j - 9) XOR word_rotl 15 (spec_W M (j - 3))) XOR
          word_rotl 7 (spec_W M (j - 13)) XOR spec_W M (j - 6)"
      using j by (subst spec_W.simps) simp
    moreover have "j - 3 < j" "j - 6 < j" "j - 9 < j" "j - 13 < j" "j - 16 < j" using j by simp_all
    ultimately show ?thesis by (simp only: f_def sm3_functions LL_rotl nth_map_upt) simp
  qed
  then have "foldl f (map (spec_W M) [0..<16]) [16..<68] = map (spec_W M) [0..<68]"
    by (rule foldl_extend [where f = f and g = "spec_W M"]) simp_all
  moreover have "spec_W M i = M ! i" if "i < 16" for i
    using that by (subst spec_W.simps) simp
  then have "map (spec_W M) [0..<length M] = map (nth M) [0..<length M]"
    by (intro map_cong refl) (simp only: assms set_upt atLeastLessThan_iff)
  then have "map (spec_W M) [0..<length M] = M" by (simp only: map_nth)
  then have "map (spec_W M) [0..<16] = M" by (simp only: assms)
  ultimately have W: "foldl f M [16..<68] = map (spec_W M) [0..<68]" by (simp only:)
  have "map (spec_W M) [0..<68] ! j XOR map (spec_W M) [0..<68] ! (j + 4) = spec_W' M j" if "j < 64" for j
  proof -
    have "j < 68 - 0" "j + 4 < 68 - 0" using that by simp_all
    then show ?thesis by (simp only: nth_map_upt spec_W'_def add_0)
  qed
  then have "map (\<lambda>j. map (spec_W M) [0..<68] ! j XOR map (spec_W M) [0..<68] ! (j + 4)) [0..<64] = map (spec_W' M) [0..<64]"
    by (intro map_cong refl) (simp only: set_upt atLeastLessThan_iff)
  then show ?thesis unfolding messageExtend_def f_def [symmetric] Let_def W by (simp only:)
qed

lemma sm3_rounds: "n \<le> 64 \<Longrightarrow> foldl (sm3_round (map (spec_W M) [0..<68]) (map (spec_W' M) [0..<64])) v [0..<n] = spec_rounds M n v"
proof (induction n)
  case 0
  then show ?case by simp
next
  case (Suc n)
  then have "n < 68 - 0" "n < 64 - 0" by simp_all
  then have "map (spec_W M) [0..<68] ! n = spec_W M n" "map (spec_W' M) [0..<64] ! n = spec_W' M n"
    by (simp_all only: nth_map_upt add_0)
  moreover have "nat (int n mod 32) = n mod 32" by (simp add: nat_mod_distrib)
  ultimately have r: "sm3_round (map (spec_W M) [0..<68]) (map (spec_W' M) [0..<64]) v n = spec_rounds M (Suc n) u"
    if "v = spec_rounds M n u" for u v
    using that by (cases "spec_rounds M n u") (simp add: sm3_round_def sm3_functions LL_rotl Let_def del: upt_Suc)
  show ?case using Suc r [OF refl] by (simp del: spec_rounds.simps upt_rec_numeral)
qed

lemma CF_spec: "length M = 16 \<Longrightarrow> CF M v = spec_CF v M"
  by (simp only: CF_def sm3_extend prod.case sm3_rounds order_refl spec_CF_def)

subsection \<open>The padded string\<close>

lemma sm3_pad_count:
  assumes "L < 2147483647"
  shows "(448 - s32 (int L + 1) smod 512 + 512) smod 512 = (447 - int L) mod 512"
proof -
  define r where "r = (int L + 1) mod 512"
  have "s32 (int L + 1) = int L + 1" using assms by (intro s32_id) simp_all
  then have "s32 (int L + 1) smod 512 = r" by (simp add: r_def signed_modulo_int_def)
  moreover have r: "0 \<le> r" "r < 512" by (simp_all add: r_def)
  moreover have "(448 - r + 512) smod 512 = (448 - r + 512) mod 512" using r by (simp add: signed_modulo_int_def)
  moreover have "(448 - r + 512) mod 512 = (448 - r) mod 512" by (rule mod_add_self2)
  moreover have "(448 - r) mod 512 = (447 - int L) mod 512" by (simp add: r_def mod_diff_right_eq)
  ultimately show ?thesis by simp
qed

lemma sm3_init_pad:
  assumes "8 * length msg < 2147483647"
  shows "sm3_init (bits_of msg) = Some (length (md_pad msg) div 64, bits_of (md_pad msg))"
proof -
  have l: "s32 (8 * int (length msg)) = 8 * int (length msg)" using assms by (intro s32_id) simp_all
  have c: "(448 - s32 (8 * int (length msg) + 1) smod 512 + 512) smod 512 = (447 - 8 * int (length msg)) mod 512"
    using sm3_pad_count [OF assms] by simp
  have w: "(of_int (8 * int (length msg)) :: 64 word) = of_nat (8 * length msg)" by simp
  have "bits_of msg @ ''1'' @ replicate (nat ((447 - 8 * int (length msg)) mod 512)) CHR ''0'' @
      bits 64 (of_int (8 * int (length msg)) :: 64 word) = bits_of (md_pad msg)"
    using bits_md_pad [of msg] unfolding w .
  moreover have "length (bits_of (md_pad msg)) mod 512 = 0"
    using mult_mod_right [of 8 "length (md_pad msg)" 64] md_pad_length [of msg] by simp
  moreover have "length (bits_of (md_pad msg)) div 512 = length (md_pad msg) div 64" by (simp add: div_mult2_eq [of _ 8 64, simplified])
  ultimately show ?thesis
    unfolding sm3_init_def Let_def bits_of_simps(4) of_nat_mult of_nat_numeral l c by simp
qed

lemma those_map_Some: "(\<And>x. x \<in> set xs \<Longrightarrow> f x = Some (g x)) \<Longrightarrow> those (map f xs) = Some (map g xs)"
  by (induction xs) simp_all

lemma sm3_word_block:
  assumes "length p = 64 * N" and "i < N" and "j < 16"
  shows "sm3_word (bits_of p) i j = Some (be_word (p ! (64 * i + 4 * j)) (p ! (64 * i + 4 * j + 1)) (p ! (64 * i + 4 * j + 2)) (p ! (64 * i + 4 * j + 3)))"
proof -
  let ?m = "64 * i + 4 * j"
  have "64 * (i + 1) \<le> 64 * N" using assms(2) by (intro mult_le_mono2) simp
  then have m: "?m + 4 \<le> length p" using assms(1,3) by simp
  then have "\<not> i * 512 + j * 32 > length (bits_of p)" by simp
  then have "substr (bits_of p) (i * 512 + j * 32) 32 = Some (take 32 (drop (8 * ?m) (bits_of p)))"
    by (simp add: substr_def algebra_simps)
  then show ?thesis unfolding sm3_word_def word_bits [OF m]
    by (simp only: Option.bind.simps stoul2_word option.map binval_word)
qed

lemma sm3_init_B_blocks:
  assumes "length p = 64 * N"
  shows "sm3_init_B (bits_of p) N = Some (map (block_words p) [0..<N])"
proof -
  have "those (map (sm3_word (bits_of p) i) [0..<16]) = Some (block_words p i)" if "i < N" for i
    unfolding block_words_def
    by (rule those_map_Some) (rule sm3_word_block [OF assms that], simp only: set_upt atLeastLessThan_iff)
  then show ?thesis unfolding sm3_init_B_def by (intro those_map_Some) (simp only: set_upt atLeastLessThan_iff)
qed

lemma hex_words: "those (map (\<lambda>w. binaryStringToHex (bits 32 w)) ws) = Some (map (\<lambda>w. concat (map hex2 (be_bytes w))) ws)"
  by (rule those_map_Some) (simp add: bits_32 hex_of_bytes)

lemma digest_words: "concat (map (\<lambda>w. concat (map hex2 (be_bytes w))) ws) = hex_digest ws"
  by (induction ws) (simp_all add: hex_digest_def)

interpretation sm3_hash: block_hash "\<lambda>V B. CF B V" spec_CF
  by unfold_locales (rule CF_spec)

lemma sm3_spec:
  assumes "8 * length input < 2147483647"
  shows "sm3 input = Some (spec_sm3 (to_bytes input))"
proof -
  define p where "p = md_pad (to_bytes input)"
  define N where "N = length p div 64"
  have N: "length p = 64 * N" unfolding p_def N_def by (rule md_pad_blocks)
  have "8 * length (to_bytes input) < 2147483647" using assms by simp
  from sm3_init_pad [OF this]
  have i: "sm3_init (concat (map (\<lambda>c. bits 8 (of_int (schar c) :: u32)) input)) = Some (N, bits_of p)"
    by (simp only: bits_chars p_def N_def)
  have "foldl (\<lambda>V i. CF (map (block_words p) [0..<N] ! i) V) sm3_V0 [0..<N] = md_hash spec_CF sm3_V0 (to_bytes input)"
    unfolding N_def by (rule sm3_hash.whole [OF p_def]) simp
  then show ?thesis
    by (simp only: sm3_def Let_def i option.case prod.case sm3_init_B_blocks [OF N] hex_words option.map digest_words
        spec_sm3_def)
qed



text \<open>
  C35: what \<^verbatim>\<open>sm3\<close> returns is always of the same type: 64 lower-case hexadecimal digits.
\<close>

theorem sm3_digest_type:
  assumes "8 * length input < 2147483647"
  shows "\<exists>d. sm3 input = Some d \<and> length d = 64 \<and> set d \<subseteq> set ''0123456789abcdef''"
proof -
  have "length (spec_sm3 msg) = 64" for msg
    by (simp add: spec_sm3_def length_hex_digest sm3_list_def split: prod.split)
  then show ?thesis using sm3_spec [OF assms] hex_digest_chars by (simp only: spec_sm3_def) blast
qed

lemma sm3_digest_type_witness:
  "\<exists>d. sm3 ''password'' = Some d \<and> length d = 64 \<and> set d \<subseteq> set ''0123456789abcdef''"
  by (rule sm3_digest_type) simp

end
