(* ===== verification/Sm4.thy ===== *)
theory Sm4
  imports Crypto_Hash
begin

text \<open>
  The SM4 encryption of \<^verbatim>\<open>model.cc\<close>: the block cipher on strings of binary digits with its key schedule kept in
  globals, the padding and the chaining of blocks. An exception that leaves the function is \<^const>\<open>None\<close>; the one
  that \<^verbatim>\<open>sm4_128\<close> catches leaves the words it had not loaded at zero.
\<close>

section \<open>The code\<close>

definition sbox :: "u32 list" where
  "sbox =
    [0xd6, 0x90, 0xe9, 0xfe, 0xcc, 0xe1, 0x3d, 0xb7, 0x16, 0xb6, 0x14, 0xc2, 0x28, 0xfb, 0x2c, 0x05,
     0x2b, 0x67, 0x9a, 0x76, 0x2a, 0xbe, 0x04, 0xc3, 0xaa, 0x44, 0x13, 0x26, 0x49, 0x86, 0x06, 0x99,
     0x9c, 0x42, 0x50, 0xf4, 0x91, 0xef, 0x98, 0x7a, 0x33, 0x54, 0x0b, 0x43, 0xed, 0xcf, 0xac, 0x62,
     0xe4, 0xb3, 0x1c, 0xa9, 0xc9, 0x08, 0xe8, 0x95, 0x80, 0xdf, 0x94, 0xfa, 0x75, 0x8f, 0x3f, 0xa6,
     0x47, 0x07, 0xa7, 0xfc, 0xf3, 0x73, 0x17, 0xba, 0x83, 0x59, 0x3c, 0x19, 0xe6, 0x85, 0x4f, 0xa8,
     0x68, 0x6b, 0x81, 0xb2, 0x71, 0x64, 0xda, 0x8b, 0xf8, 0xeb, 0x0f, 0x4b, 0x70, 0x56, 0x9d, 0x35,
     0x1e, 0x24, 0x0e, 0x5e, 0x63, 0x58, 0xd1, 0xa2, 0x25, 0x22, 0x7c, 0x3b, 0x01, 0x21, 0x78, 0x87,
     0xd4, 0x00, 0x46, 0x57, 0x9f, 0xd3, 0x27, 0x52, 0x4c, 0x36, 0x02, 0xe7, 0xa0, 0xc4, 0xc8, 0x9e,
     0xea, 0xbf, 0x8a, 0xd2, 0x40, 0xc7, 0x38, 0xb5, 0xa3, 0xf7, 0xf2, 0xce, 0xf9, 0x61, 0x15, 0xa1,
     0xe0, 0xae, 0x5d, 0xa4, 0x9b, 0x34, 0x1a, 0x55, 0xad, 0x93, 0x32, 0x30, 0xf5, 0x8c, 0xb1, 0xe3,
     0x1d, 0xf6, 0xe2, 0x2e, 0x82, 0x66, 0xca, 0x60, 0xc0, 0x29, 0x23, 0xab, 0x0d, 0x53, 0x4e, 0x6f,
     0xd5, 0xdb, 0x37, 0x45, 0xde, 0xfd, 0x8e, 0x2f, 0x03, 0xff, 0x6a, 0x72, 0x6d, 0x6c, 0x5b, 0x51,
     0x8d, 0x1b, 0xaf, 0x92, 0xbb, 0xdd, 0xbc, 0x7f, 0x11, 0xd9, 0x5c, 0x41, 0x1f, 0x10, 0x5a, 0xd8,
     0x0a, 0xc1, 0x31, 0x88, 0xa5, 0xcd, 0x7b, 0xbd, 0x2d, 0x74, 0xd0, 0x12, 0xb8, 0xe5, 0xb4, 0xb0,
     0x89, 0x69, 0x97, 0x4a, 0x0c, 0x96, 0x77, 0x7e, 0x65, 0xb9, 0xf1, 0x09, 0xc5, 0x6e, 0xc6, 0x84,
     0x18, 0xf0, 0x7d, 0xec, 0x3a, 0xdc, 0x4d, 0x20, 0x79, 0xee, 0x5f, 0x3e, 0xd7, 0xcb, 0x39, 0x48]"

definition keys :: "int list" where
  "keys = [- 44, 99, 78, - 12, - 84, - 124, - 117, 79, - 3, - 40, - 31, 116, 48, - 125, - 88, 72]"

definition CK :: "u32 list" where
  "CK =
    [0x00070e15, 0x1c232a31, 0x383f464d, 0x545b6269,
     0x70777e85, 0x8c939aa1, 0xa8afb6bd, 0xc4cbd2d9,
     0xe0e7eef5, 0xfc030a11, 0x181f262d, 0x343b4249,
     0x50575e65, 0x6c737a81, 0x888f969d, 0xa4abb2b9,
     0xc0c7ced5, 0xdce3eaf1, 0xf8ff060d, 0x141b2229,
     0x30373e45, 0x4c535a61, 0x686f767d, 0x848b9299,
     0xa0a7aeb5, 0xbcc3cad1, 0xd8dfe6ed, 0xf4fb0209,
     0x10171e25, 0x2c333a41, 0x484f565d, 0x646b7279]"

definition FK :: "u32 list" where
  "FK = [0xa3b1bac6, 0x56aa3350, 0x677d9197, 0xb27022dc]"

definition L :: "u32 \<Rightarrow> u32" where
  "L x = x XOR LL x 2 XOR LL x 10 XOR LL x 18 XOR LL x 24"

definition L1 :: "u32 \<Rightarrow> u32" where
  "L1 x = x XOR LL x 13 XOR LL x 23"

definition Sbox :: "u8 \<Rightarrow> u32" where
  "Sbox a = (let x = unat (drop_bit 4 (a AND 0xf0)); y = unat (a AND 0x0f) in sbox ! (x * 16 + y))"

definition NT :: "u32 \<Rightarrow> u32" where
  "NT x = foldl (\<lambda>res i. 16 * 16 * res + Sbox (ucast (shr x (32 - 8 * (i + 1)) AND 0xff))) 0 [0, 1, 2, 3]"

definition T :: "u32 \<Rightarrow> u32" where "T x = L (NT x)"
definition T1 :: "u32 \<Rightarrow> u32" where "T1 x = L1 (NT x)"

text \<open>The globals, as the program starts with them.\<close>

record sm4_state =
  MK :: "u32 list"
  key :: string
  rk :: "u32 list"

definition sm4_globals :: sm4_state where
  "sm4_globals = \<lparr>MK = replicate 4 0, key = [], rk = replicate 32 0\<rparr>"

definition toString8 :: "int \<Rightarrow> string" where
  "toString8 x = bits 8 (of_int x :: 64 word)"

definition initMK :: "sm4_state \<Rightarrow> sm4_state" where
  "initMK st = (if key st \<noteq> [] then st else st\<lparr>key := concat (map toString8 keys)\<rparr>)"

definition MK_word :: "string \<Rightarrow> nat \<Rightarrow> u32 option" where
  "MK_word k i = map_option of_nat (Option.bind (substr k (i * 32) 32) stoul2)"

definition key_K :: "u32 list \<Rightarrow> u32 list" where
  "key_K K4 = foldl (\<lambda>K i. K @ [K ! i XOR T1 (K ! (i + 1) XOR K ! (i + 2) XOR K ! (i + 3) XOR CK ! i)]) K4 [0..<32]"

definition initRK :: "sm4_state \<Rightarrow> sm4_state option" where
  "initRK st =
     (let st = initMK st
      in case those (map (MK_word (key st)) [0..<4]) of None \<Rightarrow> None
         | Some mk \<Rightarrow> Some (st\<lparr>MK := mk, rk := drop 4 (key_K (map2 (XOR) mk FK))\<rparr>))"

definition F :: "u32 \<Rightarrow> u32 \<Rightarrow> u32 \<Rightarrow> u32 \<Rightarrow> u32 \<Rightarrow> u32" where
  "F x1 x2 x3 x4 x = x1 XOR T (x2 XOR x3 XOR x4 XOR x)"

definition block_word :: "string \<Rightarrow> string \<Rightarrow> nat \<Rightarrow> u32 option" where
  "block_word ctx IV i =
     (case Option.bind (substr ctx (i * 32) 32) stoul2 of None \<Rightarrow> None
      | Some c \<Rightarrow> (case Option.bind (substr IV (i * 8) 8) stoul16 of None \<Rightarrow> None
                   | Some v \<Rightarrow> Some (of_nat c XOR of_nat v)))"

text \<open>The loop inside the \<^verbatim>\<open>try\<close> block, over the words \<open>X[0..3]\<close> that start as zeros.\<close>

fun load_words :: "string \<Rightarrow> string \<Rightarrow> nat list \<Rightarrow> u32 list \<Rightarrow> u32 list" where
  "load_words ctx IV [] X = X"
| "load_words ctx IV (i # is) X =
     (case block_word ctx IV i of None \<Rightarrow> X | Some w \<Rightarrow> load_words ctx IV is (X[i := w]))"

definition sm4_rounds :: "u32 list \<Rightarrow> u32 list \<Rightarrow> u32 list" where
  "sm4_rounds rks X = foldl (\<lambda>X i. X @ [F (X ! i) (X ! (i + 1)) (X ! (i + 2)) (X ! (i + 3)) (rks ! i)]) X [0..<32]"

definition sm4_128 :: "sm4_state \<Rightarrow> string \<Rightarrow> string \<Rightarrow> (sm4_state \<times> string) option" where
  "sm4_128 st ctx IV =
     (case initRK st of None \<Rightarrow> None
      | Some st \<Rightarrow>
          let X = load_words ctx IV [0, 1, 2, 3] (replicate 4 0);
              X = sm4_rounds (rk st) X;
              res = concat (map (\<lambda>i. bits 32 (X ! (35 - i))) [0..<4])
          in map_option (\<lambda>r. (st, r)) (binaryStringToHex res))"

definition PKCS7 :: "string \<Rightarrow> string" where
  "PKCS7 ctx =
     (if length ctx mod 16 = 0 then ctx @ concat (replicate 16 ''00010000'')
      else let padding = 16 - length ctx mod 16 in ctx @ concat (replicate padding (num_string 10 padding)))"

text \<open>The loop over blocks; the vector's first elements are empty strings and add nothing.\<close>

function sm4_blocks :: "sm4_state \<Rightarrow> string \<Rightarrow> string \<Rightarrow> (sm4_state \<times> string) option" where
  "sm4_blocks st ctx IV =
     (if ctx = [] then Some (st, [])
      else case sm4_128 st (take 128 ctx) IV of None \<Rightarrow> None
           | Some (st, b) \<Rightarrow> map_option (\<lambda>(st, r). (st, b @ r)) (sm4_blocks st (drop 128 ctx) b))"
  by pat_completeness auto
termination
  by (relation "measure (\<lambda>(st, ctx, IV). length ctx)") auto
declare sm4_blocks.simps [simp del]

definition sm4 :: "sm4_state \<Rightarrow> string \<Rightarrow> (sm4_state \<times> string) option" where
  "sm4 st ctx =
     (let temp = concat (map (\<lambda>c. bits 8 (of_int (schar c) :: u32)) ctx);
          ctx = PKCS7 temp
      in if binaryStringToHex ctx = None then None
         else case binaryStringToHex (concat (map (\<lambda>i. bits 8 (of_nat (i + 2) :: 64 word)) [0..<16])) of None \<Rightarrow> None
              | Some IV16 \<Rightarrow> sm4_blocks st ctx IV16)"

section \<open>GM/T 0002\<close>

definition sb :: "u8 \<Rightarrow> u8" where
  "sb b = ucast (sbox ! unat b)"

definition tau :: "u32 \<Rightarrow> u32" where
  "tau w = (case map sb (be_bytes w) of [a, b, c, d] \<Rightarrow> be_word a b c d)"

definition cipher_T :: "u32 \<Rightarrow> u32" where
  "cipher_T w = (let b = tau w in b XOR word_rotl 2 b XOR word_rotl 10 b XOR word_rotl 18 b XOR word_rotl 24 b)"

definition cipher_T' :: "u32 \<Rightarrow> u32" where
  "cipher_T' w = (let b = tau w in b XOR word_rotl 13 b XOR word_rotl 23 b)"

fun cipher_K :: "u32 list \<Rightarrow> nat \<Rightarrow> u32" where
  "cipher_K mk i = (if i < 4 then mk ! i XOR FK ! i
     else cipher_K mk (i - 4) XOR cipher_T' (cipher_K mk (i - 3) XOR cipher_K mk (i - 2) XOR cipher_K mk (i - 1) XOR CK ! (i - 4)))"
declare cipher_K.simps [simp del]

definition round_keys :: "u32 list \<Rightarrow> u32 list" where
  "round_keys mk = map (\<lambda>i. cipher_K mk (i + 4)) [0..<32]"

type_synonym quad = "u32 \<times> u32 \<times> u32 \<times> u32"

definition rnd :: "quad \<Rightarrow> u32 \<Rightarrow> quad" where
  "rnd v r = (case v of (x0, x1, x2, x3) \<Rightarrow> (x1, x2, x3, x0 XOR cipher_T (x1 XOR x2 XOR x3 XOR r)))"

definition flip4 :: "quad \<Rightarrow> quad" where
  "flip4 v = (case v of (x0, x1, x2, x3) \<Rightarrow> (x3, x2, x1, x0))"

definition crypt :: "u32 list \<Rightarrow> quad \<Rightarrow> quad" where
  "crypt rks v = flip4 (foldl rnd v rks)"

text \<open>Decryption is the same function with the round keys in reverse.\<close>

lemma rnd_back: "rnd (flip4 (rnd v r)) r = flip4 v"
proof (cases v)
  case (fields x0 x1 x2 x3)
  have "x3 XOR x2 XOR x1 XOR r = x1 XOR x2 XOR x3 XOR r" by (simp only: xor.commute xor.left_commute)
  then show ?thesis by (simp add: fields rnd_def flip4_def xor.assoc)
qed

lemma rounds_back: "foldl rnd (flip4 (foldl rnd v rks)) (rev rks) = flip4 v"
proof (induction rks rule: rev_induct)
  case (snoc r rks)
  then show ?case by (simp add: rnd_back)
qed simp

lemma crypt_back: "crypt (rev rks) (crypt rks v) = v"
  unfolding crypt_def rounds_back by (simp add: flip4_def split: prod.split)

section \<open>Chaining and padding\<close>

definition xor4 :: "quad \<Rightarrow> quad \<Rightarrow> quad" where
  "xor4 v w = (case (v, w) of ((a, b, c, d), (a', b', c', d')) \<Rightarrow> (a XOR a', b XOR b', c XOR c', d XOR d'))"

fun cbc_encrypt :: "(quad \<Rightarrow> quad) \<Rightarrow> quad \<Rightarrow> quad list \<Rightarrow> quad list" where
  "cbc_encrypt E iv [] = []"
| "cbc_encrypt E iv (b # bs) = (let c = E (xor4 b iv) in c # cbc_encrypt E c bs)"

fun cbc_decrypt :: "(quad \<Rightarrow> quad) \<Rightarrow> quad \<Rightarrow> quad list \<Rightarrow> quad list" where
  "cbc_decrypt D iv [] = []"
| "cbc_decrypt D iv (c # cs) = xor4 (D c) iv # cbc_decrypt D c cs"

lemma xor4_back [simp]: "xor4 (xor4 v w) w = v"
  by (auto simp: xor4_def xor.assoc split: prod.splits)

text \<open>What the chaining needs of a block cipher.\<close>

locale block_cipher =
  fixes E :: "quad \<Rightarrow> quad" and D :: "quad \<Rightarrow> quad"
  assumes decrypts: "D (E v) = v"
begin

lemma cbc_back: "cbc_decrypt D iv (cbc_encrypt E iv bs) = bs"
  by (induction bs arbitrary: iv) (simp_all add: Let_def decrypts)

end

interpretation cipher: block_cipher "crypt rks" "crypt (rev rks)" for rks
  by unfold_locales (rule crypt_back)

definition qwords :: "quad \<Rightarrow> u32 list" where
  "qwords q = (case q of (a, b, c, d) \<Rightarrow> [a, b, c, d])"

definition quad_bytes :: "quad \<Rightarrow> bytes" where
  "quad_bytes q = concat (map be_bytes (qwords q))"

definition bytes_quad :: "bytes \<Rightarrow> quad" where
  "bytes_quad b = (be_word (b ! 0) (b ! 1) (b ! 2) (b ! 3), be_word (b ! 4) (b ! 5) (b ! 6) (b ! 7),
     be_word (b ! 8) (b ! 9) (b ! 10) (b ! 11), be_word (b ! 12) (b ! 13) (b ! 14) (b ! 15))"

fun quads :: "bytes \<Rightarrow> quad list" where
  "quads b = (if b = [] then [] else bytes_quad (take 16 b) # quads (drop 16 b))"
declare quads.simps [simp del]

definition pad16 :: "bytes \<Rightarrow> bytes" where
  "pad16 msg = (let k = 16 - length msg mod 16 in msg @ replicate k (of_nat k))"

definition unpad16 :: "bytes \<Rightarrow> bytes" where
  "unpad16 p = take (length p - unat (last p)) p"

lemma unpad_pad: "unpad16 (pad16 msg) = msg"
proof -
  define k where "k = 16 - length msg mod 16"
  have "k \<noteq> 0" by (simp add: k_def)
  have "k \<le> 16" by (simp add: k_def)
  have "unat (of_nat k :: u8) = k" using \<open>k \<le> 16\<close> by (simp add: unsigned_of_nat take_bit_nat_eq_self)
  moreover have "last (msg @ replicate k (of_nat k :: u8)) = of_nat k" using \<open>k \<noteq> 0\<close> by simp
  ultimately show ?thesis by (simp add: unpad16_def pad16_def Let_def k_def [symmetric])
qed

lemma bytes_quad_bytes [simp]: "bytes_quad (quad_bytes q) = q"
  by (cases q) (simp add: bytes_quad_def quad_bytes_def qwords_def be_bytes_def be_word_bytes)

lemma quad_bytes_quad: "length b = 16 \<Longrightarrow> quad_bytes (bytes_quad b) = b"
proof -
  assume l: "length b = 16"
  have "[0..<16] = [0, 1, 2, 3, 4, 5, 6, 7, 8, 9, 10, 11, 12, 13, 14, 15]" by code_simp
  moreover have "map (nth b) [0..<16] = b" using map_nth [of b] unfolding l .
  ultimately have "b = [b ! 0, b ! 1, b ! 2, b ! 3, b ! 4, b ! 5, b ! 6, b ! 7, b ! 8, b ! 9, b ! 10, b ! 11, b ! 12, b ! 13, b ! 14, b ! 15]"
    by (simp only: list.map)
  then show ?thesis by (simp add: quad_bytes_def bytes_quad_def qwords_def)
qed

lemma length_quad_bytes [simp]: "length (quad_bytes q) = 16"
  by (cases q) (simp add: quad_bytes_def qwords_def be_bytes_def)

lemma quads_bytes: "length p = 16 * n \<Longrightarrow> concat (map quad_bytes (quads p)) = p"
proof (induction n arbitrary: p)
  case 0
  then show ?case by (simp add: quads.simps)
next
  case (Suc n)
  then have "p \<noteq> []" by auto
  moreover have "quad_bytes (bytes_quad (take 16 p)) = take 16 p" using Suc.prems by (intro quad_bytes_quad) simp
  moreover have "concat (map quad_bytes (quads (drop 16 p))) = drop 16 p" using Suc by simp
  ultimately show ?case by (simp add: quads.simps [of p])
qed

lemma bytes_quads [simp]: "quads (concat (map quad_bytes qs)) = qs"
proof (induction qs)
  case Nil
  then show ?case by (simp add: quads.simps)
next
  case (Cons q qs)
  have "quad_bytes q \<noteq> []" by (metis length_quad_bytes list.size(3) zero_neq_numeral)
  then show ?case using Cons by (simp add: quads.simps [of "quad_bytes q @ _"])
qed

definition spec_sm4 :: "u32 list \<Rightarrow> quad \<Rightarrow> bytes \<Rightarrow> bytes" where
  "spec_sm4 mk iv msg = concat (map quad_bytes (cbc_encrypt (crypt (round_keys mk)) iv (quads (pad16 msg))))"

definition spec_sm4_decrypt :: "u32 list \<Rightarrow> quad \<Rightarrow> bytes \<Rightarrow> bytes" where
  "spec_sm4_decrypt mk iv c = unpad16 (concat (map quad_bytes (cbc_decrypt (crypt (rev (round_keys mk))) iv (quads c))))"

lemma pad16_blocks: "\<exists>n. length (pad16 msg) = 16 * n"
proof -
  have "length (pad16 msg) = length msg + (16 - length msg mod 16)" by (simp add: pad16_def Let_def)
  moreover have "\<exists>n. x + (16 - x mod 16) = 16 * n" for x :: nat by presburger
  ultimately show ?thesis by simp
qed

lemma sm4_decrypt_encrypt: "spec_sm4_decrypt mk iv (spec_sm4 mk iv msg) = msg"
proof -
  obtain n where "length (pad16 msg) = 16 * n" using pad16_blocks by blast
  then show ?thesis
    by (simp add: spec_sm4_decrypt_def spec_sm4_def cipher.cbc_back quads_bytes unpad_pad)
qed

section \<open>The code computes it\<close>

subsection \<open>Words and round keys\<close>

lemma sbox_bytes: "list_all (\<lambda>w. w < 256) sbox" "length sbox = 256"
  by (code_simp, code_simp)

lemma Sbox_sb: "Sbox a = ucast (sb a)"
proof -
  have "unat (drop_bit 4 (a AND 0xf0)) = unat a div 16"
  proof -
    have "drop_bit 4 (a AND 0xf0) = drop_bit 4 a"
    proof (rule bit_word_eqI)
      fix i assume "i < LENGTH(8)"
      have "bit (0xf0 :: u8) (4 + i) = (i < 4)" if "i < 8"
      proof -
        have "list_all (\<lambda>i. bit (0xf0 :: u8) (4 + i) = (i < 4)) [0, 1, 2, 3, 4, 5, 6, 7]" by code_simp
        moreover have "i \<in> set [0, 1, 2, 3, 4, 5, 6, 7]" using that by (simp, presburger)
        ultimately show ?thesis by (simp only: list_all_iff)
      qed
      moreover have "\<not> bit a (4 + i)" if "\<not> i < 4" using that bit_imp_le_length [of a "4 + i"] by auto
      ultimately show "bit (drop_bit 4 (a AND 0xf0)) i = bit (drop_bit 4 a) i"
        using \<open>i < LENGTH(8)\<close> by (simp only: bit_drop_bit_eq bit_and_iff comp_def) auto
    qed
    moreover have "unat (drop_bit 4 a) = drop_bit 4 (unat a)"
    proof -
      have "unat a < 2 ^ 8" using unsigned_less [of a, where ?'a = nat] by simp
      then have "take_bit 8 (unat a) = unat a" by (rule take_bit_nat_eq_self)
      then show ?thesis by (simp add: unsigned_drop_bit_eq)
    qed
    ultimately show ?thesis by (simp add: drop_bit_eq_div)
  qed
  moreover have "unat (a AND 0x0f) = unat a mod 16"
  proof -
    have "(0x0f :: u8) = mask 4" by (simp add: mask_eq_exp_minus_1)
    then have "a AND 0x0f = take_bit 4 a" by (simp only: take_bit_eq_mask)
    then show ?thesis by (simp add: take_bit_eq_mod unat_mod)
  qed
  ultimately have s: "Sbox a = sbox ! unat a" by (simp add: Sbox_def)
  have "unat a < length sbox" using unsigned_less [of a, where ?'a = nat] by (simp add: sbox_bytes)
  then have "sbox ! unat a < 256" using sbox_bytes(1) by (simp add: list_all_length)
  then have "unat (sbox ! unat a) < 2 ^ 8" by (simp add: word_less_nat_alt)
  then have "take_bit 8 (sbox ! unat a) = sbox ! unat a"
    by (metis unsigned_take_bit_eq take_bit_nat_eq_self word_unat_eq_iff)
  then have "ucast (ucast (sbox ! unat a) :: u8) = sbox ! unat a"
    by (simp add: unsigned_ucast_eq)
  then show ?thesis by (simp add: s sb_def)
qed

lemma bytes_word: "((256 * (256 * (256 * ucast a + ucast b) + ucast c) + ucast d) :: u32) = be_word a b c d"
proof -
  have "binval (bits_of [a, b, c, d]) = 256 * (256 * (256 * unat a + unat b) + unat c) + unat d"
    using bits_append_byte [of 8 b] bits_append_byte [of 8 c] bits_append_byte [of 8 d]
    by (simp add: binval_append algebra_simps bits_of_def)
  then have "be_word a b c d = of_nat (256 * (256 * (256 * unat a + unat b) + unat c) + unat d)"
    using binval_word [of a b c d] by simp
  then show ?thesis by (simp add: of_nat_unat)
qed

lemma ucast_and_ff: "ucast (x AND 0xff :: u32) = (ucast x :: u8)"
proof -
  have "(0xff :: u32) = mask 8" by (simp add: mask_eq_exp_minus_1)
  then have "x AND 0xff = take_bit 8 x" by (simp only: take_bit_eq_mask)
  then show ?thesis by (intro bit_word_eqI) (simp add: bit_simps)
qed

lemma NT_tau: "NT x = tau x"
proof -
  have "NT x = 256 * (256 * (256 * Sbox (ucast (drop_bit 24 x)) + Sbox (ucast (drop_bit 16 x))) + Sbox (ucast (drop_bit 8 x))) + Sbox (ucast x)"
    by (simp add: NT_def shr_def ucast_and_ff)
  then show ?thesis unfolding Sbox_sb bytes_word by (simp add: tau_def be_bytes_def)
qed

lemma T_cipher: "T = cipher_T" "T1 = cipher_T'"
  by (simp_all add: fun_eq_iff T_def cipher_T_def T1_def cipher_T'_def L_def L1_def NT_tau LL_rotl Let_def)

lemma key_K_spec:
  assumes "length mk = 4"
  shows "drop 4 (key_K (map2 (XOR) mk FK)) = round_keys mk"
proof -
  define f where "f = (\<lambda>K i. K @ [K ! i XOR T1 (K ! (i + 1) XOR K ! (i + 2) XOR K ! (i + 3) XOR CK ! i)])"
  have s: "f (map (cipher_K mk) [0..<i + 4]) i = map (cipher_K mk) [0..<i + 5]" for i
  proof -
    have "cipher_K mk (i + 4) = cipher_K mk i XOR cipher_T' (cipher_K mk (i + 1) XOR cipher_K mk (i + 2) XOR cipher_K mk (i + 3) XOR CK ! i)"
      by (subst cipher_K.simps) (simp add: xor.assoc xor.left_commute add.commute)
    moreover have "i < i + 4 - 0" "i + 1 < i + 4 - 0" "i + 2 < i + 4 - 0" "i + 3 < i + 4 - 0" by simp_all
    moreover have "[0..<i + 5] = [0..<i + 4] @ [i + 4]" by (simp add: upt_Suc_append numeral_eq_Suc)
    ultimately show ?thesis by (simp only: f_def T_cipher nth_map_upt list.map map_append) simp
  qed
  have "foldl f (map (cipher_K mk) [0..<4]) [0..<n] = map (cipher_K mk) [0..<n + 4]" for n
  proof (induction n)
    case (Suc n)
    then show ?case using s [of n] by (simp add: numeral_eq_Suc)
  qed simp
  from this [of 32] have k: "foldl f (map (cipher_K mk) [0..<4]) [0..<32] = map (cipher_K mk) [0..<36]" by simp
  have m: "map2 (XOR) mk FK = map (cipher_K mk) [0..<4]"
  proof -
    obtain a b c d where mk: "mk = [a, b, c, d]"
      using assms by (auto simp: numeral_eq_Suc length_Suc_conv)
    have "[0..<4] = [0, 1, 2, 3]" by code_simp
    then show ?thesis by (simp add: mk FK_def cipher_K.simps)
  qed
  have "drop 4 (map (cipher_K mk) [0..<36]) = round_keys mk"
  proof -
    have "[4..<36] = map (\<lambda>i. i + 4) [0..<32]" by (simp only: map_add_upt) simp
    then have "map (cipher_K mk) [4..<36] = round_keys mk" by (simp add: round_keys_def comp_def del: upt_rec_numeral)
    moreover have "drop 4 (map (cipher_K mk) [0..<36]) = map (cipher_K mk) [4..<36]" by (simp only: drop_map drop_upt add_0)
    ultimately show ?thesis by simp
  qed
  then show ?thesis using k unfolding key_K_def f_def m by simp
qed

subsection \<open>A block\<close>

lemma rounds_quad:
  fixes rks :: "u32 list" and v :: quad
  defines "f \<equiv> \<lambda>X i. X @ [F (X ! i) (X ! (i + 1)) (X ! (i + 2)) (X ! (i + 3)) (rks ! i)]"
  assumes "n \<le> length rks"
  shows "length (foldl f (qwords v) [0..<n]) = n + 4 \<and>
    (let X = foldl f (qwords v) [0..<n] in (X ! n, X ! (n + 1), X ! (n + 2), X ! (n + 3))) = foldl rnd v (take n rks)"
  using assms(2)
proof (induction n)
  case 0
  then show ?case by (cases v) (simp add: qwords_def)
next
  case (Suc n)
  define X where "X = foldl f (qwords v) [0..<n]"
  define w where "w = F (X ! n) (X ! (n + 1)) (X ! (n + 2)) (X ! (n + 3)) (rks ! n)"
  have l: "length X = n + 4" and q: "(X ! n, X ! (n + 1), X ! (n + 2), X ! (n + 3)) = foldl rnd v (take n rks)"
    using Suc by (simp_all add: X_def Let_def)
  have s: "foldl f (qwords v) [0..<Suc n] = X @ [w]" by (simp add: X_def f_def w_def)
  have "foldl rnd v (take (Suc n) rks) = rnd (X ! n, X ! (n + 1), X ! (n + 2), X ! (n + 3)) (rks ! n)"
    using Suc.prems q by (simp add: take_Suc_conv_app_nth)
  moreover have "rnd (X ! n, X ! (n + 1), X ! (n + 2), X ! (n + 3)) (rks ! n) = (X ! (n + 1), X ! (n + 2), X ! (n + 3), w)"
    by (simp add: rnd_def w_def F_def T_cipher)
  moreover have "(X @ [w]) ! (Suc n + 3) = w" using l nth_append_length [of X w "[]"] by (simp add: add.commute)
  moreover have "(X @ [w]) ! Suc n = X ! (n + 1)" "(X @ [w]) ! (Suc n + 1) = X ! (n + 2)" "(X @ [w]) ! (Suc n + 2) = X ! (n + 3)"
    using l by (simp_all add: nth_append numeral_eq_Suc)
  moreover have "length (X @ [w]) = Suc n + 4" using l by simp
  ultimately show ?case unfolding s Let_def by (simp only: simp_thms)
qed

lemma rounds_crypt:
  assumes "length rks = 32"
  shows "concat (map (\<lambda>i. bits 32 (sm4_rounds rks (qwords v) ! (35 - i))) [0..<4]) = concat (map (bits 32) (qwords (crypt rks v)))"
proof -
  define X where "X = sm4_rounds rks (qwords v)"
  have "32 \<le> length rks" using assms by simp
  from rounds_quad [OF this, of v]
  have "(X ! 32, X ! (32 + 1), X ! (32 + 2), X ! (32 + 3)) = foldl rnd v (take 32 rks)"
    unfolding sm4_rounds_def [symmetric] X_def [symmetric] Let_def by (rule conjunct2)
  then have x: "foldl rnd v rks = (X ! 32, X ! 33, X ! 34, X ! 35)" using assms by simp
  have "qwords (crypt rks v) = [X ! 35, X ! 34, X ! 33, X ! 32]"
    unfolding crypt_def x by (simp add: flip4_def qwords_def)
  moreover have "[0..<4] = [0, 1, 2, 3 :: nat]" by code_simp
  ultimately show ?thesis unfolding X_def [symmetric] by simp
qed

lemma stoul2_bits: "stoul2 (bits 32 (w :: u32)) = Some (unat w)"
proof -
  have "bits 32 w \<noteq> []" by simp
  moreover have "take_bit 32 w = w" by (rule bit_word_eqI) (simp add: bit_take_bit_iff)
  ultimately show ?thesis by (simp add: stoul2_binary binval_bits del: bits_Nil)
qed

abbreviation hex8 :: "u32 \<Rightarrow> string" where
  "hex8 w \<equiv> concat (map hex2 (be_bytes w))"

lemma length_hex8 [simp]: "length (hex8 w) = 8"
  by (simp add: be_bytes_def)

lemma quad_substr:
  fixes a b c d :: u32
  defines "s \<equiv> bits 32 a @ bits 32 b @ bits 32 c @ bits 32 d"
  shows "substr s 0 32 = Some (bits 32 a)" "substr s 32 32 = Some (bits 32 b)" "substr s 64 32 = Some (bits 32 c)"
    "substr s 96 32 = Some (bits 32 d)"
  by (simp_all add: s_def substr_def bits_append_byte)

lemma load_block:
  "load_words (concat (map (bits 32) (qwords q))) (hex_digest (qwords iv)) [0, 1, 2, 3] (replicate 4 0) = qwords (xor4 q iv)"
proof -
  obtain a b c d where q: "q = (a, b, c, d)" by (cases q)
  obtain w x y z where iv: "iv = (w, x, y, z)" by (cases iv)
  have c: "concat (map (bits 32) (qwords q)) = bits 32 a @ bits 32 b @ bits 32 c @ bits 32 d"
    by (simp add: q qwords_def)
  have h: "hex_digest (qwords iv) = hex8 w @ hex8 x @ hex8 y @ hex8 z"
    by (simp add: iv qwords_def hex_digest_def)
  let ?c = "bits 32 a @ bits 32 b @ bits 32 c @ bits 32 d" and ?h = "hex8 w @ hex8 x @ hex8 y @ hex8 z"
  note s = quad_substr [of a b c d]
  have t: "substr ?h 0 8 = Some (hex8 w)" "substr ?h 8 8 = Some (hex8 x)" "substr ?h 16 8 = Some (hex8 y)"
    "substr ?h 24 8 = Some (hex8 z)" by (simp_all only: substr_def length_append length_hex8 drop_append take_append) simp_all
  have "block_word ?c ?h 0 = Some (a XOR w)" "block_word ?c ?h 1 = Some (b XOR x)" "block_word ?c ?h 2 = Some (c XOR y)"
    "block_word ?c ?h 3 = Some (d XOR z)"
    unfolding block_word_def
    by (simp_all only: mult_0 mult_1 s t Option.bind.simps stoul2_bits stoul16_word option.case of_nat_unat ucast_id
        num_double numeral_times_numeral semiring_norm)
  then have "load_words ?c ?h [0, 1, 2, 3] (replicate 4 0) = [a XOR w, b XOR x, c XOR y, d XOR z]"
    by (simp only: load_words.simps option.case) (simp add: numeral_eq_Suc)
  then show ?thesis unfolding c h by (simp add: q iv xor4_def qwords_def)
qed

subsection \<open>The key and the state\<close>

definition key_string :: string where
  "key_string = concat (map toString8 keys)"

definition mk0 :: "u32 list" where
  "mk0 = [0xd4634ef4, 0xac848b4f, 0xfdd8e174, 0x3083a848]"

definition iv0 :: quad where
  "iv0 = (0x02030405, 0x06070809, 0x0a0b0c0d, 0x0e0f1011)"

definition sm4_ready :: sm4_state where
  "sm4_ready = \<lparr>MK = mk0, key = key_string, rk = round_keys mk0\<rparr>"

text \<open>Every state that the calls reach: the key is not yet built or it is the fixed one.\<close>

definition sm4_ok :: "sm4_state \<Rightarrow> bool" where
  "sm4_ok st \<longleftrightarrow> key st = [] \<or> key st = key_string"

lemma sm4_ok_start: "sm4_ok sm4_globals" "sm4_ok sm4_ready"
  by (simp_all add: sm4_ok_def sm4_globals_def sm4_ready_def)

lemma key_bits: "key_string = bits_of (map of_int keys)"
proof -
  have "toString8 x = bits 8 (of_int x :: u8)" for x
    unfolding toString8_def by (rule bits_cong) (simp add: bit_simps)
  then have "toString8 = (\<lambda>x. bits 8 (of_int x :: u8))" by (rule ext)
  then show ?thesis unfolding key_string_def bits_of_def by (simp add: comp_def)
qed

lemma key_words: "those (map (MK_word key_string) [0..<4]) = Some mk0"
proof -
  let ?s = "bits 32 (0xd4634ef4 :: u32) @ bits 32 (0xac848b4f :: u32) @ bits 32 (0xfdd8e174 :: u32) @ bits 32 (0x3083a848 :: u32)"
  have "map of_int keys = concat (map be_bytes mk0)"
    by (simp add: keys_def mk0_def be_bytes_def)
  then have k: "key_string = ?s" by (simp add: key_bits mk0_def bits_32)
  have "MK_word ?s 0 = Some 0xd4634ef4" "MK_word ?s 1 = Some 0xac848b4f" "MK_word ?s 2 = Some 0xfdd8e174" "MK_word ?s 3 = Some 0x3083a848"
    unfolding MK_word_def
    by (simp_all only: mult_0 mult_1 quad_substr Option.bind.simps stoul2_bits option.map of_nat_unat ucast_id
        num_double numeral_times_numeral semiring_norm)
  moreover have "[0..<4] = [0, 1, 2, 3 :: nat]" by code_simp
  ultimately show ?thesis unfolding k by (simp add: mk0_def)
qed

lemma initRK_ok: "sm4_ok st \<Longrightarrow> initRK st = Some sm4_ready"
proof -
  assume "sm4_ok st"
  then have k: "key (initMK st) = key_string" by (auto simp: sm4_ok_def initMK_def key_string_def)
  have "drop 4 (key_K (map2 (XOR) mk0 FK)) = round_keys mk0" by (rule key_K_spec) (simp add: mk0_def)
  then have "initRK st = Some ((initMK st)\<lparr>MK := mk0, rk := round_keys mk0\<rparr>)"
    unfolding initRK_def Let_def k key_words by (simp only: option.case)
  then show ?thesis using k by (simp add: sm4_ready_def)
qed

abbreviation quad_bits :: "quad \<Rightarrow> string" where
  "quad_bits q \<equiv> concat (map (bits 32) (qwords q))"

abbreviation hex_bytes :: "bytes \<Rightarrow> string" where
  "hex_bytes bs \<equiv> concat (map hex2 bs)"

lemma quad_bits_of: "quad_bits q = bits_of (quad_bytes q)"
  by (cases q) (simp add: quad_bytes_def qwords_def bits_32)

lemma quad_hex: "hex_bytes (quad_bytes q) = hex_digest (qwords q)"
  by (simp add: quad_bytes_def hex_digest_def)

lemma sm4_128_block:
  assumes "sm4_ok st"
  shows "sm4_128 st (quad_bits q) (hex_digest (qwords iv)) =
    Some (sm4_ready, hex_digest (qwords (crypt (round_keys mk0) (xor4 q iv))))"
proof -
  have r: "rk sm4_ready = round_keys mk0" by (simp add: sm4_ready_def)
  have "length (round_keys mk0) = 32" by (simp add: round_keys_def del: upt_rec_numeral)
  from rounds_crypt [OF this]
  have c: "concat (map (\<lambda>i. bits 32 (sm4_rounds (round_keys mk0) (qwords v) ! (35 - i))) [0..<4]) =
      bits_of (quad_bytes (crypt (round_keys mk0) v))" for v by (simp only: quad_bits_of)
  show ?thesis
    unfolding sm4_128_def initRK_ok [OF assms] option.case Let_def load_block r c hex_of_bytes quad_hex by simp
qed

lemma blocks_cbc:
  "sm4_ok st \<Longrightarrow> sm4_blocks st (concat (map quad_bits qs)) (hex_digest (qwords iv)) =
    Some (if qs = [] then st else sm4_ready,
      hex_bytes (concat (map quad_bytes (cbc_encrypt (crypt (round_keys mk0)) iv qs))))"
proof (induction qs arbitrary: st iv)
  case Nil
  then show ?case by (simp add: sm4_blocks.simps)
next
  case (Cons q qs)
  let ?c = "crypt (round_keys mk0) (xor4 q iv)"
  let ?r = "concat (map quad_bits qs)"
  have l: "length (quad_bits q) = 128" by (simp add: quad_bits_of)
  then have "quad_bits q \<noteq> []" by (metis list.size(3) zero_neq_numeral)
  then have "sm4_blocks st (quad_bits q @ ?r) (hex_digest (qwords iv)) =
      map_option (\<lambda>(st, r). (st, hex_digest (qwords ?c) @ r)) (sm4_blocks sm4_ready ?r (hex_digest (qwords ?c)))"
    using sm4_128_block [OF Cons.prems, of q iv] l by (subst sm4_blocks.simps) simp
  also have "sm4_blocks sm4_ready ?r (hex_digest (qwords ?c)) =
      Some (if qs = [] then sm4_ready else sm4_ready,
        hex_bytes (concat (map quad_bytes (cbc_encrypt (crypt (round_keys mk0)) ?c qs))))"
    by (rule Cons.IH) (rule sm4_ok_start)
  finally show ?case by (simp add: Let_def quad_hex)
qed

subsection \<open>The whole message\<close>

lemma PKCS7_blocks:
  assumes "length msg mod 16 = 0"
  shows "PKCS7 (bits_of msg) = bits_of (pad16 msg)"
proof -
  have "bits 8 (16 :: u8) = ''00010000''" by code_simp
  then have "bits_of (replicate n 16) = concat (replicate n ''00010000'')" for n by (induction n) simp_all
  then have "bits_of (pad16 msg) = bits_of msg @ concat (replicate 16 ''00010000'')" using assms by (simp add: pad16_def)
  moreover have "length (bits_of msg) mod 16 = 0" using assms by simp presburger
  then have "PKCS7 (bits_of msg) = bits_of msg @ concat (replicate 16 ''00010000'')" unfolding PKCS7_def by (rule if_P)
  ultimately show ?thesis by simp
qed

lemma IV_hex: "binaryStringToHex (concat (map (\<lambda>i. bits 8 (of_nat (i + 2) :: 64 word)) [0..<16])) = Some (hex_digest (qwords iv0))"
  by code_simp

lemma sm4_spec:
  assumes "sm4_ok st" and "length msg mod 16 = 0"
  shows "sm4 st msg = Some (sm4_ready, hex_bytes (spec_sm4 mk0 iv0 (to_bytes msg)))"
proof -
  let ?p = "pad16 (to_bytes msg)"
  obtain n where "length ?p = 16 * n" using pad16_blocks by blast
  then have p: "concat (map quad_bytes (quads ?p)) = ?p" by (rule quads_bytes)
  have "bits_of (concat (map quad_bytes qs)) = concat (map quad_bits qs)" for qs
    by (induction qs) (simp_all add: quad_bits_of)
  then have b: "bits_of ?p = concat (map quad_bits (quads ?p))" using p by metis
  have "?p \<noteq> []" using mod_less_divisor [of 16 "length msg"] by (simp add: pad16_def Let_def not_le)
  then have "quads ?p \<noteq> []" by (simp add: quads.simps [of ?p])
  then have "sm4_blocks st (bits_of ?p) (hex_digest (qwords iv0)) = Some (sm4_ready, hex_bytes (spec_sm4 mk0 iv0 (to_bytes msg)))"
    unfolding b spec_sm4_def blocks_cbc [OF assms(1)] by simp
  moreover have "PKCS7 (bits_of (to_bytes msg)) = bits_of ?p" by (rule PKCS7_blocks) (simp add: assms(2))
  ultimately show ?thesis
    unfolding sm4_def Let_def bits_chars IV_hex by (simp add: hex_of_bytes)
qed

lemma hex_of_bytes_append: "binaryStringToHex (bits_of bs @ s) = map_option ((@) (hex_bytes bs)) (binaryStringToHex s)"
proof (induction bs)
  case Nil
  then show ?case by (simp add: option.map_ident)
next
  case (Cons b bs)
  have "bits 8 b \<noteq> []" using bits_append_byte [of 8 b] by auto
  then have "binaryStringToHex (bits_of (b # bs) @ s) = map_option ((@) (hex2 b)) (binaryStringToHex (bits_of bs @ s))"
    by (subst binaryStringToHex.simps) (simp add: bits_append_byte hex_of_byte)
  then show ?case unfolding Cons by (cases "binaryStringToHex s") simp_all
qed

lemma PKCS7_odd:
  assumes "odd (length msg)"
  shows "PKCS7 (bits_of msg) = bits_of msg @ ''88888888''"
proof -
  have "length (bits_of msg) mod 16 = 8" using assms by simp presburger
  moreover have "concat (replicate 8 (num_string 10 8)) = ''88888888''" by code_simp
  ultimately show ?thesis by (simp add: PKCS7_def Let_def)
qed

lemma sm4_odd: "odd (length msg) \<Longrightarrow> sm4 st msg = None"
proof -
  assume "odd (length msg)"
  then have "PKCS7 (bits_of (to_bytes msg)) = bits_of (to_bytes msg) @ ''88888888''" by (simp add: PKCS7_odd)
  moreover have "binaryStringToHex ''88888888'' = None" by code_simp
  ultimately show ?thesis unfolding sm4_def Let_def bits_chars by (simp add: hex_of_bytes_append)
qed

lemma sm4_128_returns:
  assumes "sm4_ok st"
  shows "\<exists>r. sm4_128 st ctx IV = Some (sm4_ready, r)"
proof -
  have "binary (concat (map (\<lambda>i. bits 32 (X ! (35 - i))) is))" for X :: "u32 list" and "is"
    by (induction "is") (simp_all add: binary_def [of "[]"])
  moreover have "binary s \<Longrightarrow> \<exists>h. binaryStringToHex s = Some h" for s
  proof (induction s rule: binaryStringToHex.induct)
    case (1 s)
    have "set (take 8 s) \<subseteq> set s" "set (drop 8 s) \<subseteq> set s" by (rule set_take_subset, rule set_drop_subset)
    then have "binary (take 8 s)" "binary (drop 8 s)" using 1(2) unfolding binary_def by blast+
    then show ?case using 1(1) by (cases "s = []") (auto simp: binaryStringToHex.simps [of s] binaryStringToHex.simps [of "[]"])
  qed
  ultimately show ?thesis unfolding sm4_128_def initRK_ok [OF assms] by (auto simp: Let_def)
qed

lemma sm4_blocks_return: "sm4_ok st \<Longrightarrow> \<exists>st' r. sm4_blocks st ctx IV = Some (st', r)"
proof (induction "length ctx" arbitrary: st ctx IV rule: less_induct)
  case less
  show ?case
  proof (cases "ctx = []")
    case True
    then show ?thesis by (simp add: sm4_blocks.simps)
  next
    case False
    obtain b where b: "sm4_128 st (take 128 ctx) IV = Some (sm4_ready, b)" using sm4_128_returns [OF less.prems] by blast
    have "length (drop 128 ctx) < length ctx" using False by simp
    then obtain st' r where "sm4_blocks sm4_ready (drop 128 ctx) b = Some (st', r)"
      using less.hyps sm4_ok_start(2) by blast
    then show ?thesis using False b by (simp add: sm4_blocks.simps [of st ctx IV])
  qed
qed

lemma sm4_even: "sm4_ok st \<Longrightarrow> even (length msg) \<Longrightarrow> \<exists>st' r. sm4 st msg = Some (st', r)"
proof -
  assume st: "sm4_ok st" and e: "even (length msg)"
  have "length (bits_of (to_bytes msg)) mod 16 = 0" using e by simp
  then have p: "PKCS7 (bits_of (to_bytes msg)) = bits_of (to_bytes msg) @ concat (replicate 16 ''00010000'')"
    unfolding PKCS7_def by (rule if_P)
  have "binaryStringToHex (concat (replicate 16 ''00010000'')) \<noteq> None" by code_simp
  then show ?thesis
    using sm4_blocks_return [OF st] unfolding sm4_def Let_def bits_chars p IV_hex by (auto simp: hex_of_bytes_append)
qed

section \<open>Properties\<close>



text \<open>
  \<^verbatim>\<open>sm4\<close> returns exactly on messages of an even number of characters. Its padding counts binary digits
  where it means bytes: after an odd number of characters it appends eight times the digit eight, and the conversion to
  hexadecimal throws.
\<close>

theorem sm4_throws_iff_odd:
  assumes "sm4_ok st"
  shows "sm4 st msg = None \<longleftrightarrow> odd (length msg)"
  using sm4_odd [of msg st] sm4_even [OF assms, of msg] by auto

lemma sm4_throws_iff_odd_witness: "sm4 sm4_globals ''abc'' = None \<and> sm4 sm4_globals ''ab'' \<noteq> None"
  using sm4_throws_iff_odd [OF sm4_ok_start(1), of "''abc''"] sm4_throws_iff_odd [OF sm4_ok_start(1), of "''ab''"] by simp

end
