(* ===== verification/Base64.thy ===== *)
theory Base64
  imports Crypto_Hash
begin

text \<open>
  \<^verbatim>\<open>base64_encode\<close> of \<^verbatim>\<open>model.cc\<close>, which reads hexadecimal digits, against RFC 4648 on the bytes they stand for. A
  failing assertion or a thrown exception is \<^const>\<open>None\<close>.
\<close>

section \<open>The code\<close>

definition base64_table :: string where
  "base64_table = ''ABCDEFGHIJKLMNOPQRSTUVWXYZabcdefghijklmnopqrstuvwxyz0123456789+/''"

text \<open>\<^verbatim>\<open>std::bitset<4>\<close> keeps the low four bits, so that the lower-case digits are read too.\<close>

definition nibble :: "char \<Rightarrow> string" where
  "nibble c = bits 4 (of_int (if schar c \<ge> 65 then schar c - 65 + 10 else schar c - 48) :: 64 word)"

function rpad6 :: "string \<Rightarrow> string" where
  "rpad6 data = (if length data mod 6 \<noteq> 0 then rpad6 (data @ ''0'') else data)"
  by pat_completeness auto
termination
  by (relation "measure (\<lambda>t. (6 - length t mod 6) mod 6)") (auto simp: mod_Suc)
declare rpad6.simps [simp del]

definition base64_char :: "string \<Rightarrow> char option" where
  "base64_char g = map_option (\<lambda>n. base64_table ! unat (of_nat n :: u8)) (stoul2 g)"

function base64_chars :: "string \<Rightarrow> string option" where
  "base64_chars data =
     (if data = [] then Some []
      else case base64_char (take 6 data) of None \<Rightarrow> None
           | Some c \<Rightarrow> map_option ((#) c) (base64_chars (drop 6 data)))"
  by pat_completeness auto
termination
  by (relation "measure length") auto
declare base64_chars.simps [simp del]

definition base64_encode :: "string \<Rightarrow> string option" where
  "base64_encode input =
     (let data = rpad6 (concat (map nibble input))
      in case base64_chars data of None \<Rightarrow> None
         | Some res \<Rightarrow>
             if length data mod 24 \<noteq> 0 then
               let gap = 24 - length data mod 24
               in if gap mod 6 \<noteq> 0 then None else Some (res @ replicate (gap div 6) CHR ''='')
             else Some res)"

section \<open>RFC 4648\<close>

definition b64_char :: "nat \<Rightarrow> char" where
  "b64_char n = char_of (if n < 26 then 65 + n else if n < 52 then 71 + n else if n < 62 then n - 4 else if n = 62 then 43 else 47)"

text \<open>A number in a given count of base 64 digits; a group of three bytes has four, of two three, of one two.\<close>

fun b64_digits :: "nat \<Rightarrow> nat \<Rightarrow> string" where
  "b64_digits 0 n = []"
| "b64_digits (Suc w) n = b64_digits w (n div 64) @ [b64_char (n mod 64)]"

fun b64 :: "bytes \<Rightarrow> string" where
  "b64 [] = []"
| "b64 [a] = b64_digits 2 (unat a * 2 ^ 4) @ ''==''"
| "b64 [a, b] = b64_digits 3 ((unat a * 2 ^ 8 + unat b) * 2 ^ 2) @ ''=''"
| "b64 (a # b # c # bs) = b64_digits 4 ((unat a * 2 ^ 8 + unat b) * 2 ^ 8 + unat c) @ b64 bs"

section \<open>The code computes it\<close>

lemma table_char: "n < 64 \<Longrightarrow> base64_table ! n = b64_char n"
proof -
  assume "n < 64"
  then have "map b64_char [0..<64] ! n = b64_char (0 + n)" by (intro nth_map_upt) simp
  moreover have "base64_table = map b64_char [0..<64]" by code_simp
  ultimately show ?thesis by (simp only: add_0)
qed

lemma nibble_digit:
  assumes "d < 16"
  shows "nibble (digit_char d) = bits 4 (of_nat d :: u8)"
proof -
  define n where "n = (if d < 10 then 48 + d else 87 + d)"
  have n: "n < 128" using assms by (simp add: n_def)
  then have "(of_char (digit_char d) :: nat) = n" by (simp add: digit_char_def n_def)
  then have s: "schar (digit_char d) = int n" using n by (simp add: schar_code)
  define v where "v = (if int n \<ge> 65 then int n - 65 + 10 else int n - 48)"
  have "v = int d \<or> v = int d + 2 * 2 ^ 4" by (auto simp: v_def n_def)
  then have "take_bit 4 v = take_bit 4 (int d)"
    using mod_mult_self1 [of "int d" 2 "2 ^ 4"] unfolding take_bit_eq_mod by blast
  then have "bit v i = bit (int d) i" if "i < 4" for i using that by (metis bit_take_bit_iff)
  then have "bits 4 (of_int v :: 64 word) = bits 4 (of_nat d :: u8)" by (intro bits_cong) (simp add: bit_simps)
  then show ?thesis by (simp only: nibble_def s v_def)
qed

lemma nibbles_hex2: "concat (map nibble (hex2 b)) = bits 8 b"
proof -
  have h: "hex2 b = [digit_char (unat b div 16 mod 16), digit_char (unat b mod 16)]"
    by (simp add: hex2_def numeral_2_eq_2)
  have "unat b div 16 mod 16 = unat b div 16"
    using unsigned_less [of b, where ?'a = nat] by (simp add: less_mult_imp_div_less)
  moreover have "bits 4 (of_nat (unat b mod 16) :: u8) = bits 4 b"
    by (rule bits_cong) (simp add: bit_simps flip: take_bit_eq_mod [of 4, simplified])
  moreover have "bits 4 (of_nat (unat b div 16) :: u8) = bits 4 (drop_bit 4 b)"
    by (rule bits_cong) (simp add: bit_simps flip: drop_bit_eq_div [of 4, simplified])
  moreover have "bits 8 b = bits 4 (drop_bit 4 b) @ bits 4 b" using bits_drop [of 4 4 b] by simp
  ultimately show ?thesis by (simp add: h nibble_digit)
qed

lemma nibbles_bytes: "concat (map nibble (concat (map hex2 bs))) = bits_of bs"
  by (induction bs) (simp_all add: nibbles_hex2)

lemma pad_even:
  assumes "length (data :: string) mod 6 = 2 \<or> length data mod 6 = 4 \<or> length data mod 6 = 0"
  shows "rpad6 data = data @ replicate ((6 - length data mod 6) mod 6) CHR ''0''"
proof -
  have 0: "rpad6 d = d" if "length d mod 6 = 0" for d using that by (simp add: rpad6.simps [of d])
  have 1: "rpad6 d = rpad6 (d @ ''0'')" if "length d mod 6 \<noteq> 0" for d using that by (simp add: rpad6.simps [of d])
  have 5: "rpad6 d = d @ ''0''" if "length d mod 6 = 5" for d
  proof -
    have "length (d @ ''0'') mod 6 = 0" using that by (simp add: mod_Suc)
    then show ?thesis using 1 [of d] 0 [of "d @ ''0''"] that by simp
  qed
  have 4: "rpad6 d = d @ ''00''" if "length d mod 6 = 4" for d
  proof -
    have "length (d @ ''0'') mod 6 = 5" using that by (simp add: mod_Suc)
    then show ?thesis using 1 [of d] 5 [of "d @ ''0''"] that by simp
  qed
  have 2: "rpad6 d = d @ ''0000''" if "length d mod 6 = 2" for d
  proof -
    have l: "length (d @ ''0'') mod 6 = 3" "length (d @ ''00'') mod 6 = 4" using that by (simp_all add: mod_Suc)
    then show ?thesis using 1 [of d] 1 [of "d @ ''0''"] 4 [of "d @ ''00''"] that by simp
  qed
  consider "length data mod 6 = 2" | "length data mod 6 = 4" | "length data mod 6 = 0"
    using assms by (elim disjE) simp_all
  then show ?thesis
  proof cases
    case 1
    have "replicate 4 CHR ''0'' = ''0000''" by code_simp
    then show ?thesis using 1 2 [OF 1] by simp
  next
    case two: 2
    have "replicate 2 CHR ''0'' = ''00''" by code_simp
    then show ?thesis using two 4 [OF two] by simp
  next
    case 3
    then show ?thesis using 0 [OF 3] by simp
  qed
qed

lemma group_char:
  assumes "binary g" and "length g = 6"
  shows "base64_char g = Some (b64_char (binval g))" and "binval g < 64"
proof -
  have "binary s \<Longrightarrow> binval s < 2 ^ length s" for s
    by (induction s rule: rev_induct) auto
  then show l: "binval g < 64" using assms by force
  have "g \<noteq> []" using assms(2) by auto
  then have "stoul2 g = Some (binval g)" using assms(1) by (intro stoul2_binary)
  moreover have "unat (of_nat (binval g) :: u8) = binval g" using l by (simp add: unsigned_of_nat take_bit_nat_eq_self)
  ultimately show "base64_char g = Some (b64_char (binval g))" using l by (simp add: base64_char_def table_char)
qed

lemma chars_group:
  assumes "binary g" and "length g = 6"
  shows "base64_chars (g @ r) = map_option ((#) (b64_char (binval g))) (base64_chars r)"
proof -
  have "g \<noteq> []" using assms(2) by auto
  then show ?thesis using assms group_char [OF assms] by (simp add: base64_chars.simps [of "g @ r"])
qed

lemma chars_digits:
  "binary s \<Longrightarrow> length s = 6 * w \<Longrightarrow>
    base64_chars (s @ r) = map_option ((@) (b64_digits w (binval s))) (base64_chars r)"
proof (induction w arbitrary: s r)
  case 0
  then show ?case by (simp add: option.map_ident)
next
  case (Suc w)
  define t g where "t = take (6 * w) s" and "g = drop (6 * w) s"
  have s: "s = t @ g" by (simp add: t_def g_def)
  have l: "length t = 6 * w" "length g = 6" using Suc.prems(2) by (simp_all add: t_def g_def)
  have b: "binary t" "binary g" using Suc.prems(1) unfolding s by simp_all
  have g: "binval g < 64" by (rule group_char(2) [OF b(2) l(2)])
  have n: "binval s = 64 * binval t + binval g" unfolding s by (simp add: binval_append l)
  have "binval s div 64 = binval t" "binval s mod 64 = binval g" using g unfolding n by simp_all
  moreover have "base64_chars (s @ r) = map_option ((@) (b64_digits w (binval t))) (base64_chars (g @ r))"
    using Suc.IH [OF b(1) l(1), of "g @ r"] unfolding s by simp
  ultimately show ?case by (cases "base64_chars r") (simp_all add: chars_group [OF b(2) l(2)])
qed

lemma chars_whole: "base64_chars [] = Some []"
  by (simp add: base64_chars.simps)

lemma binval_zeros: "binval (s @ replicate k CHR ''0'') = binval s * 2 ^ k"
proof -
  have "binval (replicate k CHR ''0'') = 0" by (induction k) (simp_all add: binval_Cons)
  then show ?thesis by (simp add: binval_append)
qed

lemma binval_bytes:
  "binval (bits_of [a]) = unat a" "binval (bits_of [a, b]) = unat a * 2 ^ 8 + unat b"
  "binval (bits_of [a, b, c]) = (unat a * 2 ^ 8 + unat b) * 2 ^ 8 + unat c"
  by (simp_all add: binval_append bits_append_byte algebra_simps)

text \<open>The characters of the padded digits, and the number of padding characters.\<close>

definition eq_pad :: "nat \<Rightarrow> string" where
  "eq_pad n = replicate ((3 - n mod 3) mod 3) CHR ''=''"

lemma mod3_cases:
  obtains q where "n = 3 * q" | q where "n = 3 * q + 1" | q where "n = 3 * q + (2 :: nat)"
proof -
  have "n = 3 * (n div 3) + n mod 3" by simp
  moreover have "n mod 3 = 0 \<or> n mod 3 = 1 \<or> n mod 3 = 2" by linarith
  ultimately show thesis using that by (metis add_0_right)
qed

lemma bits_mod6: "length (bits_of bs) mod 6 = 2 \<or> length (bits_of bs) mod 6 = 4 \<or> length (bits_of bs) mod 6 = 0"
proof (cases "length bs" rule: mod3_cases)
  case (1 q)
  have "8 * length bs mod 6 = 0" unfolding 1 by presburger
  then show ?thesis by simp
next
  case (2 q)
  have "8 * length bs mod 6 = 2" unfolding 2 by presburger
  then show ?thesis by simp
next
  case (3 q)
  have "8 * length bs mod 6 = 4" unfolding 3 by presburger
  then show ?thesis by simp
qed

lemma pad_amount: "(6 - 8 * n mod 6) mod 6 = 2 * ((n * 2) mod 3)" for n :: nat
proof (cases n rule: mod3_cases)
  case (1 q)
  have "8 * n mod 6 = 0" "n * 2 mod 3 = 0" unfolding 1 by presburger+
  then show ?thesis by simp
next
  case (2 q)
  have "8 * n mod 6 = 2" "n * 2 mod 3 = 2" unfolding 2 by presburger+
  then show ?thesis by simp
next
  case (3 q)
  have "8 * n mod 6 = 4" "n * 2 mod 3 = 1" unfolding 3 by presburger+
  then show ?thesis by simp
qed

lemma gap_amount:
  fixes n :: nat
  defines "d \<equiv> 8 * n + 2 * ((n * 2) mod 3)" and "k \<equiv> (3 - n mod 3) mod 3"
  shows "if d mod 24 \<noteq> 0 then 24 - d mod 24 = 6 * k else k = 0"
proof (cases n rule: mod3_cases)
  case (1 q)
  have "n * 2 mod 3 = 0" "n mod 3 = 0" "(8 * n + 0) mod 24 = 0" unfolding 1 by presburger+
  then show ?thesis by (simp add: d_def k_def)
next
  case (2 q)
  have "n * 2 mod 3 = 2" "n mod 3 = 1" "(8 * n + 4) mod 24 = 12" unfolding 2 by presburger+
  then show ?thesis by (simp add: d_def k_def)
next
  case (3 q)
  have "n * 2 mod 3 = 1" "n mod 3 = 2" "(8 * n + 2) mod 24 = 18" unfolding 3 by presburger+
  then show ?thesis by (simp add: d_def k_def)
qed

lemma rpad6_bits:
  "rpad6 (bits_of bs) = bits_of bs @ replicate (2 * ((length bs * 2) mod 3)) CHR ''0''"
  using pad_even [OF bits_mod6, of bs] by (simp only: bits_of_simps(4) pad_amount)

lemma binary_zeros: "binary (replicate k CHR ''0'')"
  by (auto simp: binary_def)

lemma last_group:
  assumes "length (bits_of bs) + k = 6 * w"
  shows "base64_chars (bits_of bs @ replicate k CHR ''0'') = Some (b64_digits w (binval (bits_of bs) * 2 ^ k))"
proof -
  have "length (bits_of bs @ replicate k CHR ''0'') = 6 * w" using assms by (simp only: length_append length_replicate)
  moreover have "binary (bits_of bs @ replicate k CHR ''0'')" by (simp only: binary_append bits_of_simps(5) binary_zeros simp_thms)
  ultimately show ?thesis
    using chars_digits [of "bits_of bs @ replicate k CHR ''0''" w "[]"]
    by (simp only: chars_whole binval_zeros append_Nil2 option.map)
qed

lemma b64_chars: "\<exists>c. base64_chars (rpad6 (bits_of bs)) = Some c \<and> b64 bs = c @ eq_pad (length bs)"
proof (induction bs rule: b64.induct)
  case 1
  have "rpad6 [] = []" by (simp add: rpad6.simps)
  then show ?case by (simp add: chars_whole eq_pad_def)
next
  case (2 a)
  have "eq_pad (length [a]) = ''==''" by code_simp
  moreover have "2 * ((length [a] * 2) mod 3) = 4" by simp
  moreover have "length (bits_of [a]) + 4 = 6 * 2" by (simp only: bits_of_simps(4)) simp
  ultimately show ?case by (simp only: rpad6_bits last_group binval_bytes b64.simps) blast
next
  case (3 a b)
  have "eq_pad (length [a, b]) = ''=''" by code_simp
  moreover have "2 * ((length [a, b] * 2) mod 3) = 2" by simp
  moreover have "length (bits_of [a, b]) + 2 = 6 * 3" by (simp only: bits_of_simps(4)) simp
  ultimately show ?case by (simp only: rpad6_bits last_group binval_bytes b64.simps) blast
next
  case (4 a b c bs)
  then obtain r where r: "base64_chars (rpad6 (bits_of bs)) = Some r" "b64 bs = r @ eq_pad (length bs)" by blast
  have "(length (a # b # c # bs) * 2) mod 3 = (length bs * 2) mod 3" by (simp, presburger)
  then have "rpad6 (bits_of (a # b # c # bs)) = bits_of [a, b, c] @ rpad6 (bits_of bs)"
    unfolding rpad6_bits by simp
  moreover have "length (bits_of [a, b, c]) = 6 * 4" by (simp only: bits_of_simps(4)) simp
  ultimately have "base64_chars (rpad6 (bits_of (a # b # c # bs))) =
      Some (b64_digits 4 ((unat a * 2 ^ 8 + unat b) * 2 ^ 8 + unat c) @ r)"
    using chars_digits [OF bits_of_simps(5), of "[a, b, c]" 4] by (simp only: r(1) option.map binval_bytes)
  moreover have "length (a # b # c # bs) mod 3 = length bs mod 3" by simp
  then have "eq_pad (length (a # b # c # bs)) = eq_pad (length bs)" by (simp only: eq_pad_def)
  then have "b64 (a # b # c # bs) =
      (b64_digits 4 ((unat a * 2 ^ 8 + unat b) * 2 ^ 8 + unat c) @ r) @ eq_pad (length (a # b # c # bs))"
    by (simp only: b64.simps r(2) append_assoc)
  ultimately show ?case by blast
qed

lemma base64_rfc: "base64_encode (concat (map hex2 bs)) = Some (b64 bs)"
proof -
  define d where "d = rpad6 (bits_of bs)"
  obtain c where c: "base64_chars d = Some c" "b64 bs = c @ eq_pad (length bs)" using b64_chars [of bs] by (auto simp: d_def)
  define k where "k = (3 - length bs mod 3) mod 3"
  have l: "length d = 8 * length bs + 2 * ((length bs * 2) mod 3)"
    by (simp only: d_def rpad6_bits length_append length_replicate bits_of_simps(4))
  have g: "if length d mod 24 \<noteq> 0 then 24 - length d mod 24 = 6 * k else k = 0"
    unfolding l k_def by (rule gap_amount)
  show ?thesis
  proof (cases "length d mod 24 = 0")
    case True
    then show ?thesis using g c by (simp add: base64_encode_def nibbles_bytes d_def [symmetric] eq_pad_def k_def [symmetric])
  next
    case False
    then have "24 - length d mod 24 = 6 * k" using g by simp
    then show ?thesis using False c
      by (simp add: base64_encode_def nibbles_bytes d_def [symmetric] eq_pad_def k_def [symmetric] Let_def del: mod_0_imp_dvd)
  qed
qed

section \<open>Property\<close>

text \<open>
  On the hexadecimal digits of any bytes \<^verbatim>\<open>base64_encode\<close> passes its assertion, throws nothing and returns
  the base 64 text of RFC 4648, with its padding characters.
\<close>

theorem base64_is_standard: "base64_encode (concat (map hex2 bs)) = Some (b64 bs)"
  by (rule base64_rfc)

end
