(* ===== verification/Password.thy ===== *)
theory Password
  imports Sha256 Sm3 Sm4 Base64
begin

text \<open>
  The two password functions of \<^verbatim>\<open>model.cc\<close>: a digest, its encryption and the base 64 text of the result.
\<close>

section \<open>The code\<close>

definition fixed_digest :: string where
  "fixed_digest = ''09117c03ccbdbc66bd49c0158df0ef24deda7808074e9c1b5d1306ddd3403c7c''"

definition getEncryptPwd_sha256 :: "sm4_state \<Rightarrow> string \<Rightarrow> (sm4_state \<times> string) option" where
  "getEncryptPwd_sha256 st pwd =
     (case encodePwdBySha256 pwd of None \<Rightarrow> None
      | Some (dec, sha256_16) \<Rightarrow>
          let sha256_16 = fixed_digest
          in case sm4 st sha256_16 of None \<Rightarrow> None
             | Some (st, encryptData) \<Rightarrow> map_option (Pair st) (base64_encode encryptData))"

definition getEncryptPwd_sm3 :: "sm4_state \<Rightarrow> string \<Rightarrow> (sm4_state \<times> string) option" where
  "getEncryptPwd_sm3 st pwd =
     (case sm3 pwd of None \<Rightarrow> None
      | Some sm3_output \<Rightarrow>
          case sm4 st sm3_output of None \<Rightarrow> None
          | Some (st, encryptData) \<Rightarrow> map_option (Pair st) (base64_encode encryptData))"

section \<open>Properties\<close>

lemma encrypt_whole:
  assumes "sm4_ok st" and "length d = 64"
  shows "(case sm4 st d of None \<Rightarrow> None | Some (st, e) \<Rightarrow> map_option (Pair st) (base64_encode e)) =
    Some (sm4_ready, b64 (spec_sm4 mk0 iv0 (to_bytes d)))"
proof -
  have "length d mod 16 = 0" using assms(2) by simp
  from sm4_spec [OF assms(1) this] show ?thesis by (simp add: base64_rfc)
qed

lemma length_sm3: "length (spec_sm3 msg) = 64"
  by (simp add: spec_sm3_def length_hex_digest sm3_list_def split: prod.split)

text \<open>
  \<^verbatim>\<open>getEncryptPwd_sm3\<close> composes the three standards: for every password of less than 2^28 - 1 bytes, in
  whatever state earlier calls left the globals, it returns the base 64 text of the SM4 encryption of the 64 hexadecimal
  digits of the SM3 digest of the password.
\<close>

theorem password_sm3_standard:
  assumes "sm4_ok st" and "8 * length pwd < 2147483647"
  shows "getEncryptPwd_sm3 st pwd =
    Some (sm4_ready, b64 (spec_sm4 mk0 iv0 (to_bytes (spec_sm3 (to_bytes pwd)))))"
  unfolding getEncryptPwd_sm3_def sm3_spec [OF assms(2)] option.case
  by (rule encrypt_whole [OF assms(1) length_sm3])

lemma password_sm3_standard_witness:
  "map_option snd (getEncryptPwd_sm3 sm4_globals ''secret'') = Some (b64 (spec_sm4 mk0 iv0 (to_bytes (spec_sm3 (to_bytes ''secret'')))))"
  using password_sm3_standard [OF sm4_ok_start(1), of "''secret''"] by simp

text \<open>
  \<^verbatim>\<open>getEncryptPwd_sha256\<close> does not use its argument: it overwrites the digest with a fixed one, and two
  passwords of ASCII characters give the same result.
\<close>

theorem password_sha256_constant:
  assumes "sm4_ok st" and "ascii pwd" and "8 * length pwd < 2147483648"
  shows "getEncryptPwd_sha256 st pwd = Some (sm4_ready, b64 (spec_sm4 mk0 iv0 (to_bytes fixed_digest)))"
proof -
  obtain r where "encodePwdBySha256 pwd = Some r" using sha256_fips [OF assms(2,3)] by auto
  moreover have "length fixed_digest = 64" by code_simp
  ultimately show ?thesis using encrypt_whole [OF assms(1)]
    by (simp add: getEncryptPwd_sha256_def split: prod.split)
qed

lemma password_sha256_constant_witness:
  "getEncryptPwd_sha256 sm4_globals ''secret'' = getEncryptPwd_sha256 sm4_globals ''public''"
  by (simp add: password_sha256_constant sm4_ok_start ascii_def)

end
