(* ===== verification/Spec2Isabelle.thy ===== *)
theory Spec2Isabelle
  imports Kcp_Api Kcp_Transfer Kcp_Pointers Kcp_Host Kcp_Round Server_Run Legacy_Server Stream_Reads Client_Threads File_Delivery Tcp_Client Password
begin

text \<open>
  A verification library for \<^verbatim>\<open>kcp-fakeTCP\<close>: a file is sent over KCP, a reliable protocol on datagrams, whose
  datagrams travel as the payload of TCP packets that the client builds itself on a raw socket.

  \<^bold>\<open>The program and its parts.\<close>

  \<^item> \<^verbatim>\<open>code/kcp/ikcp.h\<close> and \<^verbatim>\<open>code/kcp/ikcp.cc\<close> are the protocol. A control block \<^verbatim>\<open>IKCPCB\<close> cuts messages into
    numbered segments (\<^verbatim>\<open>ikcp_send\<close>), writes what is due into datagrams (\<^verbatim>\<open>ikcp_flush\<close>, driven by
    \<^verbatim>\<open>ikcp_update\<close>), takes the datagrams of its peer apart (\<^verbatim>\<open>ikcp_input\<close>) and hands complete messages over
    (\<^verbatim>\<open>ikcp_recv\<close>).
  \<^item> \<^verbatim>\<open>code/kcp/kcp_socket.h\<close> and \<^verbatim>\<open>.cc\<close> parse and check-sum TCP packets and read the clock.
  \<^item> \<^verbatim>\<open>code/kcp/kcp_client.h\<close> and \<^verbatim>\<open>.cc\<close> are the client: handshake and closing of its own TCP, the output callback of
    its control block, a receive loop, an update loop, and \<^verbatim>\<open>send_file\<close>.
  \<^item> \<^verbatim>\<open>code/kcp/server_epoll.cc\<close> and \<^verbatim>\<open>code/kcp/kcp_server.h\<close> and \<^verbatim>\<open>.cc\<close> are the server: an ordinary TCP listener, for
    each connection a session with a control block and the file it writes, and update passes over all sessions. The
    class of the sessions still has the thread functions of a first server without epoll.
  \<^item> \<^verbatim>\<open>code/model.cc\<close> holds SHA-256, SM3, SM4 and base 64 and two functions that encrypt a password with them; the
    build file leaves it out.

  \<^bold>\<open>Theories and what they model\<close>, each a group of definitions in the order of the code.

  \<^item> \<open>Kcp_Prelude\<close>: machine integers (\<^verbatim>\<open>IUINT8/16/32\<close> as words, \<^verbatim>\<open>IINT32\<close> as an \<open>int\<close> normalised by \<open>s32\<close>),
    \<^verbatim>\<open>_imin_\<close>, \<^verbatim>\<open>_imax_\<close>, \<^verbatim>\<open>_ibound_\<close>, \<^verbatim>\<open>_itimediff\<close>, the order of sequence numbers modulo \<open>2 ^ 32\<close>, and the locale
    \<open>safe_steps\<close> (invariants of transition systems by induction on the run).
  \<^item> \<open>Kcp_Wire\<close>: \<^verbatim>\<open>IKCPSEG\<close>, the field encoders and decoders in both preprocessor branches, the segment header. The
    locale \<open>wire_field\<close> is interpreted on the three field widths.
  \<^item> \<open>Kcp_State\<close>: \<^verbatim>\<open>IKCPCB\<close> as the record \<open>kcpcb\<close>, creation, release, configuration, and the invariant \<open>kcp_wf\<close>.
  \<^item> \<open>Kcp_Send\<close>, \<open>Kcp_Recv\<close>, \<open>Kcp_Ack\<close>, \<open>Kcp_Input\<close>, \<open>Kcp_Flush\<close>, \<open>Kcp_Update\<close>: the operations, one definition per
    function and per loop or phase of the long ones. \<open>Kcp_Api\<close> puts all calls together as one transition system.
  \<^item> \<open>Kcp_Queue\<close>: the intrusive queue macros of \<^verbatim>\<open>ikcp.h\<close> on a heap of nodes, and the list a ring stands for; the
    locale \<open>ring\<close> is the contract the lists rest on. \<open>Kcp_Pointers\<close>: \<^verbatim>\<open>ikcp_parse_una\<close> and \<^verbatim>\<open>ikcp_parse_data\<close> with
    these macros, refining the list model.
  \<^item> \<open>Kcp_Transfer\<close>: two control blocks and a network that loses, repeats, reorders and joins datagrams.
    \<open>Kcp_Endpoint\<close>: a control block as this program uses one, with settings that never change. \<open>Kcp_Progress\<close>: what
    happens to a control block while a whole datagram goes through \<^verbatim>\<open>ikcp_input\<close>, with the locale \<open>packet_walk\<close> for a
    contract that every segment of it keeps; \<open>Kcp_Round\<close>: a flush of one end, the input of the other, and back.
  \<^item> \<open>Kcp_Host\<close>: the allocator hooks of \<^verbatim>\<open>ikcp.cc\<close> with what each block was allocated by, and \<^verbatim>\<open>ikcp_log\<close>.
  \<^item> \<open>Fake_Tcp\<close>: headers, \<^verbatim>\<open>prase_tcp_packet\<close>, both checksums, the clock. \<open>Tcp_Client\<close>: \<^verbatim>\<open>KcpClient\<close>, packet building,
    \<^verbatim>\<open>tcp_client_cb\<close>, \<^verbatim>\<open>start_hand_shake\<close> and the closing sequence \<^verbatim>\<open>start_waving\<close>, \<^verbatim>\<open>finish\<close>. \<open>File_Client\<close>:
    \<^verbatim>\<open>kcp_client_start\<close>, \<^verbatim>\<open>run_tcp_client\<close>, \<^verbatim>\<open>client_loop\<close>, \<^verbatim>\<open>send_file\<close>, \<^verbatim>\<open>Close\<close>, each alone. \<open>Client_Threads\<close>: the
    same code, the destructor included, as three threads whose steps interleave, with a program counter each.
  \<^item> \<open>File_Server\<close>: the session object and the event loop of the server. \<open>File_Session\<close>: the messages of a file against
    a session. \<open>File_Invariant\<close>: the server as a transition system. \<open>File_Delivery\<close>: client, network and server.
  \<^item> \<open>Server_Run\<close>: the process around the sessions: \<^verbatim>\<open>startServer\<close>, \<^verbatim>\<open>setNonBlocking\<close>, the loop of \<^verbatim>\<open>startEpoll\<close> with the
    registration of descriptors, the erasing of sessions, the destructor; and \<^verbatim>\<open>StartFakeTcp\<close> and \<^verbatim>\<open>StartServer\<close>. Its
    state keeps which descriptors are open, listen, and are watched. \<open>Stream_Reads\<close>: reads that end inside of a
    datagram. \<open>Legacy_Server\<close>: the first server, \<^verbatim>\<open>run_tcp_server\<close>, \<^verbatim>\<open>run_tcp_server_loop\<close> and \<^verbatim>\<open>random_24\<close>.
  \<^item> \<open>Crypto_Bits\<close>: strings of binary digits, \<^verbatim>\<open>std::stoul\<close>, formatted output, rotations. \<open>Crypto_Hash\<close>: what both
    hashes share, with the locale \<open>block_hash\<close>. \<open>Sha256\<close>, \<open>Sm3\<close>, \<open>Sm4\<close>, \<open>Base64\<close>: the code and the standard it
    computes. \<open>Password\<close>: \<^verbatim>\<open>getEncryptPwd_sha256\<close> and \<^verbatim>\<open>getEncryptPwd_sm3\<close>.

  \<^bold>\<open>What the lemmas show.\<close>

  \<^item> End to end: what a receiving upper level gets is a prefix of what the sending one had accepted
    (\<open>Kcp_Transfer.reliable_transfer\<close>), hence what a session writes is a prefix of the file, and the whole file once
    it has closed it (\<open>File_Delivery.file_delivery\<close>). The invariant relates the sender's queues, the log of numbered
    segments, every datagram ever sent, and the receiver's queues. Progress: a round over a network that delivers
    hands over the oldest segment in flight and acknowledges it (\<open>Kcp_Round.round_makes_progress\<close>), and leaves both
    ends ready for the next.
  \<^item> Invariants: every state reachable by any calls and any received bytes is well formed (\<open>Kcp_Api\<close>); no operation
    of the server breaks a session, and an update pass cannot fail (\<open>File_Invariant\<close>); the process has open exactly the
    descriptors of its sessions and watches those of the running ones (\<open>Server_Run\<close>).
  \<^item> For each operation its behaviour on every branch, and that it returns: fragmentation, reordering, peeking and
    receiving, acknowledgement, the round trip estimator, retransmission, windows, datagram packing, the clock.
  \<^item> The pointer code implements the list code (\<open>Kcp_Pointers\<close>).
  \<^item> The client's TCP: packets whose checksum verifies, consecutive sequence numbers, a handshake and a closing
    sequence that take only the right answers, and progress of the closing sequence.
  \<^item> The threads of the client: no interleaving makes one fail before the control block is released, the messages go in
    in order, and the connection is closed only after everything has been acknowledged (\<open>Client_Threads\<close>). The
    sequential \<^verbatim>\<open>run_tcp_client\<close> is the run of its thread without interference.
  \<^item> The hashes, the cipher and the encoder compute their standards; what \<^verbatim>\<open>sm4\<close> encrypts can be decrypted.
  \<^item> Theorems of kind error show where the code goes wrong: buffers that \<^verbatim>\<open>ikcp_setmtu\<close> makes too small, file names
    that are too long, empty files, a handshake that never times out, resets of other connections, odd lengths,
    reads that cut datagrams, sockets that do not listen, descriptors closed twice or never, a control block that is
    released under a running thread.

  \<^bold>\<open>How effects are represented.\<close> State is passed explicitly. A failing assertion, the use of a null pointer, an
  access outside of a buffer and a thrown exception are values (\<^const>\<open>None\<close>, \<open>Abort\<close>, \<open>Overflow\<close>). Memory that is not
  written yet is an argument \<open>junk\<close>. What the kernel answers, and what the network does, are lists of events over
  which the theorems quantify. Threads interleave: a section under a mutex, or an access to a shared flag, is one step.
  A loop that may not end is a partial function; then a lemma shows that it returns.

  \<^bold>\<open>Bounds.\<close> \<open>length (seg_log l) < 2 ^ 32\<close>: segment numbers are 32 bits wide and are not used twice; a run that numbers
  more segments is not covered. \<open>ackcount < 2 ^ 31\<close>: it is converted to an \<^verbatim>\<open>int\<close>, and the doubling of the array ends
  only up to there. Files shorter than \<open>2 ^ 32\<close> bytes: the header carries the size in 32 bits. Passwords shorter than
  \<open>2 ^ 28\<close> bytes: the hashes keep the length in bits in an \<^verbatim>\<open>int\<close>. Shift counts outside \<open>0..31\<close> are taken modulo 32, as
  the processor does where the language says nothing. There is no fuel anywhere.

  \<^bold>\<open>Not modelled.\<close> Printing, and \<^verbatim>\<open>ikcp_qprint\<close>, whose body is empty; what happens between threads inside
  of a section under the mutex, or without one where the code accesses a map or an object under no lock; the code after the \<^verbatim>\<open>continue\<close> in \<^verbatim>\<open>updateKcp\<close> and in
  \<^verbatim>\<open>run_tcp_client\<close>, which is never reached; the early stub \<^verbatim>\<open>code/kcp.h\<close> and \<^verbatim>\<open>.cc\<close>, which no target builds; the
  command line programs under \<^verbatim>\<open>tests\<close>. What system calls answer is an argument. Allocation inside the protocol
  succeeds, except where an argument says that it does not (\<^verbatim>\<open>ikcp_create\<close>); that the blocks it takes and gives back
  agree with the hooks is shown for the hooks alone (\<open>Kcp_Host\<close>).
\<close>

end
